(* ===== verification/GoPrelude.thy ===== *)
theory GoPrelude
  imports Main "HOL-Library.Finite_Map"
begin

text \<open>
  Shared vocabulary of the development: the outcomes of running Go code, 64-bit arithmetic, Go maps
  and the order in which a \<^verbatim>\<open>range\<close> loop visits them, and slices with their backing arrays. Every
  component theory builds on these definitions and on the simplification rules collected in
  \<open>go_run\<close>, \<open>go_arith\<close> and \<open>go_slice\<close>.
\<close>

named_theorems go_run \<open>evaluation of outcomes\<close>
named_theorems go_arith \<open>64-bit arithmetic\<close>
named_theorems go_slice \<open>slices and their backing arrays\<close>

section \<open>Outcomes\<close>

text \<open>
  A call returns normally with a value, panics (nil dereference, index out of range, send on a
  closed channel, \<^verbatim>\<open>log.Panicln\<close>), or never returns because the goroutine waits for a lock or a
  channel operation that nobody will complete.
\<close>

datatype 'a outcome = Done 'a | Panicked | Blocked

fun and_then :: "'a outcome \<Rightarrow> ('a \<Rightarrow> 'b outcome) \<Rightarrow> 'b outcome" where
  "and_then (Done x) f = f x"
| "and_then Panicked f = Panicked"
| "and_then Blocked f = Blocked"

lemma and_then_Done_iff [go_run]:
  "and_then r f = Done y \<longleftrightarrow> (\<exists>x. r = Done x \<and> f x = Done y)"
  by (cases r) auto

lemma and_then_Blocked_iff:
  "and_then r f = Blocked \<longleftrightarrow> r = Blocked \<or> (\<exists>x. r = Done x \<and> f x = Blocked)"
  by (cases r) auto

lemma and_then_Panicked_iff:
  "and_then r f = Panicked \<longleftrightarrow> r = Panicked \<or> (\<exists>x. r = Done x \<and> f x = Panicked)"
  by (cases r) auto

lemma and_then_assoc: "and_then (and_then r f) g = and_then r (\<lambda>x. and_then (f x) g)"
  by (cases r) auto

text \<open>\<open>returns r P\<close>: the call returns, and its result satisfies \<open>P\<close>.\<close>

definition returns :: "'a outcome \<Rightarrow> ('a \<Rightarrow> bool) \<Rightarrow> bool" where
  "returns r P \<longleftrightarrow> (case r of Done x \<Rightarrow> P x | _ \<Rightarrow> False)"

lemma returns_Done [simp, go_run]: "returns (Done x) P \<longleftrightarrow> P x"
  by (simp add: returns_def)

lemma returns_iff: "returns r P \<longleftrightarrow> (\<exists>x. r = Done x \<and> P x)"
  by (cases r) (auto simp: returns_def)

lemma returns_and_then:
  "returns r P \<Longrightarrow> (\<And>x. P x \<Longrightarrow> returns (f x) Q) \<Longrightarrow> returns (and_then r f) Q"
  by (auto simp: returns_iff)

lemma returns_mono: "returns r P \<Longrightarrow> (\<And>x. P x \<Longrightarrow> Q x) \<Longrightarrow> returns r Q"
  by (auto simp: returns_iff)

section \<open>Machine integers\<close>

text \<open>
  Go's \<^verbatim>\<open>int\<close> and \<^verbatim>\<open>int64\<close> are 64-bit two's complement on the platforms the images are built
  for. Values are \<open>int\<close>, and every arithmetic operation of the code goes through \<open>wrap64\<close>.
\<close>

definition wrap64 :: "int \<Rightarrow> int" where
  "wrap64 x = (x + 2 ^ 63) mod 2 ^ 64 - 2 ^ 63"

abbreviation MaxInt64 :: int where
  "MaxInt64 \<equiv> 2 ^ 63 - 1"

abbreviation in_int64 :: "int \<Rightarrow> bool" where
  "in_int64 x \<equiv> - (2 ^ 63) \<le> x \<and> x < 2 ^ 63"

lemma wrap64_id [go_arith]: "in_int64 x \<Longrightarrow> wrap64 x = x"
  by (simp add: wrap64_def)

lemma wrap64_range: "in_int64 (wrap64 x)"
  by (simp add: wrap64_def)

lemma wrap64_overflow: "wrap64 (2 ^ 63) = - (2 ^ 63)"
  by (simp add: wrap64_def)

lemma wrap64_mod: "wrap64 x mod 2 ^ 64 = x mod 2 ^ 64"
  by (simp add: wrap64_def mod_diff_left_eq)

text \<open>Go's \<^verbatim>\<open>%\<close> truncates towards zero: the remainder has the sign of the dividend.\<close>

definition go_rem :: "int \<Rightarrow> int \<Rightarrow> int" where
  "go_rem a b = (if 0 \<le> a then a mod \<bar>b\<bar> else - ((- a) mod \<bar>b\<bar>))"

lemma go_rem_nonneg [go_arith]: "0 \<le> a \<Longrightarrow> 0 < b \<Longrightarrow> 0 \<le> go_rem a b \<and> go_rem a b < b"
  by (simp add: go_rem_def)

text \<open>
  Conversion of a real quantity to \<^verbatim>\<open>int\<close> truncates towards zero as well. For a value outside the type the
  language leaves the result open; the model has what the hardware of the images (amd64) gives.
\<close>

definition go_trunc :: "rat \<Rightarrow> int" where
  "go_trunc x = (if 0 \<le> x then \<lfloor>x\<rfloor> else \<lceil>x\<rceil>)"

definition go_int64 :: "rat \<Rightarrow> int" where
  "go_int64 x = (if in_int64 (go_trunc x) then go_trunc x else - (2 ^ 63))"

lemma go_int64_range: "in_int64 (go_int64 x)"
  by (simp add: go_int64_def)

section \<open>Maps and their iteration order\<close>

text \<open>
  A Go map is a finite map. A \<^verbatim>\<open>range\<close> loop visits the keys in an order the language leaves open,
  so every loop of the model takes the list of the keys in the order of this run, and the theorems
  hold for each list that enumerates the map.
\<close>

type_synonym ('k, 'v) gomap = "('k, 'v) fmap"

definition enumerates :: "'k list \<Rightarrow> ('k, 'v) gomap \<Rightarrow> bool" where
  "enumerates ks m \<longleftrightarrow> distinct ks \<and> set ks = fmdom' m"

definition gomap_get :: "'v \<Rightarrow> ('k, 'v) gomap \<Rightarrow> 'k \<Rightarrow> 'v" where
  \<comment> \<open>reading a missing key yields the zero value of the element type\<close>
  "gomap_get zero m k = (case fmlookup m k of None \<Rightarrow> zero | Some v \<Rightarrow> v)"

lemma gomap_get_Some [simp]: "fmlookup m k = Some v \<Longrightarrow> gomap_get z m k = v"
  by (simp add: gomap_get_def)

lemma enumeratesD: "enumerates ks m \<Longrightarrow> k \<in> set ks \<Longrightarrow> \<exists>v. fmlookup m k = Some v"
  by (auto simp: enumerates_def fmlookup_dom'_iff)

lemma enumerates_mem: "enumerates ks m \<Longrightarrow> fmlookup m k = Some v \<Longrightarrow> k \<in> set ks"
  by (auto simp: enumerates_def fmdom'I)

lemma enumerates_Nil_iff: "enumerates [] m \<longleftrightarrow> m = fmempty"
  by (auto simp: enumerates_def fmlookup_dom'_iff intro!: fmap_ext)

lemma enumerates_length: "enumerates ks m \<Longrightarrow> length ks = card (fmdom' m)"
  by (metis enumerates_def distinct_card)

section \<open>Slices\<close>

text \<open>
  A slice is a view on the first \<open>slen\<close> cells of a backing array (all slices of the program start
  at offset 0). Cells behind the length keep what was last written there, and a loop that took the
  slice's header before an in-place deletion still reads them.
\<close>

record 'a slice =
  cells :: "'a list"
  slen :: nat

definition slice_ok :: "'a slice \<Rightarrow> bool" where
  "slice_ok s \<longleftrightarrow> slen s \<le> length (cells s)"

definition elems :: "'a slice \<Rightarrow> 'a list" where
  "elems s = take (slen s) (cells s)"

definition slice_of :: "'a list \<Rightarrow> 'a slice" where
  "slice_of xs = \<lparr>cells = xs, slen = length xs\<rparr>"

text \<open>\<^verbatim>\<open>append(s, x)\<close>: in place when the capacity allows, into a fresh array otherwise.\<close>

definition slice_append :: "'a \<Rightarrow> 'a slice \<Rightarrow> 'a slice" where
  "slice_append x s =
     (if slen s < length (cells s)
      then \<lparr>cells = (cells s)[slen s := x], slen = Suc (slen s)\<rparr>
      else slice_of (elems s @ [x]))"

text \<open>
  \<^verbatim>\<open>append(s[:i], s[i+1:]...)\<close>: the elements behind position \<open>i\<close> move one cell down in the same
  array, and the last cell of the old view keeps its value.
\<close>

definition slice_remove :: "nat \<Rightarrow> 'a slice \<Rightarrow> 'a slice" where
  "slice_remove i s =
     \<lparr>cells = take i (cells s) @ drop (Suc i) (elems s) @ drop (slen s - 1) (cells s),
      slen = slen s - 1\<rparr>"

lemma slice_ok_of [simp, go_slice]: "slice_ok (slice_of xs)"
  by (simp add: slice_ok_def slice_of_def)

lemma elems_of [simp, go_slice]: "elems (slice_of xs) = xs"
  by (simp add: elems_def slice_of_def)

lemma length_elems [go_slice]: "slice_ok s \<Longrightarrow> length (elems s) = slen s"
  by (simp add: elems_def slice_ok_def)

lemma elems_append [go_slice]: "slice_ok s \<Longrightarrow> elems (slice_append x s) = elems s @ [x]"
  by (simp add: slice_append_def elems_def slice_ok_def slice_of_def take_Suc_conv_app_nth)

lemma slice_ok_append [go_slice]: "slice_ok s \<Longrightarrow> slice_ok (slice_append x s)"
  by (simp add: slice_append_def slice_ok_def slice_of_def)

lemma elems_remove [go_slice]:
  assumes "slice_ok s" and "i < slen s"
  shows "elems (slice_remove i s) = take i (elems s) @ drop (Suc i) (elems s)"
proof -
  have "slen s - 1 \<le> i \<Longrightarrow> i = slen s - 1" using assms(2) by simp
  with assms show ?thesis
    by (auto simp: elems_def slice_remove_def slice_ok_def min_def)
qed

lemma length_cells_remove [go_slice]:
  "slice_ok s \<Longrightarrow> i < slen s \<Longrightarrow> length (cells (slice_remove i s)) = length (cells s)"
  by (simp add: elems_def slice_remove_def slice_ok_def)

lemma slen_remove [go_slice]: "slen (slice_remove i s) = slen s - 1"
  by (simp add: slice_remove_def)

lemma slice_ok_remove [go_slice]: "slice_ok s \<Longrightarrow> i < slen s \<Longrightarrow> slice_ok (slice_remove i s)"
  by (auto simp: slice_ok_def slen_remove length_cells_remove)

lemma cells_remove_nth [go_slice]:
  assumes "slice_ok s" and "i < slen s" and "j < length (cells s)"
  shows "cells (slice_remove i s) ! j =
    (if j < i then cells s ! j else if Suc j < slen s then cells s ! Suc j else cells s ! j)"
  using assms
  by (auto simp: slice_remove_def elems_def slice_ok_def nth_append min_def not_less
      intro: arg_cong [where f = "nth (cells s)"])

text \<open>Removing the only occurrence of an element by its position.\<close>

lemma remove_at_filter:
  assumes "distinct xs" and "i < length xs"
  shows "take i xs @ drop (Suc i) xs = filter (\<lambda>x. x \<noteq> xs ! i) xs"
proof -
  have split: "xs = take i xs @ xs ! i # drop (Suc i) xs"
    using assms(2) by (rule id_take_nth_drop)
  have "filter (\<lambda>x. x \<noteq> xs ! i) (take i xs) = take i xs"
    and "filter (\<lambda>x. x \<noteq> xs ! i) (drop (Suc i) xs) = drop (Suc i) xs"
    using assms by (auto simp: filter_id_conv in_set_conv_nth nth_eq_iff_index_eq)
  with split show ?thesis
    by (metis (mono_tags, lifting) filter.simps(2) filter_append)
qed

text \<open>The position of the first element with a property, as a search loop finds it.\<close>

fun find_pos :: "('a \<Rightarrow> bool) \<Rightarrow> 'a list \<Rightarrow> nat option" where
  "find_pos P [] = None"
| "find_pos P (x # xs) = (if P x then Some 0 else map_option Suc (find_pos P xs))"

lemma find_pos_Some:
  "find_pos P xs = Some i \<Longrightarrow> i < length xs \<and> P (xs ! i)"
  by (induction xs arbitrary: i) (auto split: if_splits)

lemma find_pos_None: "find_pos P xs = None \<longleftrightarrow> (\<forall>x\<in>set xs. \<not> P x)"
  by (induction xs) auto

end
