(* ===== verification/Strconv.thy ===== *)
theory Strconv
  imports GoPrelude "HOL-Library.Char_ord"
begin

text \<open>
  Decimal numbers and strings, as the program uses them from Go's \<^verbatim>\<open>strconv\<close> and \<^verbatim>\<open>strings\<close>: request
  identifiers are printed with \<^verbatim>\<open>FormatInt\<close>, sizes and settings are read with \<^verbatim>\<open>ParseInt\<close> and
  \<^verbatim>\<open>ParseUint\<close>, configuration lines are cut with \<^verbatim>\<open>SplitN\<close> and \<^verbatim>\<open>TrimSpace\<close>.
\<close>

section \<open>Decimal numbers\<close>

definition digit_char :: "nat \<Rightarrow> char" where
  "digit_char d = char_of (d + 48)"

definition digit_val :: "char \<Rightarrow> nat option" where
  "digit_val c = (let n = (of_char c :: nat) in if 48 \<le> n \<and> n \<le> 57 then Some (n - 48) else None)"

fun digits :: "nat \<Rightarrow> string" where
  "digits n = (if n < 10 then [digit_char n] else digits (n div 10) @ [digit_char (n mod 10)])"

declare digits.simps [simp del]

definition FormatInt :: "int \<Rightarrow> string" where
  "FormatInt n = (if n < 0 then CHR ''-'' # digits (nat (- n)) else digits (nat n))"

fun parseDigits :: "nat \<Rightarrow> string \<Rightarrow> nat option" where
  "parseDigits acc [] = Some acc"
| "parseDigits acc (c # cs) =
     (case digit_val c of None \<Rightarrow> None | Some d \<Rightarrow> parseDigits (10 * acc + d) cs)"

definition parseNat :: "string \<Rightarrow> nat option" where
  "parseNat s = (if s = [] then None else parseDigits 0 s)"

text \<open>Both parsers return \<^term>\<open>None\<close> for a syntax error and for a value outside the type.\<close>

definition ParseUint :: "string \<Rightarrow> int option" where
  "ParseUint s = (case parseNat s of None \<Rightarrow> None
     | Some n \<Rightarrow> if int n < 2 ^ 64 then Some (int n) else None)"

definition ParseInt :: "string \<Rightarrow> int option" where
  "ParseInt s =
     (let (neg, ds) = (case s of [] \<Rightarrow> (False, [])
          | c # cs \<Rightarrow> if c = CHR ''-'' then (True, cs) else if c = CHR ''+'' then (False, cs) else (False, s))
      in case parseNat ds of None \<Rightarrow> None
         | Some n \<Rightarrow> let v = (if neg then - int n else int n) in if in_int64 v then Some v else None)"

lemma digit_val_char [simp]: "d < 10 \<Longrightarrow> digit_val (digit_char d) = Some d"
  by (simp add: digit_val_def digit_char_def)

lemma digit_val_signs [simp]: "digit_val CHR ''-'' = None" "digit_val CHR ''+'' = None"
  by (simp_all add: digit_val_def)

lemma parseDigits_append:
  "parseDigits acc (s @ t) = (case parseDigits acc s of None \<Rightarrow> None | Some a \<Rightarrow> parseDigits a t)"
  by (induction acc s rule: parseDigits.induct) (auto split: option.splits)

lemma digits_nonempty [simp]: "digits n \<noteq> []"
  by (simp add: digits.simps [of n])

lemma parseDigits_digits: "parseDigits 0 (digits n) = Some n"
proof (induction n rule: digits.induct)
  case (1 n)
  show ?case
  proof (cases "n < 10")
    case True
    then show ?thesis by (simp add: digits.simps [of n])
  next
    case False
    with 1 show ?thesis
      by (simp add: digits.simps [of n] parseDigits_append)
  qed
qed

lemma digits_head: "\<exists>c cs d. digits n = c # cs \<and> digit_val c = Some d"
  using parseDigits_digits [of n] digits_nonempty [of n]
  by (cases "digits n") (auto split: option.splits)

lemma parseNat_digits [simp]: "parseNat (digits n) = Some n"
  by (simp add: parseNat_def parseDigits_digits)

lemma ParseInt_FormatInt:
  assumes "in_int64 n"
  shows "ParseInt (FormatInt n) = Some n"
proof (cases "n < 0")
  case True
  with assms show ?thesis by (simp add: ParseInt_def FormatInt_def)
next
  case False
  obtain c cs d where c: "digits (nat n) = c # cs" "digit_val c = Some d"
    using digits_head by blast
  then have "c \<noteq> CHR ''-''" "c \<noteq> CHR ''+''" by auto
  with c have "(case digits (nat n) of [] \<Rightarrow> (False, []) | c # cs \<Rightarrow>
      if c = CHR ''-'' then (True, cs) else if c = CHR ''+'' then (False, cs) else (False, digits (nat n))) =
      (False, digits (nat n))" by simp
  with False assms show ?thesis by (simp only: ParseInt_def FormatInt_def if_False) simp
qed

lemma FormatInt_inj: "in_int64 m \<Longrightarrow> in_int64 n \<Longrightarrow> FormatInt m = FormatInt n \<longleftrightarrow> m = n"
  using ParseInt_FormatInt by (metis option.inject)

lemma ParseInt_range: "ParseInt s = Some n \<Longrightarrow> in_int64 n"
  by (auto simp: ParseInt_def Let_def split: option.splits if_splits prod.splits list.splits)

lemma ParseUint_range: "ParseUint s = Some n \<Longrightarrow> 0 \<le> n \<and> n < 2 ^ 64"
  by (auto simp: ParseUint_def split: option.splits if_splits)

section \<open>Strings\<close>

text \<open>White space of the ASCII range: tab, newline, vertical tab, form feed, carriage return, space.\<close>

definition is_space :: "char \<Rightarrow> bool" where
  "is_space c = (let n = (of_char c :: nat) in n = 32 \<or> (9 \<le> n \<and> n \<le> 13))"

definition TrimSpace :: "string \<Rightarrow> string" where
  "TrimSpace s = rev (dropWhile is_space (rev (dropWhile is_space s)))"

text \<open>\<^verbatim>\<open>strings.SplitN(s, sep, 2)\<close> for a one-character separator.\<close>

fun SplitN2 :: "char \<Rightarrow> string \<Rightarrow> string list" where
  "SplitN2 sep [] = [[]]"
| "SplitN2 sep (c # cs) =
     (if c = sep then [[], cs]
      else case SplitN2 sep cs of [] \<Rightarrow> [] | p # ps \<Rightarrow> (c # p) # ps)"

lemma SplitN2_nosep: "sep \<notin> set s \<Longrightarrow> SplitN2 sep s = [s]"
  by (induction sep s rule: SplitN2.induct) auto

lemma SplitN2_sep: "sep \<notin> set k \<Longrightarrow> SplitN2 sep (k @ sep # v) = [k, v]"
  by (induction k) auto

lemma SplitN2_length: "SplitN2 sep s = [s] \<and> sep \<notin> set s \<or>
    (\<exists>k v. s = k @ sep # v \<and> sep \<notin> set k \<and> SplitN2 sep s = [k, v])"
proof (cases "sep \<in> set s")
  case True
  then obtain k v where "s = k @ sep # v" "sep \<notin> set k" by (meson split_list_first)
  then show ?thesis by (auto simp: SplitN2_sep)
next
  case False
  then show ?thesis by (simp add: SplitN2_nosep)
qed

lemma TrimSpace_id: "s \<noteq> [] \<Longrightarrow> \<not> is_space (hd s) \<Longrightarrow> \<not> is_space (last s) \<Longrightarrow> TrimSpace s = s"
  by (metis TrimSpace_def dropWhile_eq_self_iff hd_rev rev_rev_ident)

lemma TrimSpace_empty [simp]: "TrimSpace [] = []"
  by (simp add: TrimSpace_def)

end
