(* ===== verification/Float64.thy ===== *)
theory Float64
  imports Complex_Main "HOL-Library.Log_Nat"
begin

text \<open>
  The arithmetic of \<^verbatim>\<open>float64\<close> that the load balancer uses: every operation computes the exact
  rational result and rounds it to 53 significant bits, to the even neighbour on ties. The exponent
  is unbounded: the values of the program are far from overflow and underflow.
\<close>

definition round_even :: "rat \<Rightarrow> int" where
  "round_even x =
     (let n = \<lfloor>x\<rfloor>; r = x - of_int n in
      if r < 1 / 2 then n else if 1 / 2 < r then n + 1 else if even n then n else n + 1)"

text \<open>The power of two that brings a positive number into the range of 53-bit integers.\<close>

definition f64_shift :: "rat \<Rightarrow> int" where
  "f64_shift x =
     (let (p, q) = quotient_of x; s = 53 - (bitlen p - bitlen q) in
      if x * 2 powi s < 2 ^ 53 then s else s - 1)"

definition f64_pos :: "rat \<Rightarrow> rat" where
  "f64_pos x = of_int (round_even (x * 2 powi f64_shift x)) * 2 powi (- f64_shift x)"

definition f64 :: "rat \<Rightarrow> rat" where
  "f64 x = (if x = 0 then 0 else if 0 < x then f64_pos x else - f64_pos (- x))"

lemma round_even_int [simp]: "round_even (of_int n) = n"
  by (simp add: round_even_def Let_def)

lemma round_even_nonneg: "0 \<le> x \<Longrightarrow> 0 \<le> round_even x"
  by (auto simp: round_even_def Let_def)

lemma shift_lower:
  assumes "0 < x"
  shows "2 ^ 52 \<le> x * 2 powi f64_shift x"
proof -
  obtain p q where pq: "quotient_of x = (p, q)" by (cases "quotient_of x")
  then have q: "0 < q" and x: "x = of_int p / of_int q"
    by (auto simp: quotient_of_denom_pos quotient_of_div)
  with assms have p: "0 < p" by (simp add: zero_less_divide_iff)
  define s where "s = 53 - (bitlen p - bitlen q)"
  have bp: "2 ^ nat (bitlen p - 1) \<le> p" and bq: "q < 2 ^ nat (bitlen q)"
    using bitlen_bounds [OF p] bitlen_bounds [OF q] by auto
  have np: "1 \<le> bitlen p" and nq: "1 \<le> bitlen q"
    using p q bitlen_eq_zero_iff [of p] bitlen_eq_zero_iff [of q] bitlen_nonneg [of p] bitlen_nonneg [of q]
    by linarith+
  have "(2::rat) powi (bitlen p - 1) = of_int (2 ^ nat (bitlen p - 1))"
    using np by (simp add: power_int_def)
  also have "\<dots> \<le> of_int p" using bp by (simp only: of_int_le_iff)
  finally have P: "(2::rat) powi (bitlen p - 1) \<le> of_int p" .
  have "of_int q < (of_int (2 ^ nat (bitlen q)) :: rat)" using bq by (simp only: of_int_less_iff)
  also have "\<dots> = 2 powi bitlen q" using nq by (simp add: power_int_def)
  finally have Q: "of_int q < (2::rat) powi bitlen q" .
  have two: "(2::rat) powi (a + b) = 2 powi a * 2 powi b" for a b by (simp add: power_int_add)
  have "(2::rat) ^ 52 * 2 powi bitlen q = 2 powi (52 + bitlen q)"
    by (simp only: two) simp
  also have "\<dots> = 2 powi ((bitlen p - 1) + s)" by (simp add: s_def)
  also have "\<dots> = 2 powi (bitlen p - 1) * 2 powi s" by (rule two)
  also have "\<dots> \<le> of_int p * 2 powi s" using P by (intro mult_right_mono) simp_all
  finally have "2 ^ 52 * 2 powi bitlen q \<le> of_int p * (2::rat) powi s" .
  moreover have "2 ^ 52 * of_int q \<le> 2 ^ 52 * (2::rat) powi bitlen q" using Q by simp
  ultimately have "2 ^ 52 * of_int q \<le> of_int p * (2::rat) powi s" by linarith
  then have low: "2 ^ 52 \<le> x * 2 powi s"
    using q by (simp add: x field_simps)
  have half: "x * 2 powi (s - 1) = x * 2 powi s / 2"
    by (simp add: power_int_diff)
  show ?thesis
  proof (cases "x * 2 powi s < 2 ^ 53")
    case True
    then have "f64_shift x = s" by (simp add: f64_shift_def pq Let_def s_def [symmetric])
    with low show ?thesis by simp
  next
    case False
    then have "f64_shift x = s - 1" by (simp add: f64_shift_def pq Let_def s_def [symmetric])
    moreover have "2 ^ 52 \<le> x * 2 powi (s - 1)" unfolding half using False by simp
    ultimately show ?thesis by simp
  qed
qed

text \<open>A number with at most 53 significant bits is not changed.\<close>

lemma f64_pos_exact:
  assumes "0 < m" and "m \<le> 2 ^ 53" and x: "x = of_int m * 2 powi (- int k)"
  shows "f64_pos x = x"
proof -
  have pos: "0 < x" using assms(1) by (simp add: x)
  define s where "s = f64_shift x"
  have low: "2 ^ 52 \<le> x * 2 powi s" using shift_lower [OF pos] by (simp add: s_def)
  have xs: "x * 2 powi s = of_int m * 2 powi (s - int k)"
    by (simp add: x power_int_add [symmetric])
  have ge: "int k - 1 \<le> s"
  proof (rule ccontr)
    assume "\<not> int k - 1 \<le> s"
    then have "(2::rat) powi (s - int k) \<le> 2 powi (- 2)" by (intro power_int_increasing) auto
    then have "of_int m * 2 powi (s - int k) \<le> of_int (2 ^ 53) * (2::rat) powi (- 2)"
      using assms(1,2) by (intro mult_mono) (simp_all only: of_int_le_iff, simp_all)
    with low xs show False by simp
  qed
  have "\<exists>n. x * 2 powi s = of_int n"
  proof (cases "s = int k - 1")
    case True
    have "m = 2 ^ 53"
    proof -
      have "2 ^ 52 \<le> of_int m / (2::rat)" using low xs True by (simp add: power_int_minus)
      then have "2 ^ 53 \<le> (of_int m :: rat)" by simp
      then have "of_int (2 ^ 53) \<le> (of_int m :: rat)" by simp
      then have "2 ^ 53 \<le> m" by (simp only: of_int_le_iff)
      with assms(2) show ?thesis by simp
    qed
    with xs True have "x * 2 powi s = of_int (2 ^ 52)" by (simp add: power_int_minus)
    then show ?thesis by blast
  next
    case False
    with ge have "x * 2 powi s = of_int (m * 2 ^ nat (s - int k))"
      by (simp only: xs) (simp add: power_int_def)
    then show ?thesis by blast
  qed
  then obtain n where n: "x * 2 powi s = of_int n" by blast
  have "f64_pos x = x * 2 powi s * 2 powi (- s)"
    unfolding f64_pos_def s_def [symmetric] n by simp
  then show ?thesis by (simp add: power_int_minus)
qed

lemma f64_exact:
  assumes "0 \<le> m" and "m \<le> 2 ^ 53"
  shows "f64 (of_int m * 2 powi (- int k)) = of_int m * 2 powi (- int k)"
proof (cases "m = 0")
  case False
  with assms have "0 < m" by simp
  moreover from this have "0 < (of_int m :: rat) * 2 powi (- int k)" by simp
  ultimately show ?thesis using f64_pos_exact [of m "of_int m * 2 powi (- int k)" k] assms(2)
    by (simp add: f64_def)
qed (simp add: f64_def)

lemma f64_int: "0 \<le> m \<Longrightarrow> m \<le> 2 ^ 53 \<Longrightarrow> f64 (of_int m) = of_int m"
  using f64_exact [of m 0] by simp

lemma f64_half: "0 \<le> m \<Longrightarrow> m \<le> 2 ^ 53 \<Longrightarrow> f64 (of_int m / 2) = of_int m / 2"
  using f64_exact [of m 1] by (simp add: power_int_minus field_simps)

lemma f64_nonneg: "0 \<le> x \<Longrightarrow> 0 \<le> f64 x"
  by (auto simp: f64_def f64_pos_def intro!: mult_nonneg_nonneg round_even_nonneg)

end
