(* ===== verification/ParseFloat.thy ===== *)
theory ParseFloat
  imports Strconv Float64
begin

text \<open>
  \<^verbatim>\<open>strconv.ParseFloat(s, 64)\<close> for the settings that are fractions: decimal numbers with an optional sign,
  fraction and exponent, and the names of infinity and of not-a-number. The value is the exact decimal
  rounded to \<^verbatim>\<open>float64\<close>, subnormal numbers included; a value too large for the type is an error. What the
  library makes of hexadecimal numbers and of underscores between digits is an argument.
\<close>

datatype float64 = Finite rat | Infinite bool | NaN

section \<open>Syntax\<close>

definition is_digit :: "char \<Rightarrow> bool" where
  "is_digit c \<longleftrightarrow> digit_val c \<noteq> None"

definition lower :: "char \<Rightarrow> char" where
  "lower c = (let n = (of_char c :: nat) in if 65 \<le> n \<and> n \<le> 90 then char_of (n + 32) else c)"

fun splitSign :: "string \<Rightarrow> bool \<times> string" where
  "splitSign [] = (False, [])"
| "splitSign (c # cs) = (if c = CHR ''-'' then (True, cs) else if c = CHR ''+'' then (False, cs) else (False, c # cs))"

text \<open>The digits of the mantissa and how many of them stand behind the point, and the rest.\<close>

definition readMantissa :: "string \<Rightarrow> (string \<times> nat) \<times> string" where
  "readMantissa s =
     (let whole = takeWhile is_digit s; rest = dropWhile is_digit s in
      case rest of
        [] \<Rightarrow> ((whole, 0), [])
      | c # cs \<Rightarrow>
          if c = CHR ''.''
          then ((whole @ takeWhile is_digit cs, length (takeWhile is_digit cs)), dropWhile is_digit cs)
          else ((whole, 0), rest))"

definition readExponent :: "string \<Rightarrow> int option" where
  "readExponent s =
     (case s of
        [] \<Rightarrow> Some 0
      | c # cs \<Rightarrow>
          if lower c = CHR ''e''
          then let (neg, ds) = splitSign cs in
            map_option (\<lambda>n. if neg then - int n else int n) (parseNat ds)
          else None)"

text \<open>Sign, digits read as a number, and the power of ten.\<close>

definition readDecimal :: "string \<Rightarrow> (bool \<times> nat \<times> int) option" where
  "readDecimal s =
     (let (neg, r) = splitSign s; ((ds, frac), rest) = readMantissa r in
      case parseNat ds of
        None \<Rightarrow> None
      | Some m \<Rightarrow> map_option (\<lambda>e. (neg, m, e - int frac)) (readExponent rest))"

definition readSpecial :: "string \<Rightarrow> float64 option" where
  "readSpecial s =
     (let (neg, r) = splitSign s; w = map lower r in
      if w = ''inf'' \<or> w = ''infinity'' then Some (Infinite neg)
      else if map lower s = ''nan'' then Some NaN else None)"

definition otherSyntax :: "string \<Rightarrow> bool" where
  "otherSyntax s \<longleftrightarrow> CHR ''_'' \<in> set s \<or> (\<exists>r\<in>{snd (splitSign s)}. take 2 (map lower r) = ''0x'')"

section \<open>Rounding\<close>

text \<open>Below the exponent of the subnormal numbers the unit in the last place stays the same.\<close>

definition f64_unit :: "rat \<Rightarrow> int" where
  "f64_unit x = min (f64_shift x) 1074"

definition f64_round :: "rat \<Rightarrow> rat" where
  "f64_round x = of_int (round_even (x * 2 powi f64_unit x)) * 2 powi (- f64_unit x)"

definition decimalValue :: "nat \<Rightarrow> int \<Rightarrow> rat" where
  "decimalValue m e = of_nat m * 10 powi e"

definition roundDecimal :: "bool \<Rightarrow> rat \<Rightarrow> float64 option" where
  "roundDecimal neg x =
     (let v = (if x = 0 then 0 else f64_round x) in
      if 2 ^ 1024 \<le> v then None else Some (Finite (if neg then - v else v)))"

definition ParseFloat :: "(string \<Rightarrow> float64 option) \<Rightarrow> string \<Rightarrow> float64 option" where
  "ParseFloat library s =
     (if otherSyntax s then library s
      else case readSpecial s of
        Some v \<Rightarrow> Some v
      | None \<Rightarrow>
          (case readDecimal s of
             None \<Rightarrow> None
           | Some (neg, m, e) \<Rightarrow> roundDecimal neg (decimalValue m e)))"

section \<open>The error of rounding\<close>

lemma round_even_error: "\<bar>of_int (round_even x) - x\<bar> \<le> 1 / 2"
proof -
  have "of_int \<lfloor>x\<rfloor> \<le> x" "x < of_int \<lfloor>x\<rfloor> + 1" by linarith+
  then show ?thesis by (auto simp: round_even_def Let_def abs_le_iff)
qed

lemma f64_round_error: "\<bar>f64_round x - x\<bar> \<le> 2 powi (- f64_unit x) / 2"
proof -
  let ?u = "(2::rat) powi f64_unit x"
  have u: "0 < ?u" by simp
  have x: "x = x * ?u * 2 powi (- f64_unit x)" by (simp add: power_int_minus)
  have "f64_round x - x = (of_int (round_even (x * ?u)) - x * ?u) * 2 powi (- f64_unit x)"
    using u by (subst (2) x) (simp add: f64_round_def left_diff_distrib)
  then have "\<bar>f64_round x - x\<bar> = \<bar>of_int (round_even (x * ?u)) - x * ?u\<bar> * 2 powi (- f64_unit x)"
    by (simp add: abs_mult)
  also have "\<dots> \<le> 1 / 2 * 2 powi (- f64_unit x)"
    by (intro mult_right_mono round_even_error) simp
  finally show ?thesis by simp
qed

lemma f64_round_relative:
  assumes "0 < x" and "f64_shift x \<le> 1074"
  shows "\<bar>f64_round x - x\<bar> \<le> x / 2 ^ 53"
proof -
  have "2 ^ 52 \<le> x * 2 powi f64_unit x" using shift_lower [OF assms(1)] assms(2) by (simp add: f64_unit_def)
  then have "2 ^ 52 * 2 powi (- f64_unit x) \<le> x"
    by (simp only: power_int_minus divide_inverse [symmetric]) (simp add: pos_divide_le_eq)
  with f64_round_error [of x] show ?thesis by simp
qed

lemma shift_upper:
  assumes "0 < x"
  shows "x * 2 powi f64_shift x < 2 ^ 53"
proof -
  obtain p q where pq: "quotient_of x = (p, q)" by (cases "quotient_of x")
  then have q: "0 < q" and x: "x = of_int p / of_int q"
    by (auto simp: quotient_of_denom_pos quotient_of_div)
  with assms have p: "0 < p" by (simp add: zero_less_divide_iff)
  define s where "s = 53 - (bitlen p - bitlen q)"
  have np: "1 \<le> bitlen p" and nq: "1 \<le> bitlen q"
    using p q bitlen_eq_zero_iff [of p] bitlen_eq_zero_iff [of q] bitlen_nonneg [of p] bitlen_nonneg [of q]
    by linarith+
  have "p < 2 ^ nat (bitlen p)" and "2 ^ nat (bitlen q - 1) \<le> q"
    using bitlen_bounds [OF p] bitlen_bounds [OF q] by auto
  then have "of_int p < (of_int (2 ^ nat (bitlen p)) :: rat)" and "of_int (2 ^ nat (bitlen q - 1)) \<le> (of_int q :: rat)"
    by (simp_all only: of_int_less_iff of_int_le_iff)
  then have P: "of_int p < (2::rat) powi bitlen p" and Q: "(2::rat) powi (bitlen q - 1) \<le> of_int q"
    using np nq by (simp_all add: power_int_def)
  have two: "(2::rat) powi (a + b) = 2 powi a * 2 powi b" for a b by (simp add: power_int_add)
  have "of_int p * (2::rat) powi s < 2 powi bitlen p * 2 powi s" using P by simp
  also have "\<dots> = 2 powi (54 + (bitlen q - 1))" by (simp add: two [symmetric] s_def)
  also have "\<dots> = 2 ^ 54 * 2 powi (bitlen q - 1)" by (simp only: two) simp
  also have "\<dots> \<le> 2 ^ 54 * of_int q" using Q by simp
  finally have up: "x * 2 powi s < 2 ^ 54" using q by (simp add: x field_simps)
  have half: "x * 2 powi (s - 1) = x * 2 powi s / 2" by (simp add: power_int_diff)
  show ?thesis
  proof (cases "x * 2 powi s < 2 ^ 53")
    case True
    then show ?thesis by (simp add: f64_shift_def pq Let_def s_def [symmetric])
  next
    case False
    then have "f64_shift x = s - 1" by (simp add: f64_shift_def pq Let_def s_def [symmetric])
    moreover have "x * 2 powi (s - 1) < 2 ^ 53" unfolding half using up by simp
    ultimately show ?thesis by simp
  qed
qed

lemma normal_shift:
  assumes "2 powi (- 1022) \<le> x"
  shows "0 < x" and "f64_shift x \<le> 1074"
proof -
  have "0 < (2::rat) powi (- 1022)" by simp
  then show pos: "0 < x" using assms by linarith
  show "f64_shift x \<le> 1074"
  proof (rule ccontr)
    assume "\<not> f64_shift x \<le> 1074"
    then have "(2::rat) powi 1075 \<le> 2 powi f64_shift x" by (intro power_int_increasing) auto
    then have "2 powi (- 1022) * 2 powi 1075 \<le> x * 2 powi f64_shift x"
      using assms pos by (intro mult_mono) auto
    moreover have "(2::rat) powi (- 1022) * 2 powi 1075 = 2 ^ 53"
      by (simp only: power_int_add [symmetric, of "2::rat", simplified]) simp
    ultimately show False using shift_upper [OF pos] by simp
  qed
qed

lemma f64_round_normal: "2 powi (- 1022) \<le> x \<Longrightarrow> f64_round x = f64_pos x"
  using normal_shift [of x] by (simp add: f64_round_def f64_unit_def f64_pos_def)

section \<open>Numbers written with a point\<close>

lemma parseDigits_iff: "parseDigits acc s \<noteq> None \<longleftrightarrow> list_all is_digit s"
  by (induction acc s rule: parseDigits.induct) (auto simp: is_digit_def split: option.split)

lemma digit_facts:
  assumes "is_digit c"
  shows "c \<noteq> CHR ''-''" "c \<noteq> CHR ''+''" "c \<noteq> CHR ''_''" "c \<noteq> CHR ''.''" "lower c = c" "c \<noteq> CHR ''x''" "c \<noteq> CHR ''i''" "c \<noteq> CHR ''n''"
proof -
  have "48 \<le> (of_char c :: nat)" "(of_char c :: nat) \<le> 57"
    using assms by (auto simp: is_digit_def digit_val_def Let_def split: if_splits)
  then show "c \<noteq> CHR ''-''" "c \<noteq> CHR ''+''" "c \<noteq> CHR ''_''" "c \<noteq> CHR ''.''" "lower c = c" "c \<noteq> CHR ''x''" "c \<noteq> CHR ''i''" "c \<noteq> CHR ''n''"
    by (auto simp: lower_def Let_def)
qed

lemma point_syntax:
  assumes "list_all is_digit w" and "list_all is_digit f" and "w \<noteq> []"
  shows "\<not> otherSyntax (w @ CHR ''.'' # f)" and "readSpecial (w @ CHR ''.'' # f) = None"
    and "readDecimal (w @ CHR ''.'' # f) = map_option (\<lambda>m. (False, m, - int (length f))) (parseNat (w @ f))"
proof -
  obtain c cs where w: "w = c # cs" using assms(3) by (cases w) auto
  note d = digit_facts [of c]
  have c: "is_digit c" using assms(1) w by simp
  have sign: "splitSign (w @ CHR ''.'' # f) = (False, w @ CHR ''.'' # f)" using d c w by simp
  have all: "x \<in> set (w @ f) \<Longrightarrow> is_digit x" for x using assms by (auto simp: list_all_iff)
  have "CHR ''_'' \<notin> set (w @ CHR ''.'' # f)" using all digit_facts(3) by fastforce
  moreover have "take 2 (map lower (w @ CHR ''.'' # f)) \<noteq> ''0x''"
  proof (cases cs)
    case Nil
    then show ?thesis by (simp add: w lower_def)
  next
    case (Cons c' cs')
    then have "is_digit c'" using all w by simp
    then show ?thesis using digit_facts(5,6) [of c'] by (simp add: w Cons)
  qed
  ultimately show "\<not> otherSyntax (w @ CHR ''.'' # f)" by (simp add: otherSyntax_def sign)
  show "readSpecial (w @ CHR ''.'' # f) = None"
    using d c by (auto simp: readSpecial_def sign w)
  have tw: "takeWhile is_digit (w @ CHR ''.'' # f) = w" "dropWhile is_digit (w @ CHR ''.'' # f) = CHR ''.'' # f"
    using assms(1) by (auto simp: list_all_iff takeWhile_append dropWhile_append is_digit_def digit_val_def)
  have tf: "takeWhile is_digit f = f" "dropWhile is_digit f = []"
    using assms(2) by (auto simp: list_all_iff takeWhile_eq_all_conv)
  show "readDecimal (w @ CHR ''.'' # f) = map_option (\<lambda>m. (False, m, - int (length f))) (parseNat (w @ f))"
    by (simp add: readDecimal_def sign readMantissa_def tw tf readExponent_def Let_def split: option.split)
qed

lemma parseDigits_bound: "parseDigits acc s = Some n \<Longrightarrow> n < (acc + 1) * 10 ^ length s"
proof (induction acc s arbitrary: n rule: parseDigits.induct)
  case (1 acc)
  then show ?case by simp
next
  case (2 acc c cs)
  then obtain d where d: "digit_val c = Some d" and n: "n < (10 * acc + d + 1) * 10 ^ length cs"
    by (auto split: option.splits)
  have "d < 10" using d by (auto simp: digit_val_def Let_def split: if_splits)
  then have "(10 * acc + d + 1) * 10 ^ length cs \<le> (10 * (acc + 1)) * 10 ^ length cs"
    by (intro mult_right_mono) simp_all
  also have "\<dots> = (acc + 1) * 10 ^ length (c # cs)" by (simp add: algebra_simps)
  finally show ?case using n by linarith
qed

lemma parseNat_bound: "parseNat s = Some n \<Longrightarrow> n < 10 ^ length s"
  using parseDigits_bound [of 0 s n] by (auto simp: parseNat_def split: if_splits)

lemma decimalValue_frac: "decimalValue m (- int k) = of_nat m / 10 ^ k"
  by (simp add: decimalValue_def power_int_minus divide_inverse)

lemma fraction_bound: "0 < a \<Longrightarrow> 0 < b \<Longrightarrow> b \<le> c * a \<Longrightarrow> inverse a \<le> c / (b :: rat)"
  by (simp add: field_simps)

lemma decimal_normal:
  assumes "0 < m" and "k \<le> 300"
  shows "2 powi (- 1022) \<le> decimalValue m (- int k)"
proof -
  have "(10::rat) ^ k \<le> 10 ^ 300" using assms(2) by (intro power_increasing) simp_all
  also have "(10::rat) ^ 300 \<le> 1 * 2 ^ 1022" by simp
  also have "\<dots> \<le> of_nat m * 2 ^ 1022" using assms(1) by (intro mult_right_mono) simp_all
  finally have "inverse (2 ^ 1022) \<le> of_nat m / (10::rat) ^ k" by (intro fraction_bound) simp_all
  then show ?thesis by (simp only: decimalValue_frac power_int_minus power_int_numeral)
qed

text \<open>A number written with a point is read, within half a unit in the last place.\<close>

lemma ParseFloat_point:
  assumes "list_all is_digit w" and "list_all is_digit f" and "w \<noteq> []"
    and "length w \<le> 300" and "length f \<le> 300" and m: "parseNat (w @ f) = Some m"
  shows "\<exists>v. ParseFloat library (w @ CHR ''.'' # f) = Some (Finite v) \<and>
    v = (if m = 0 then 0 else f64_round (of_nat m / 10 ^ length f)) \<and>
    \<bar>v - of_nat m / 10 ^ length f\<bar> \<le> of_nat m / 10 ^ length f / 2 ^ 53"
proof -
  let ?x = "decimalValue m (- int (length f))"
  have x: "?x = of_nat m / 10 ^ length f" by (rule decimalValue_frac)
  note syn = point_syntax [OF assms(1-3)]
  have parse: "ParseFloat library (w @ CHR ''.'' # f) = roundDecimal False ?x"
    by (simp add: ParseFloat_def syn m)
  show ?thesis
  proof (cases "m = 0")
    case True
    then have "?x = 0" by (simp add: decimalValue_def)
    then have "roundDecimal False ?x = Some (Finite 0)" by (simp add: roundDecimal_def Let_def)
    with True show ?thesis by (simp add: parse)
  next
    case False
    then have pos: "0 < ?x" by (simp add: x)
    have err: "\<bar>f64_round ?x - ?x\<bar> \<le> ?x / 2 ^ 53"
      using f64_round_relative normal_shift [OF decimal_normal [of m "length f"]] False assms(5) by simp
    have "of_nat m < (10::rat) ^ length (w @ f)"
      using parseNat_bound [OF m] by (metis of_nat_less_iff of_nat_numeral of_nat_power)
    then have "?x < 10 ^ length w" by (simp add: x pos_divide_less_eq power_add)
    also have "\<dots> \<le> 10 ^ 300" using assms(4) by (intro power_increasing) simp_all
    finally have "?x < 10 ^ 300" .
    moreover have "f64_round ?x \<le> 2 * ?x"
    proof -
      have "?x / 2 ^ 53 \<le> ?x" using pos by (simp add: pos_divide_le_eq)
      with err have "\<bar>f64_round ?x - ?x\<bar> \<le> ?x" by (rule order_trans)
      then show ?thesis by linarith
    qed
    ultimately have "f64_round ?x < 2 * 10 ^ 300" by linarith
    also have "\<dots> < 2 ^ 1024" by simp
    finally have "roundDecimal False ?x = Some (Finite (f64_round ?x))"
      using pos by (simp add: roundDecimal_def)
    with err False show ?thesis by (simp add: parse x)
  qed
qed

lemma ParseFloat_half: "ParseFloat library ''0.5'' = Some (Finite (1 / 2))"
proof -
  obtain v where v: "ParseFloat library ''0.5'' = Some (Finite v)" "v = f64_round (5 / 10)"
    using ParseFloat_point [of "''0''" "''5''" 5 library] by (auto simp: is_digit_def digit_val_def parseNat_def)
  have "f64_round (1 / 2) = f64_pos (1 / 2)"
  proof (rule f64_round_normal)
    have "(2::rat) powi (- 1022) \<le> 2 powi (- 1)" by (intro power_int_increasing) simp_all
    then show "2 powi (- 1022) \<le> (1 / 2 :: rat)" by (simp only: power_int_minus) simp
  qed
  also have "\<dots> = 1 / 2" using f64_pos_exact [of 1 "1 / 2" 1] by (simp add: power_int_minus)
  finally show ?thesis using v by simp
qed

end
