(* ===== verification/Config.thy ===== *)
theory Config
  imports ParseFloat
begin

text \<open>
  The configuration of the three Go programs: the file \<^verbatim>\<open>conf.properties\<close> is read line by line into
  environment variables at start-up, and every setting is read from its variable when it is needed
  (\<^verbatim>\<open>edge/utils/utils.go\<close>; the copies in the other two programs are in \<open>ConfigCopies\<close>). A missing or
  malformed setting ends the program.
\<close>

type_synonym config = "(string, string) gomap"

section \<open>Reading the file\<close>

text \<open>\<^verbatim>\<open>bufio.Scanner\<close>: the lines of a text, without the newline and one carriage return before it.\<close>

definition newline :: char where
  "newline = CHR 0x0A"

lemma length_rest_less:
  assumes "s \<noteq> []"
  shows "length (dropWhile P s) - Suc 0 < length s"
proof -
  have "length (dropWhile P s) \<le> length s" by (rule length_dropWhile_le)
  moreover have "0 < length s" using assms by simp
  ultimately show ?thesis by linarith
qed

function scanLines :: "string \<Rightarrow> string list" where
  "scanLines s =
     (if s = [] then []
      else takeWhile (\<lambda>c. c \<noteq> newline) s # scanLines (drop 1 (dropWhile (\<lambda>c. c \<noteq> newline) s)))"
  by pat_completeness auto

termination
  by (relation "measure length") (simp_all add: length_rest_less)

declare scanLines.simps [simp del]

definition dropCR :: "string \<Rightarrow> string" where
  "dropCR line = (if line \<noteq> [] \<and> last line = CHR 0x0D then butlast line else line)"

text \<open>The scanner gives up at a line that does not fit in its buffer.\<close>

definition MaxScanTokenSize :: nat where
  "MaxScanTokenSize = 65536"

definition configLine :: "config \<Rightarrow> string \<Rightarrow> config" where
  "configLine m line =
     (case SplitN2 CHR ''='' line of
        [k, v] \<Rightarrow> fmupd (TrimSpace k) (TrimSpace v) m
      | _ \<Rightarrow> m)"

text \<open>\<open>files\<close> gives the contents of the files that can be opened and read.\<close>

definition ReadConfigFile :: "(string \<Rightarrow> string option) \<Rightarrow> string \<Rightarrow> config option" where
  "ReadConfigFile files filename =
     (case files filename of
        None \<Rightarrow> None
      | Some content \<Rightarrow>
          if list_all (\<lambda>line. length line < MaxScanTokenSize) (scanLines content)
          then Some (foldl configLine fmempty (map dropCR (scanLines content)))
          else None)"

section \<open>The environment\<close>

text \<open>\<^verbatim>\<open>os.Setenv\<close> refuses an empty name, a name with an equals sign and NUL bytes.\<close>

definition Setenv :: "string \<Rightarrow> string \<Rightarrow> config \<Rightarrow> config option" where
  "Setenv key val env =
     (if key = [] \<or> CHR ''='' \<in> set key \<or> CHR 0x00 \<in> set key \<or> CHR 0x00 \<in> set val then None
      else Some (fmupd key val env))"

fun setenvLoop :: "config \<Rightarrow> string list \<Rightarrow> config \<Rightarrow> config outcome" where
  "setenvLoop configMap [] env = Done env"
| "setenvLoop configMap (key # ks) env =
     (case Setenv key (gomap_get [] configMap key) env of
        None \<Rightarrow> Panicked
      | Some env' \<Rightarrow> setenvLoop configMap ks env')"

definition SetupEnvVariables :: "(string \<Rightarrow> string option) \<Rightarrow> string list \<Rightarrow> string \<Rightarrow> config \<Rightarrow> config outcome" where
  "SetupEnvVariables files ks fileName env =
     (case ReadConfigFile files fileName of
        None \<Rightarrow> Panicked
      | Some configMap \<Rightarrow> setenvLoop configMap ks env)"

definition GetEnvironmentVariable :: "config \<Rightarrow> string \<Rightarrow> string outcome" where
  "GetEnvironmentVariable env variableName =
     (case fmlookup env variableName of None \<Rightarrow> Panicked | Some v \<Rightarrow> Done v)"

definition GetInt64EnvironmentVariable :: "config \<Rightarrow> string \<Rightarrow> int outcome" where
  "GetInt64EnvironmentVariable env variableName =
     and_then (GetEnvironmentVariable env variableName) (\<lambda>s. case ParseInt s of None \<Rightarrow> Panicked | Some n \<Rightarrow> Done n)"

definition GetIntEnvironmentVariable :: "config \<Rightarrow> string \<Rightarrow> int outcome" where
  "GetIntEnvironmentVariable env variableName =
     and_then (GetEnvironmentVariable env variableName) (\<lambda>s. case ParseInt s of None \<Rightarrow> Panicked | Some n \<Rightarrow> Done (wrap64 n))"

text \<open>\<^verbatim>\<open>ParseUint\<close> with a bit size is an error outside the range of the type.\<close>

definition parseUintBits :: "nat \<Rightarrow> string \<Rightarrow> int option" where
  "parseUintBits bits s = (case ParseUint s of None \<Rightarrow> None | Some n \<Rightarrow> if n < 2 ^ bits then Some n else None)"

definition GetUint8EnvironmentVariable :: "config \<Rightarrow> string \<Rightarrow> int outcome" where
  "GetUint8EnvironmentVariable env variableName =
     and_then (GetEnvironmentVariable env variableName) (\<lambda>s. case parseUintBits 8 s of None \<Rightarrow> Panicked | Some n \<Rightarrow> Done n)"

definition GetUintEnvironmentVariable :: "config \<Rightarrow> string \<Rightarrow> int outcome" where
  "GetUintEnvironmentVariable env variableName =
     and_then (GetEnvironmentVariable env variableName) (\<lambda>s. case parseUintBits 32 s of None \<Rightarrow> Panicked | Some n \<Rightarrow> Done n)"

text \<open>\<open>library\<close> answers for the syntax that \<open>ParseFloat\<close> leaves open.\<close>

definition GetFloatEnvironmentVariable :: "(string \<Rightarrow> float64 option) \<Rightarrow> config \<Rightarrow> string \<Rightarrow> float64 outcome" where
  "GetFloatEnvironmentVariable library env variableName =
     and_then (GetEnvironmentVariable env variableName)
       (\<lambda>s. case ParseFloat library s of None \<Rightarrow> Panicked | Some v \<Rightarrow> Done v)"

section \<open>Addresses and printed maps\<close>

record ipAddress =
  isIPNet :: bool
  isLoopback :: bool
  isIPv4 :: bool
  ipText :: string

definition GetMyIPAddr :: "ipAddress list option \<Rightarrow> string option" where
  "GetMyIPAddr interfaceAddrs =
     (case interfaceAddrs of
        None \<Rightarrow> None
      | Some addresses \<Rightarrow> map_option ipText (find (\<lambda>a. isIPNet a \<and> \<not> isLoopback a \<and> isIPv4 a) addresses))"

definition stringInSlice :: "string \<Rightarrow> string list \<Rightarrow> bool" where
  "stringInSlice str slice = list_ex (\<lambda>s. s = str) slice"

definition crlf :: string where
  "crlf = [CHR 0x0D, CHR 0x0A]"

text \<open>The text \<^verbatim>\<open>PrintCustomMap\<close> builds, in the order \<open>ks\<close> of the keys.\<close>

fun customMapLoop :: "bool \<Rightarrow> nat \<Rightarrow> (string, int) gomap \<Rightarrow> string list \<Rightarrow> nat \<Rightarrow> string \<Rightarrow> string" where
  "customMapLoop hasValue howMany m [] currentItemsNum listString = listString"
| "customMapLoop hasValue howMany m (item # ks) currentItemsNum listString =
     (let listString1 = listString @ ''[*] '' @ item @ (if hasValue then '' : '' @ FormatInt (gomap_get 0 m item) else []);
          num = currentItemsNum + 1
      in customMapLoop hasValue howMany m ks num (if num < howMany then listString1 @ crlf else listString1))"

definition customMapText :: "(string, int) gomap \<Rightarrow> string list \<Rightarrow> string \<Rightarrow> string \<Rightarrow> bool \<Rightarrow> string" where
  "customMapText m ks ifEmpty ifNotEmpty hasValue =
     (if fcard (fmdom m) = 0 then ifEmpty
      else customMapLoop hasValue (fcard (fmdom m)) m ks 0 (ifNotEmpty @ '':'' @ crlf))"

section \<open>Lines of a file\<close>

definition settingLine :: "string \<times> string \<Rightarrow> string" where
  "settingLine kv = fst kv @ CHR ''='' # snd kv @ [newline]"

definition goodSetting :: "string \<times> string \<Rightarrow> bool" where
  "goodSetting kv \<longleftrightarrow> fst kv \<noteq> [] \<and> CHR ''='' \<notin> set (fst kv) \<and> newline \<notin> set (fst kv @ snd kv) \<and>
     CHR 0x00 \<notin> set (fst kv @ snd kv) \<and> TrimSpace (fst kv) = fst kv \<and> TrimSpace (snd kv) = snd kv \<and>
     length (fst kv) + length (snd kv) + 1 < MaxScanTokenSize"

lemma scanLines_line: "newline \<notin> set line \<Longrightarrow> scanLines (line @ newline # s) = line # scanLines s"
  by (subst scanLines.simps) (simp add: takeWhile_append dropWhile_append)

lemma scanLines_Nil [simp]: "scanLines [] = []"
  by (simp add: scanLines.simps)

lemma scanLines_settings:
  "list_all goodSetting kvs \<Longrightarrow> scanLines (concat (map settingLine kvs)) = map (\<lambda>kv. fst kv @ CHR ''='' # snd kv) kvs"
proof (induction kvs)
  case Nil
  then show ?case by simp
next
  case (Cons kv kvs)
  then have "newline \<notin> set (fst kv @ CHR ''='' # snd kv)" by (auto simp: goodSetting_def newline_def)
  from scanLines_line [OF this, of "concat (map settingLine kvs)"]
  have "scanLines (settingLine kv @ concat (map settingLine kvs)) =
      (fst kv @ CHR ''='' # snd kv) # scanLines (concat (map settingLine kvs))" by (simp only: settingLine_def append.simps append_assoc)
  with Cons show ?case by simp
qed

lemma last_not_space:
  assumes "TrimSpace s = s" and "s \<noteq> []"
  shows "\<not> is_space (last s)"
proof -
  have "rev s = dropWhile is_space (rev (dropWhile is_space s))"
    by (subst assms(1) [symmetric]) (simp add: TrimSpace_def)
  moreover from this have "\<not> is_space (hd (rev s))" using assms(2) hd_dropWhile
    by (metis rev_is_Nil_conv)
  ultimately show ?thesis by (metis hd_rev)
qed

lemma dropCR_setting: "goodSetting kv \<Longrightarrow> dropCR (fst kv @ CHR ''='' # snd kv) = fst kv @ CHR ''='' # snd kv"
  using last_not_space [of "snd kv"] by (auto simp: dropCR_def goodSetting_def is_space_def)

lemma configLine_setting: "goodSetting kv \<Longrightarrow> configLine m (fst kv @ CHR ''='' # snd kv) = fmupd (fst kv) (snd kv) m"
  by (simp add: configLine_def goodSetting_def SplitN2_sep)

lemma foldl_settings:
  "list_all goodSetting kvs \<Longrightarrow> foldl configLine m (map dropCR (map (\<lambda>kv. fst kv @ CHR ''='' # snd kv) kvs)) =
     foldl (\<lambda>m kv. fmupd (fst kv) (snd kv) m) m kvs"
  by (induction kvs arbitrary: m) (simp_all add: dropCR_setting configLine_setting)

lemma foldl_upd_lookup:
  "distinct (map fst kvs) \<Longrightarrow> fmlookup (foldl (\<lambda>m kv. fmupd (fst kv) (snd kv) m) m kvs) k =
     (case map_of kvs k of Some v \<Rightarrow> Some v | None \<Rightarrow> fmlookup m k)"
proof (induction kvs arbitrary: m)
  case Nil
  then show ?case by simp
next
  case (Cons kv kvs)
  have "map_of kvs (fst kv) = None" using Cons.prems by (simp add: map_of_eq_None_iff)
  with Cons show ?case by (cases kv) (auto split: option.split)
qed

lemma ReadConfigFile_settings:
  assumes "list_all goodSetting kvs" and "distinct (map fst kvs)"
    and "files name = Some (concat (map settingLine kvs))"
  shows "\<exists>m. ReadConfigFile files name = Some m \<and> (\<forall>k. fmlookup m k = map_of kvs k)"
proof -
  have "list_all (\<lambda>line. length line < MaxScanTokenSize) (scanLines (concat (map settingLine kvs)))"
    using assms(1) by (simp add: scanLines_settings [OF assms(1)] list_all_iff goodSetting_def)
  then have "ReadConfigFile files name = Some (foldl (\<lambda>m kv. fmupd (fst kv) (snd kv) m) fmempty kvs)"
    by (simp add: ReadConfigFile_def assms(3) scanLines_settings [OF assms(1)] foldl_settings [OF assms(1), simplified])
  with foldl_upd_lookup [OF assms(2), of fmempty] show ?thesis by (auto split: option.split)
qed

lemma setenvLoop_result:
  assumes "\<forall>k\<in>set ks. goodSetting (k, gomap_get [] m k)"
  shows "\<exists>env'. setenvLoop m ks env = Done env' \<and>
    (\<forall>k. fmlookup env' k = (if k \<in> set ks then Some (gomap_get [] m k) else fmlookup env k))"
  using assms
proof (induction ks arbitrary: env)
  case Nil
  then show ?case by simp
next
  case (Cons k ks)
  have "Setenv k (gomap_get [] m k) env = Some (fmupd k (gomap_get [] m k) env)"
    using Cons.prems by (auto simp: Setenv_def goodSetting_def)
  moreover obtain env' where "setenvLoop m ks (fmupd k (gomap_get [] m k) env) = Done env'"
    "\<forall>k'. fmlookup env' k' = (if k' \<in> set ks then Some (gomap_get [] m k') else fmlookup (fmupd k (gomap_get [] m k) env) k')"
    using Cons.IH [of "fmupd k (gomap_get [] m k) env"] Cons.prems by auto
  ultimately show ?case by auto
qed

section \<open>Properties\<close>

text \<open>C33: settings survive the round trip through the file and the environment: after start-up every setting
  written in the file, one per line, is what its variable holds, and a number is read back as that
  number.\<close>

theorem settings_roundtrip:
  assumes "list_all goodSetting kvs" and "distinct (map fst kvs)"
    and "files name = Some (concat (map settingLine kvs))" and "set ks = fst ` set kvs"
  shows "\<exists>env'. SetupEnvVariables files ks name env = Done env' \<and>
    list_all (\<lambda>(k, v). GetEnvironmentVariable env' k = Done v) kvs \<and>
    (\<forall>k n. (k, FormatInt n) \<in> set kvs \<and> in_int64 n \<longrightarrow> GetInt64EnvironmentVariable env' k = Done n)"
proof -
  obtain m where m: "ReadConfigFile files name = Some m" "\<And>k. fmlookup m k = map_of kvs k"
    using ReadConfigFile_settings [of kvs files name] assms by blast
  note ks = assms(4)
  have get: "gomap_get [] m k = v" if "(k, v) \<in> set kvs" for k v
    using that assms(2) m(2) by (simp add: gomap_get_def)
  have "\<forall>k\<in>set ks. goodSetting (k, gomap_get [] m k)"
    using assms(1) get by (auto simp: ks list_all_iff)
  from setenvLoop_result [OF this, of env] obtain env' where
    env': "setenvLoop m ks env = Done env'"
      "\<And>k. fmlookup env' k = (if k \<in> set ks then Some (gomap_get [] m k) else fmlookup env k)" by blast
  have val: "GetEnvironmentVariable env' k = Done v" if "(k, v) \<in> set kvs" for k v
    using that get [OF that] env'(2) [of k] by (force simp: GetEnvironmentVariable_def ks)
  then have "GetInt64EnvironmentVariable env' k = Done n" if "(k, FormatInt n) \<in> set kvs" "in_int64 n" for k n
    using val [OF that(1)] ParseInt_FormatInt [OF that(2)] by (simp add: GetInt64EnvironmentVariable_def)
  with val env'(1) m(1) show ?thesis
    by (intro exI [of _ env']) (auto simp: SetupEnvVariables_def list_all_iff)
qed

theorem settings_roundtrip_witness:
  "\<exists>env'. SetupEnvVariables (\<lambda>_. Some (concat (map settingLine [(''TTL'', FormatInt 60), (''ADDR'', ''r:1'')]))) [''ADDR'', ''TTL'']
     ''conf.properties'' fmempty = Done env' \<and> GetInt64EnvironmentVariable env' ''TTL'' = Done 60"
proof -
  have "list_all goodSetting [(''TTL'', FormatInt 60), (''ADDR'', ''r:1'')]"
    by (simp add: goodSetting_def TrimSpace_def is_space_def newline_def MaxScanTokenSize_def FormatInt_def digits.simps digit_char_def)
       (simp add: char_of_def)
  from settings_roundtrip [OF this, of "\<lambda>_. Some (concat (map settingLine [(''TTL'', FormatInt 60), (''ADDR'', ''r:1'')]))"
      "''conf.properties''" "[''ADDR'', ''TTL'']" fmempty] show ?thesis by (fastforce simp: insert_commute)
qed

text \<open>A line that starts with an equals sign ends the program at start-up: it sets the variable with
  the empty name.\<close>

theorem nameless_setting_panics:
  assumes "ReadConfigFile files name = Some m" and "fmlookup m [] = Some v" and "enumerates ks m"
  shows "SetupEnvVariables files ks name env = Panicked"
proof -
  have "[] \<in> set ks" using assms(2,3) by (intro enumerates_mem)
  then have "setenvLoop m ks env = Panicked"
    by (induction ks arbitrary: env) (auto simp: Setenv_def split: option.split)
  with assms(1) show ?thesis by (simp add: SetupEnvVariables_def)
qed

theorem nameless_setting_panics_witness:
  "SetupEnvVariables (\<lambda>_. Some ''=x'') [[]] ''conf.properties'' fmempty = Panicked"
proof -
  have "ReadConfigFile (\<lambda>_. Some ''=x'') ''conf.properties'' = Some (fmupd [] ''x'' fmempty)"
    by (simp add: ReadConfigFile_def scanLines.simps newline_def MaxScanTokenSize_def dropCR_def configLine_def TrimSpace_def is_space_def)
  from nameless_setting_panics [OF this] show ?thesis by (simp add: enumerates_def)
qed

text \<open>The small unsigned settings are in the range of their types, or the program ends.\<close>

theorem uint_settings_in_range:
  "(GetUint8EnvironmentVariable env k = Done n \<longrightarrow> 0 \<le> n \<and> n < 2 ^ 8) \<and>
   (GetUintEnvironmentVariable env k = Done n \<longrightarrow> 0 \<le> n \<and> n < 2 ^ 32) \<and> GetUint8EnvironmentVariable env k \<noteq> Blocked"
  using ParseUint_range
  by (auto simp: GetUint8EnvironmentVariable_def GetUintEnvironmentVariable_def GetEnvironmentVariable_def parseUintBits_def
      and_then_Done_iff and_then_Blocked_iff split: option.splits if_splits)

end
