(* ===== verification/Json.thy ===== *)
theory Json
  imports Strconv
begin

text \<open>
  Strings in JSON, as \<^verbatim>\<open>encoding/json\<close> writes them for the errors of \<^verbatim>\<open>edge/server/custom_errors.go\<close> and
  the answers of \<^verbatim>\<open>edge/peer/lookup_server.go\<close>, and a reader for what is written.
\<close>

section \<open>Writing\<close>

definition hexDigit :: "nat \<Rightarrow> char" where
  "hexDigit n = (if n < 10 then char_of (48 + n) else char_of (87 + n))"

text \<open>How \<^verbatim>\<open>json.Marshal\<close> writes a character of a string.\<close>

definition jsonChar :: "char \<Rightarrow> string" where
  "jsonChar c =
     (if c = CHR 0x22 \<or> c = CHR 0x5C then [CHR 0x5C, c]
      else if c = CHR 0x0A then [CHR 0x5C, CHR ''n'']
      else if c = CHR 0x0D then [CHR 0x5C, CHR ''r'']
      else if c = CHR 0x09 then [CHR 0x5C, CHR ''t'']
      else if of_char c < (32 :: nat) \<or> c \<in> {CHR ''<'', CHR ''>'', CHR ''&''}
      then [CHR 0x5C, CHR ''u'', CHR ''0'', CHR ''0'', hexDigit (of_char c div 16), hexDigit (of_char c mod 16)]
      else [c])"

definition jsonString :: "string \<Rightarrow> string" where
  "jsonString s = [CHR 0x22] @ concat (map jsonChar s) @ [CHR 0x22]"

section \<open>Reading\<close>

definition hexVal :: "char \<Rightarrow> nat" where
  "hexVal c = (let n = of_char c in if n < 58 then n - 48 else n - 87)"

text \<open>The rest of a string after its opening quote: the characters, and what follows the closing quote.\<close>

fun jsonUnescape :: "string \<Rightarrow> (string \<times> string) option" where
  "jsonUnescape [] = None"
| "jsonUnescape (c # cs) =
     (if c = CHR 0x22 then Some ([], cs)
      else if c = CHR 0x5C
      then (case cs of
          d # ds \<Rightarrow>
            (if d = CHR ''u''
             then (case ds of
                 a # b # h # l # rest \<Rightarrow>
                   map_option (\<lambda>(s, r). (char_of (hexVal h * 16 + hexVal l) # s, r)) (jsonUnescape rest)
               | _ \<Rightarrow> None)
             else map_option (\<lambda>(s, r). ((if d = CHR ''n'' then CHR 0x0A else if d = CHR ''r'' then CHR 0x0D
                 else if d = CHR ''t'' then CHR 0x09 else d) # s, r)) (jsonUnescape ds))
        | [] \<Rightarrow> None)
      else map_option (\<lambda>(s, r). (c # s, r)) (jsonUnescape cs))"

fun stripPrefix :: "string \<Rightarrow> string \<Rightarrow> string option" where
  "stripPrefix [] s = Some s"
| "stripPrefix (p # ps) [] = None"
| "stripPrefix (p # ps) (c # cs) = (if p = c then stripPrefix ps cs else None)"

lemma hexVal_hexDigit: "n < 16 \<Longrightarrow> hexVal (hexDigit n) = n"
  by (simp add: hexVal_def hexDigit_def Let_def)

lemma stripPrefix_append [simp]: "stripPrefix p (p @ s) = Some s"
  by (induction p) simp_all

lemma hex_char: "char_of (hexVal (hexDigit (of_char c div 16)) * 16 + hexVal (hexDigit (of_char c mod 16))) = (c :: char)"
proof -
  have "of_char c div 16 < (16 :: nat)" using nat_of_char_less_256 [of c] by (simp add: less_mult_imp_div_less)
  then show ?thesis by (simp add: hexVal_hexDigit)
qed

lemma jsonUnescape_char:
  "jsonUnescape (jsonChar c @ s) = map_option (\<lambda>(cs, r). (c # cs, r)) (jsonUnescape s)"
  by (auto simp: jsonChar_def hex_char)

lemma jsonUnescape_string:
  "jsonUnescape (concat (map jsonChar s) @ CHR 0x22 # rest) = Some (s, rest)"
  by (induction s) (simp_all add: jsonUnescape_char)

end
