(* ===== verification/ConfigCopies.thy ===== *)
theory ConfigCopies
  imports Config Json
begin

text \<open>
  The copies of the configuration code in the load balancer (\<^verbatim>\<open>load_balancer/utils/balancing_utils.go\<close>,
  \<^verbatim>\<open>custom_errors.go\<close>) and in the registry (\<^verbatim>\<open>registry/utils/registry_utils.go\<close>), with the scanner that reads
  the file token by token. The reader built on whole lines in \<open>Config\<close> is their reference. The random
  identifiers of the load balancer and of the edge are here too.
\<close>

section \<open>The scanner\<close>

text \<open>One call of \<^verbatim>\<open>Scan\<close>: the next line and the rest of the text, or the error of a line too long.\<close>

datatype scan = ScanEnd | ScanTooLong | ScanToken string string

definition Scan :: "string \<Rightarrow> scan" where
  "Scan s =
     (if s = [] then ScanEnd
      else let line = takeWhile (\<lambda>c. c \<noteq> newline) s; rest = drop 1 (dropWhile (\<lambda>c. c \<noteq> newline) s) in
        if length line < MaxScanTokenSize then ScanToken (dropCR line) rest else ScanTooLong)"

lemma Scan_shrinks: "Scan s = ScanToken line rest \<Longrightarrow> length rest < length s"
  by (auto simp: Scan_def Let_def length_rest_less split: if_splits)

function scanLoop :: "string \<Rightarrow> config \<Rightarrow> config option" where
  "scanLoop s config =
     (case Scan s of
        ScanEnd \<Rightarrow> Some config
      | ScanTooLong \<Rightarrow> None
      | ScanToken line rest \<Rightarrow>
          (case SplitN2 CHR ''='' line of
             [k, v] \<Rightarrow> scanLoop rest (fmupd (TrimSpace k) (TrimSpace v) config)
           | _ \<Rightarrow> scanLoop rest config))"
  by pat_completeness auto

termination
  by (relation "measure (length \<circ> fst)") (simp_all add: Scan_shrinks)

declare scanLoop.simps [simp del]

section \<open>The load balancer\<close>

definition balancerReadConfigFile :: "(string \<Rightarrow> string option) \<Rightarrow> string \<Rightarrow> config option" where
  "balancerReadConfigFile files filename =
     (case files filename of None \<Rightarrow> None | Some content \<Rightarrow> scanLoop content fmempty)"

definition balancerSetupEnvVariables :: "(string \<Rightarrow> string option) \<Rightarrow> string list \<Rightarrow> string \<Rightarrow> config \<Rightarrow> config outcome" where
  "balancerSetupEnvVariables files ks fileName env =
     (case balancerReadConfigFile files ''conf.properties'' of
        None \<Rightarrow> Panicked
      | Some configMap \<Rightarrow> setenvLoop configMap ks env)"

definition balancerGetEnvironmentVariable :: "config \<Rightarrow> string \<Rightarrow> string outcome" where
  "balancerGetEnvironmentVariable env variableName =
     (case fmlookup env variableName of Some variableString \<Rightarrow> Done variableString | None \<Rightarrow> Panicked)"

definition balancerGetIntEnvironmentVariable :: "config \<Rightarrow> string \<Rightarrow> int outcome" where
  "balancerGetIntEnvironmentVariable env variableName =
     and_then (balancerGetEnvironmentVariable env variableName)
       (\<lambda>variableString. case ParseInt variableString of None \<Rightarrow> Panicked | Some n \<Rightarrow> Done (wrap64 n))"

definition balancerGetFloatEnvironmentVariable :: "(string \<Rightarrow> float64 option) \<Rightarrow> config \<Rightarrow> string \<Rightarrow> float64 outcome" where
  "balancerGetFloatEnvironmentVariable library env variableName =
     and_then (balancerGetEnvironmentVariable env variableName)
       (\<lambda>s. case ParseFloat library s of None \<Rightarrow> Panicked | Some v \<Rightarrow> Done v)"

fun balancerGetMyIPAddr :: "ipAddress list option \<Rightarrow> string option" where
  "balancerGetMyIPAddr None = None"
| "balancerGetMyIPAddr (Some []) = None"
| "balancerGetMyIPAddr (Some (ipNet # addresses)) =
     (if isIPNet ipNet \<and> \<not> isLoopback ipNet \<and> isIPv4 ipNet then Some (ipText ipNet)
      else balancerGetMyIPAddr (Some addresses))"

text \<open>\<^verbatim>\<open>rand.Int\<close> draws a number in \<open>[0, max)\<close> from the random source, or fails.\<close>

definition balancerGenerateUniqueRandomID :: "(int \<Rightarrow> int option) \<Rightarrow> int" where
  "balancerGenerateUniqueRandomID randInt =
     (case randInt MaxInt64 of None \<Rightarrow> 0 | Some randomInt \<Rightarrow> wrap64 randomInt)"

definition uniformBelow :: "(int \<Rightarrow> int option) \<Rightarrow> bool" where
  "uniformBelow randInt \<longleftrightarrow> (\<forall>m r. randInt m = Some r \<longrightarrow> 0 \<le> r \<and> r < m)"

definition balancerBuildJsonMessage :: "int \<Rightarrow> string \<Rightarrow> string" where
  "balancerBuildJsonMessage errorCode msg =
     ''{'' @ jsonString ''ErrorCode'' @ '':'' @ FormatInt errorCode @ '','' @
     jsonString ''ErrorMessage'' @ '':'' @ jsonString msg @ ''}''"

definition balancerNewCustomError :: "int \<Rightarrow> string \<Rightarrow> string" where
  "balancerNewCustomError errorCode msg = balancerBuildJsonMessage errorCode msg"

text \<open>The text of a printed map, built item by item: the text so far and the number of items in it.\<close>

definition balancerPrintItem :: "bool \<Rightarrow> nat \<Rightarrow> (string, int) gomap \<Rightarrow> string \<Rightarrow> string \<times> nat \<Rightarrow> string \<times> nat" where
  "balancerPrintItem hasValue howMany customMap item acc =
     (let listString = (if hasValue then fst acc @ ''[*] '' @ item @ '' : '' @ FormatInt (gomap_get 0 customMap item)
            else fst acc @ ''[*] '' @ item);
          currentItemsNum = snd acc + 1
      in (if currentItemsNum < howMany then listString @ crlf else listString, currentItemsNum))"

definition balancerCustomMapText :: "(string, int) gomap \<Rightarrow> string list \<Rightarrow> string \<Rightarrow> string \<Rightarrow> bool \<Rightarrow> string" where
  "balancerCustomMapText customMap ks ifEmpty ifNotEmpty hasValue =
     (let howMany = fcard (fmdom customMap) in
      if howMany = 0 then ifEmpty
      else fst (fold (balancerPrintItem hasValue howMany customMap) ks (ifNotEmpty @ '':'' @ crlf, 0)))"

section \<open>The registry\<close>

definition registryReadConfigFile :: "(string \<Rightarrow> string option) \<Rightarrow> string \<Rightarrow> config option" where
  "registryReadConfigFile files filename =
     (case files filename of None \<Rightarrow> None | Some content \<Rightarrow> scanLoop content fmempty)"

definition registrySetupEnvVariables :: "(string \<Rightarrow> string option) \<Rightarrow> string list \<Rightarrow> string \<Rightarrow> config \<Rightarrow> config outcome" where
  "registrySetupEnvVariables files ks fileName env =
     (case registryReadConfigFile files ''conf.properties'' of
        None \<Rightarrow> Panicked
      | Some configMap \<Rightarrow> setenvLoop configMap ks env)"

definition registryGetEnvironmentVariable :: "config \<Rightarrow> string \<Rightarrow> string outcome" where
  "registryGetEnvironmentVariable env variableName =
     (case fmlookup env variableName of Some variableString \<Rightarrow> Done variableString | None \<Rightarrow> Panicked)"

definition registryGetIntEnvironmentVariable :: "config \<Rightarrow> string \<Rightarrow> int outcome" where
  "registryGetIntEnvironmentVariable env variableName =
     and_then (registryGetEnvironmentVariable env variableName)
       (\<lambda>variableString. case ParseInt variableString of None \<Rightarrow> Panicked | Some n \<Rightarrow> Done (wrap64 n))"

section \<open>The copies agree with the reference\<close>

lemma configLine_cases:
  "(case SplitN2 CHR ''='' line of [k, v] \<Rightarrow> f (fmupd (TrimSpace k) (TrimSpace v) m) | _ \<Rightarrow> f m) =
     f (configLine m line)"
  by (auto simp: configLine_def split: list.split)

lemma scanLoop_lines:
  "scanLoop s m = (if list_all (\<lambda>line. length line < MaxScanTokenSize) (scanLines s)
     then Some (foldl configLine m (map dropCR (scanLines s))) else None)"
proof (induction s arbitrary: m rule: scanLines.induct)
  case (1 s)
  show ?case
  proof (cases "s = []")
    case True
    then show ?thesis by (simp add: scanLoop.simps Scan_def)
  next
    case False
    let ?line = "takeWhile (\<lambda>c. c \<noteq> newline) s"
    let ?rest = "drop 1 (dropWhile (\<lambda>c. c \<noteq> newline) s)"
    have lines: "scanLines s = ?line # scanLines ?rest" using False by (simp add: scanLines.simps [of s])
    have step: "scanLoop s m = (if length ?line < MaxScanTokenSize
        then scanLoop ?rest (configLine m (dropCR ?line)) else None)"
      using False by (subst scanLoop.simps) (simp add: Scan_def Let_def configLine_cases [where f = "scanLoop _"])
    show ?thesis
      unfolding step lines using 1 [OF False, of "configLine m (dropCR ?line)"] by simp
  qed
qed

lemma copies_read:
  "balancerReadConfigFile = ReadConfigFile" "registryReadConfigFile = ReadConfigFile"
  by (auto simp: balancerReadConfigFile_def registryReadConfigFile_def ReadConfigFile_def scanLoop_lines
      fun_eq_iff split: option.split)

lemma copies_address: "balancerGetMyIPAddr = GetMyIPAddr"
proof
  fix a
  show "balancerGetMyIPAddr a = GetMyIPAddr a"
    by (induction a rule: balancerGetMyIPAddr.induct) (simp_all add: GetMyIPAddr_def)
qed

lemma copies_get:
  "balancerGetEnvironmentVariable = GetEnvironmentVariable" "registryGetEnvironmentVariable = GetEnvironmentVariable"
  "balancerGetIntEnvironmentVariable = GetIntEnvironmentVariable" "registryGetIntEnvironmentVariable = GetIntEnvironmentVariable"
  "balancerGetFloatEnvironmentVariable = GetFloatEnvironmentVariable"
  by (auto simp: fun_eq_iff balancerGetEnvironmentVariable_def registryGetEnvironmentVariable_def GetEnvironmentVariable_def
      balancerGetIntEnvironmentVariable_def registryGetIntEnvironmentVariable_def GetIntEnvironmentVariable_def
      balancerGetFloatEnvironmentVariable_def GetFloatEnvironmentVariable_def split: option.split)

lemma balancerID_range:
  assumes "uniformBelow randInt"
  shows "0 \<le> balancerGenerateUniqueRandomID randInt \<and> balancerGenerateUniqueRandomID randInt < MaxInt64"
proof (cases "randInt MaxInt64")
  case (Some r)
  with assms have "0 \<le> r \<and> r < MaxInt64" by (simp add: uniformBelow_def)
  with Some show ?thesis by (simp add: balancerGenerateUniqueRandomID_def wrap64_id)
qed (simp add: balancerGenerateUniqueRandomID_def)

lemma copies_setup:
  "balancerSetupEnvVariables files ks name env = SetupEnvVariables files ks ''conf.properties'' env"
  "registrySetupEnvVariables files ks name env = SetupEnvVariables files ks ''conf.properties'' env"
  by (simp_all add: balancerSetupEnvVariables_def registrySetupEnvVariables_def SetupEnvVariables_def copies_read)

lemma copies_map_text: "balancerCustomMapText = customMapText"
proof -
  have "fst (fold (balancerPrintItem hasValue howMany m) ks (t, k)) = customMapLoop hasValue howMany m ks k t" for hasValue howMany m ks t k
    by (induction hasValue howMany m ks k t rule: customMapLoop.induct) (simp_all add: balancerPrintItem_def Let_def)
  then show ?thesis by (simp add: fun_eq_iff balancerCustomMapText_def customMapText_def Let_def)
qed

section \<open>Ports and identifiers of the edge\<close>

definition isPortAvailable :: "(string \<Rightarrow> string + string) \<Rightarrow> int \<Rightarrow> bool" where
  "isPortAvailable listen port = (case listen (CHR '':'' # FormatInt port) of Inl err \<Rightarrow> False | Inr lis \<Rightarrow> True)"

text \<open>\<^verbatim>\<open>base64.URLEncoding\<close>: groups of three bytes become four characters, the last group is padded.\<close>

definition urlAlphabet :: string where
  "urlAlphabet = ''ABCDEFGHIJKLMNOPQRSTUVWXYZabcdefghijklmnopqrstuvwxyz0123456789-_''"

definition urlChar :: "nat \<Rightarrow> char" where
  "urlChar n = urlAlphabet ! (n mod 64)"

fun EncodeToString :: "nat list \<Rightarrow> string" where
  "EncodeToString (a # b # c # rest) =
     (let v = (a * 256 + b) * 256 + c in
      [urlChar (v div 262144), urlChar (v div 4096), urlChar (v div 64), urlChar v] @ EncodeToString rest)"
| "EncodeToString [a, b] =
     (let v = (a * 256 + b) * 256 in [urlChar (v div 262144), urlChar (v div 4096), urlChar (v div 64), CHR ''=''])"
| "EncodeToString [a] =
     (let v = a * 65536 in [urlChar (v div 262144), urlChar (v div 4096), CHR ''='', CHR ''=''])"
| "EncodeToString [] = []"

text \<open>\<open>reads\<close>: what the random source fills the 16 bytes with, in each round of the loop, or its error. The
  outer \<^term>\<open>Done None\<close> is the error returned.\<close>

fun GenerateUniqueRandomID :: "nat list option list \<Rightarrow> string list \<Rightarrow> string option outcome" where
  "GenerateUniqueRandomID [] existingIDs = Blocked"
| "GenerateUniqueRandomID (None # reads) existingIDs = Done None"
| "GenerateUniqueRandomID (Some randomBytes # reads) existingIDs =
     (let randomID = take 16 (EncodeToString randomBytes) in
      if \<not> stringInSlice randomID existingIDs then Done (Some randomID)
      else GenerateUniqueRandomID reads existingIDs)"

lemma length_Encode: "length (EncodeToString bs) = 4 * ((length bs + 2) div 3)"
proof (induction bs rule: EncodeToString.induct)
  case (1 a b c rest)
  have "(5 + n) div 3 = Suc (Suc (Suc n) div 3)" for n :: nat by presburger
  with 1 show ?case by (simp add: Let_def)
qed (simp_all add: Let_def)

text \<open>The loop returns an identifier of 16 characters that is not in use, or the error of the random
  source; it goes on as long as every identifier it draws is in use.\<close>

lemma GenerateUniqueRandomID_fresh:
  assumes "\<forall>bs. Some bs \<in> set reads \<longrightarrow> length bs = 16"
  shows "(case GenerateUniqueRandomID reads ids of
      Done (Some i) \<Rightarrow> i \<notin> set ids \<and> length i = 16
    | Done None \<Rightarrow> None \<in> set reads
    | Blocked \<Rightarrow> \<forall>bs\<in>set reads. \<exists>b. bs = Some b \<and> take 16 (EncodeToString b) \<in> set ids
    | Panicked \<Rightarrow> False)"
  using assms
proof (induction reads ids rule: GenerateUniqueRandomID.induct)
  case (3 randomBytes reads ids)
  then have "length (take 16 (EncodeToString randomBytes)) = 16" by (simp add: length_Encode)
  with 3 show ?case
    by (auto simp: Let_def stringInSlice_def list_ex_iff split: outcome.splits option.splits)
qed simp_all

section \<open>Properties\<close>

text \<open>C34: the copies are equivalent to the reference: whatever name they are given, the load balancer and the
  registry set the same variables from \<^verbatim>\<open>conf.properties\<close>, read token by token, as the edge's code does
  from whole lines, and fail in the same cases; their settings, their address and their printed maps are
  those of the edge's code.\<close>

theorem setups_agree:
  "balancerSetupEnvVariables files ks name env = SetupEnvVariables files ks ''conf.properties'' env \<and>
   registrySetupEnvVariables files ks name' env = SetupEnvVariables files ks ''conf.properties'' env \<and>
   balancerGetIntEnvironmentVariable env k = GetIntEnvironmentVariable env k \<and>
   registryGetIntEnvironmentVariable env k = GetIntEnvironmentVariable env k \<and>
   balancerGetFloatEnvironmentVariable library env k = GetFloatEnvironmentVariable library env k \<and>
   balancerGetMyIPAddr interfaces = GetMyIPAddr interfaces \<and>
   balancerCustomMapText m items ifEmpty ifNotEmpty hasValue = customMapText m items ifEmpty ifNotEmpty hasValue"
  by (simp add: copies_setup copies_get copies_address copies_map_text)

text \<open>C35: a fraction among the settings, written with a point, is read with a relative error of at most
  \<open>2\<^sup>-\<^sup>5\<^sup>3\<close>; a text that is no number ends the program.\<close>

theorem float_settings_accurate:
  assumes "fmlookup env k = Some (w @ CHR ''.'' # f)"
    and "list_all is_digit w" and "list_all is_digit f" and "w \<noteq> []" and "length w \<le> 300" and "length f \<le> 300"
    and "parseNat (w @ f) = Some m"
  shows "\<exists>v. GetFloatEnvironmentVariable library env k = Done (Finite v) \<and>
      balancerGetFloatEnvironmentVariable library env k = Done (Finite v) \<and>
      \<bar>v - of_nat m / 10 ^ length f\<bar> \<le> of_nat m / 10 ^ length f / 2 ^ 53"
  using ParseFloat_point [OF assms(2-7), of library] assms(1)
  by (auto simp: copies_get GetFloatEnvironmentVariable_def GetEnvironmentVariable_def)

theorem float_settings_accurate_witness:
  "\<exists>v. GetFloatEnvironmentVariable (\<lambda>_. None) (fmupd ''RAND_THR'' ''0.6'' fmempty) ''RAND_THR'' = Done (Finite v) \<and>
     \<bar>v - 6 / 10\<bar> \<le> 6 / 10 / 2 ^ 53"
  using float_settings_accurate [of "fmupd ''RAND_THR'' ''0.6'' fmempty" "''RAND_THR''" "''0''" "''6''" 6 "\<lambda>_. None"]
  by (auto simp: is_digit_def digit_val_def parseNat_def)

end
