(* ===== verification/Startup.thy ===== *)
theory Startup
  imports ConfigCopies
begin

text \<open>
  How the programs start. A program that starts runs through a list of events, the lines its failures log
  and the goroutines it launches, until it waits for work or stops: with \<^verbatim>\<open>ExitOnError\<close>, with a
  setting that is missing or malformed, with a nil pointer, or by waiting for ever. The answers of the
  operating system (listeners, interfaces) are arguments: an error text or a result.
\<close>

named_theorems startup \<open>evaluation of the start of a program\<close>

section \<open>Runs\<close>

datatype goroutine =
    ServePeers string | ServeFiles string | HeartbeatToRegistry | PingsToAdjacents | NotifyFilters
  | CleanCache | ServeClients string | HeartbeatToBalancer
  | ServeRPC string | ServeGRPC string | CheckHeartbeat | MonitorNetwork

datatype startEvent = LogLine string | Go goroutine

datatype stop = Exit string | BadSetting string | NilPointer | Waits

type_synonym 'a run = "startEvent list \<times> (stop + 'a)"

definition continue :: "'a \<Rightarrow> 'a run" where
  "continue x = ([], Inr x)"

definition stops :: "stop \<Rightarrow> 'a run" where
  "stops reason = ([], Inl reason)"

definition bind_run :: "'a run \<Rightarrow> ('a \<Rightarrow> 'b run) \<Rightarrow> 'b run" where
  "bind_run r f =
     (case snd r of
        Inl reason \<Rightarrow> (fst r, Inl reason)
      | Inr x \<Rightarrow> (fst r @ fst (f x), snd (f x)))"

definition launch :: "goroutine \<Rightarrow> unit run" where
  "launch g = ([Go g], Inr ())"

text \<open>A call that returns a value or an error, followed by \<^verbatim>\<open>ExitOnError\<close> with a message.\<close>

definition ExitOnError :: "string \<Rightarrow> string + 'a \<Rightarrow> 'a run" where
  "ExitOnError errorMessage result =
     (case result of
        Inl err \<Rightarrow> ([LogLine errorMessage, LogLine err], Inl (Exit err))
      | Inr x \<Rightarrow> ([], Inr x))"

text \<open>A setting: the getters end the program when it is missing or malformed.\<close>

definition setting :: "string \<Rightarrow> 'a outcome \<Rightarrow> 'a run" where
  "setting name value = (case value of Done x \<Rightarrow> ([], Inr x) | _ \<Rightarrow> ([], Inl (BadSetting name)))"

definition lift_outcome :: "'a outcome \<Rightarrow> 'a run" where
  "lift_outcome r = (case r of Done x \<Rightarrow> ([], Inr x) | Panicked \<Rightarrow> ([], Inl NilPointer) | Blocked \<Rightarrow> ([], Inl Waits))"

text \<open>\<^verbatim>\<open>lis.Addr()\<close> of a listener: it is called before the error is looked at, on a nil listener when
  listening failed.\<close>

definition addrOf :: "string + string \<Rightarrow> string run" where
  "addrOf listener = (case listener of Inl err \<Rightarrow> ([], Inl NilPointer) | Inr addr \<Rightarrow> ([], Inr addr))"

definition ipOrError :: "ipAddress list option \<Rightarrow> string + string" where
  "ipOrError interfaceAddrs =
     (case GetMyIPAddr interfaceAddrs of None \<Rightarrow> Inl ''no suitable IP address found'' | Some ip \<Rightarrow> Inr ip)"

section \<open>Rules\<close>

lemma bind_run_Inr [startup]:
  "bind_run r f = (tr, Inr y) \<longleftrightarrow>
     (\<exists>tr1 x tr2. r = (tr1, Inr x) \<and> f x = (tr2, Inr y) \<and> tr = tr1 @ tr2)"
  by (cases r; cases "snd r") (auto simp: bind_run_def prod_eq_iff)

lemma bind_run_simps [simp]:
  "bind_run (l, Inr x) f = (l @ fst (f x), snd (f x))"
  "bind_run (l, Inl e) f = (l, Inl e)"
  by (simp_all add: bind_run_def)

lemma launch_Inr [startup]: "launch g = (tr, Inr u) \<longleftrightarrow> tr = [Go g]"
  by (auto simp: launch_def)

lemma continue_Inr [startup]: "continue x = (tr, Inr y) \<longleftrightarrow> tr = [] \<and> y = x"
  by (auto simp: continue_def)

lemma stops_Inr [startup]: "stops e \<noteq> (tr, Inr y)"
  by (simp add: stops_def)

lemma ExitOnError_Inr [startup]: "ExitOnError m r = (tr, Inr x) \<longleftrightarrow> r = Inr x \<and> tr = []"
  by (auto simp: ExitOnError_def split: sum.split)

lemma setting_Inr [startup]: "setting n v = (tr, Inr x) \<longleftrightarrow> v = Done x \<and> tr = []"
  by (auto simp: setting_def split: outcome.split)

lemma lift_outcome_Inr [startup]: "lift_outcome r = (tr, Inr x) \<longleftrightarrow> r = Done x \<and> tr = []"
  by (auto simp: lift_outcome_def split: outcome.split)

lemma addrOf_Inr [startup]: "addrOf l = (tr, Inr x) \<longleftrightarrow> l = Inr x \<and> tr = []"
  by (auto simp: addrOf_def split: sum.split)

end
