(* ===== verification/Liveness.thy ===== *)
theory Liveness
  imports GoPrelude
begin

text \<open>
  The contract that the load balancer and the registry share: both remember when each node last sent
  a heartbeat, and a periodic sweep drops the nodes whose last heartbeat is older than a threshold,
  measured from the time of the \<^emph>\<open>previous\<close> sweep. Times are in nanoseconds, the threshold in seconds.
  The two components instantiate the locale on their own sweeps.
\<close>

definition stale :: "int \<Rightarrow> int \<Rightarrow> int \<Rightarrow> bool" where
  "stale thr lastCheck beat \<longleftrightarrow> thr * 10 ^ 9 < lastCheck - beat"

text \<open>The order in which a loop visits the keys of a map, given as a function of the set of keys.\<close>

type_synonym 'k keyOrder = "'k set \<Rightarrow> 'k list"

definition visitsAll :: "'k keyOrder \<Rightarrow> bool" where
  "visitsAll order \<longleftrightarrow> (\<forall>S. finite S \<longrightarrow> distinct (order S) \<and> set (order S) = S)"

lemma visits_enumerates: "visitsAll order \<Longrightarrow> enumerates (order (fmdom' m)) m"
  by (simp add: visitsAll_def enumerates_def)

text \<open>The periodic sweeps, one after the other: the time of each and the order of its loop.\<close>

definition sweepRound :: "(int \<Rightarrow> int \<Rightarrow> 'k list \<Rightarrow> 's \<Rightarrow> 's) \<Rightarrow> ('s \<Rightarrow> ('k, int) gomap) \<Rightarrow> int \<Rightarrow> int \<times> 'k keyOrder \<Rightarrow> 's \<Rightarrow> 's" where
  "sweepRound sweep beats thr r s = sweep thr (fst r) (snd r (fmdom' (beats s))) s"

definition sweeps :: "(int \<Rightarrow> int \<Rightarrow> 'k list \<Rightarrow> 's \<Rightarrow> 's) \<Rightarrow> ('s \<Rightarrow> ('k, int) gomap) \<Rightarrow> int \<Rightarrow> (int \<times> 'k keyOrder) list \<Rightarrow> 's \<Rightarrow> 's" where
  "sweeps sweep beats thr rounds s = fold (sweepRound sweep beats thr) rounds s"

locale heartbeat_monitor =
  fixes sweep :: "int \<Rightarrow> int \<Rightarrow> 'k list \<Rightarrow> 's \<Rightarrow> 's"
    and beats :: "'s \<Rightarrow> ('k, int) gomap"
    and checkTime :: "'s \<Rightarrow> int"
    and tracked :: "'s \<Rightarrow> 'k set"
  assumes sweep_beats: "enumerates ks (beats s) \<Longrightarrow>
      fmlookup (beats (sweep thr now ks s)) k =
        (case fmlookup (beats s) k of None \<Rightarrow> None
         | Some t \<Rightarrow> if stale thr (checkTime s) t then None else Some t)"
    and sweep_checkTime: "checkTime (sweep thr now ks s) = now"
    and sweep_tracked: "enumerates ks (beats s) \<Longrightarrow>
      tracked (sweep thr now ks s) =
        tracked s - {k. \<exists>t. fmlookup (beats s) k = Some t \<and> stale thr (checkTime s) t}"
begin

lemma sweep_keeps_fresh:
  assumes "enumerates ks (beats s)" and "fmlookup (beats s) k = Some t"
    and "\<not> stale thr (checkTime s) t"
  shows "fmlookup (beats (sweep thr now ks s)) k = Some t \<and>
    (k \<in> tracked s \<longrightarrow> k \<in> tracked (sweep thr now ks s))"
  using assms by (simp add: sweep_beats sweep_tracked)

lemma sweep_drops_stale:
  assumes "enumerates ks (beats s)" and "fmlookup (beats s) k = Some t" and "stale thr (checkTime s) t"
  shows "fmlookup (beats (sweep thr now ks s)) k = None \<and> k \<notin> tracked (sweep thr now ks s)"
  using assms by (auto simp: sweep_beats sweep_tracked)

text \<open>A silent node is gone after the second sweep at the latest, whatever the first one saw.\<close>

lemma silent_node_dropped:
  assumes ks1: "enumerates ks1 (beats s)" and ks2: "enumerates ks2 (beats (sweep thr now1 ks1 s))"
    and t: "fmlookup (beats s) k = Some t" and stale: "stale thr now1 t"
  shows "fmlookup (beats (sweep thr now2 ks2 (sweep thr now1 ks1 s))) k = None \<and>
    k \<notin> tracked (sweep thr now2 ks2 (sweep thr now1 ks1 s))"
proof (cases "stale thr (checkTime s) t")
  case True
  with sweep_drops_stale [OF ks1 t] have "fmlookup (beats (sweep thr now1 ks1 s)) k = None"
    "k \<notin> tracked (sweep thr now1 ks1 s)" by auto
  with ks2 show ?thesis by (simp add: sweep_beats sweep_tracked)
next
  case False
  with sweep_keeps_fresh [OF ks1 t] have "fmlookup (beats (sweep thr now1 ks1 s)) k = Some t" by simp
  from sweep_drops_stale [OF ks2 this] stale show ?thesis by (simp add: sweep_checkTime)
qed

lemma tracked_monitored:
  assumes "enumerates ks (beats s)" and "tracked s = fmdom' (beats s)"
  shows "tracked (sweep thr now ks s) = fmdom' (beats (sweep thr now ks s))"
  using assms sweep_tracked [OF assms(1)]
  by (auto simp: fmlookup_dom'_iff sweep_beats split: option.splits if_splits)

lemma sweeps_untracked:
  "list_all (visitsAll \<circ> snd) rounds \<Longrightarrow> k \<notin> tracked s \<Longrightarrow> k \<notin> tracked (sweeps sweep beats thr rounds s)"
  by (induction rounds arbitrary: s) (auto simp: sweeps_def sweepRound_def sweep_tracked visits_enumerates)

text \<open>Two sweeps are enough for a node that was silent for longer than the threshold before the first.\<close>

lemma sweeps_drop:
  assumes "list_all (visitsAll \<circ> snd) rounds" and "2 \<le> length rounds"
    and "fmlookup (beats s) k = Some t" and "stale thr (fst (hd rounds)) t"
  shows "k \<notin> tracked (sweeps sweep beats thr rounds s)"
proof -
  obtain now1 o1 now2 o2 rest where r: "rounds = (now1, o1) # (now2, o2) # rest"
    using assms(2) by (cases rounds rule: remdups_adj.cases) auto
  then have o: "visitsAll o1" "visitsAll o2" "list_all (visitsAll \<circ> snd) rest" using assms(1) by auto
  let ?s1 = "sweepRound sweep beats thr (now1, o1) s"
  have "k \<notin> tracked (sweepRound sweep beats thr (now2, o2) ?s1)"
    using silent_node_dropped [OF visits_enumerates [OF o(1)] visits_enumerates [OF o(2)] assms(3)] assms(4) r
    by (simp add: sweepRound_def)
  from sweeps_untracked [OF o(3) this] show ?thesis by (simp add: r sweeps_def)
qed

text \<open>A node whose heartbeat is fresh at every sweep stays.\<close>

lemma sweeps_keep:
  assumes "list_all (visitsAll \<circ> snd) rounds" and "fmlookup (beats s) k = Some t" and "k \<in> tracked s"
    and "\<not> stale thr (checkTime s) t" and "list_all (\<lambda>r. \<not> stale thr (fst r) t) rounds"
  shows "k \<in> tracked (sweeps sweep beats thr rounds s)"
  using assms
proof (induction rounds arbitrary: s)
  case Nil
  then show ?case by (simp add: sweeps_def)
next
  case (Cons r rounds)
  then have o: "visitsAll (snd r)" by simp
  from sweep_keeps_fresh [OF visits_enumerates [OF o] Cons.prems(2,4)] Cons.prems(3)
  have "fmlookup (beats (sweepRound sweep beats thr r s)) k = Some t" "k \<in> tracked (sweepRound sweep beats thr r s)"
    by (auto simp: sweepRound_def)
  with Cons.IH [of "sweepRound sweep beats thr r s"] Cons.prems show ?case
    by (simp add: sweeps_def) (simp add: sweepRound_def sweep_checkTime)
qed

end

end
