(* ===== verification/Balancer.thy ===== *)
theory Balancer
  imports Strconv Float64 Liveness
begin

text \<open>
  The load balancer, \<^verbatim>\<open>load_balancer/services\<close> and \<^verbatim>\<open>load_balancer/login\<close>: the map of the edge
  servers with their load, the choice of the least loaded one, the request identifiers, the
  heartbeats and the sweep over dead servers. Handlers are state functions; a handler that reads the
  sequence number outside its lock is also split into its atomic sections, whose interleavings are
  a step relation. A \<^verbatim>\<open>range\<close> loop takes the order of the keys as an argument.
\<close>

section \<open>State\<close>

datatype EdgeServer = EdgeServer (ServerAddr: string)

record HeartbeatMessage =
  hbServer :: EdgeServer
  CurrentLoad :: int

record User =
  Username :: string
  Passwd :: string

record BalancerResponse =
  EdgeIpAddr :: string
  RequestId :: string

datatype balancerError = NO_SERVER_AVAILABLE | Unauthenticated

record BalancingServiceServer =
  edgeServerMap :: "(EdgeServer, int) gomap"
  heartbeatCheckTime :: int
  heartbeats :: "(EdgeServer, int) gomap"
  sequenceNumber :: int

definition balancingServer :: "int \<Rightarrow> int \<Rightarrow> BalancingServiceServer" where
  "balancingServer now uniqueID = \<lparr>edgeServerMap = fmempty, heartbeatCheckTime = now,
     heartbeats = fmempty, sequenceNumber = uniqueID\<rparr>"

section \<open>Choosing an edge server\<close>

fun minLoadLoop :: "(EdgeServer, int) gomap \<Rightarrow> EdgeServer list \<Rightarrow> EdgeServer list \<Rightarrow> int \<Rightarrow> EdgeServer list \<times> int" where
  "minLoadLoop m [] minLoadEdgeSlice minLoadValue = (minLoadEdgeSlice, minLoadValue)"
| "minLoadLoop m (e # ks) minLoadEdgeSlice minLoadValue =
     (let serverLoad = gomap_get 0 m e in
      if serverLoad < minLoadValue then minLoadLoop m ks [e] serverLoad
      else if serverLoad = minLoadValue then minLoadLoop m ks (minLoadEdgeSlice @ [e]) minLoadValue
      else minLoadLoop m ks minLoadEdgeSlice minLoadValue)"

definition pickEdgeServer :: "EdgeServer list \<Rightarrow> BalancingServiceServer \<Rightarrow>
    ((balancerError + string) \<times> BalancingServiceServer) outcome" where
  "pickEdgeServer ks s =
     (if edgeServerMap s = fmempty then Done (Inl NO_SERVER_AVAILABLE, s)
      else let minLoadEdgeSlice = fst (minLoadLoop (edgeServerMap s) ks [] MaxInt64) in
        if minLoadEdgeSlice = [] then Panicked
        else let minIndex = go_rem (sequenceNumber s) (int (length minLoadEdgeSlice)) in
          if minIndex < 0 \<or> int (length minLoadEdgeSlice) \<le> minIndex then Panicked
          else let minLoadEdge = minLoadEdgeSlice ! nat minIndex in
            Done (Inr (ServerAddr minLoadEdge),
              s\<lparr>edgeServerMap := fmupd minLoadEdge (wrap64 (gomap_get 0 (edgeServerMap s) minLoadEdge + 1))
                  (edgeServerMap s)\<rparr>))"

definition UserLogin :: "(string \<Rightarrow> string option) \<Rightarrow> string \<Rightarrow> string \<Rightarrow> bool" where
  "UserLogin GetFromRedis userName passwd =
     (case GetFromRedis userName of None \<Rightarrow> False | Some redisPasswd \<Rightarrow> passwd = redisPasswd)"

definition LoginClient :: "(string \<Rightarrow> string option) \<Rightarrow> User \<Rightarrow> bool" where
  "LoginClient GetFromRedis userInfo = UserLogin GetFromRedis (Username userInfo) (Passwd userInfo)"

definition ConvertToString :: "int \<Rightarrow> string" where
  "ConvertToString num = FormatInt num"

definition nextSequence :: "BalancingServiceServer \<Rightarrow> BalancingServiceServer" where
  "nextSequence s = s\<lparr>sequenceNumber := wrap64 (sequenceNumber s + 1)\<rparr>"

definition GetEdge :: "(string \<Rightarrow> string option) \<Rightarrow> EdgeServer list \<Rightarrow> User \<Rightarrow> BalancingServiceServer \<Rightarrow>
    ((balancerError + BalancerResponse) \<times> BalancingServiceServer) outcome" where
  "GetEdge GetFromRedis ks userInfo s =
     (if UserLogin GetFromRedis (Username userInfo) (Passwd userInfo)
      then and_then (pickEdgeServer ks s) (\<lambda>(r, s1).
        case r of
          Inl err \<Rightarrow> Done (Inl err, s1)
        | Inr edgeIpAddr \<Rightarrow>
            let newRequestId = ConvertToString (sequenceNumber s1) in
            Done (Inr \<lparr>EdgeIpAddr = edgeIpAddr, RequestId = newRequestId\<rparr>, nextSequence s1))
      else Done (Inl Unauthenticated, s))"

section \<open>Messages from the edge servers\<close>

definition NotifyJobEnd :: "EdgeServer \<Rightarrow> BalancingServiceServer \<Rightarrow> BalancingServiceServer" where
  "NotifyJobEnd edgeServer s =
     (case fmlookup (edgeServerMap s) edgeServer of
        None \<Rightarrow> s
      | Some value \<Rightarrow>
          if 0 < value then s\<lparr>edgeServerMap := fmupd edgeServer (wrap64 (value - 1)) (edgeServerMap s)\<rparr> else s)"

text \<open>The weighted mean of the known and the received load, in \<^verbatim>\<open>float64\<close> and cut to an integer.\<close>

definition weightedLoad :: "rat \<Rightarrow> int \<Rightarrow> int \<Rightarrow> int" where
  "weightedLoad receivedWorkloadWeight currentLoad receivedLoad =
     (let weightedCurrentLoad = f64 (f64 (of_int currentLoad) * f64 (1 - receivedWorkloadWeight));
          weightedReceivedLoad = f64 (f64 (of_int receivedLoad) * receivedWorkloadWeight)
      in go_int64 (f64 (weightedCurrentLoad + weightedReceivedLoad)))"

definition Heartbeat :: "rat \<Rightarrow> int \<Rightarrow> HeartbeatMessage \<Rightarrow> BalancingServiceServer \<Rightarrow> BalancingServiceServer" where
  "Heartbeat receivedWorkloadWeight now hb s =
     (let edgeServer = hbServer hb;
          newLoad = (if fmlookup (heartbeats s) edgeServer = None then CurrentLoad hb
            else weightedLoad receivedWorkloadWeight (gomap_get 0 (edgeServerMap s) edgeServer) (CurrentLoad hb))
      in s\<lparr>edgeServerMap := fmupd edgeServer newLoad (edgeServerMap s),
           heartbeats := fmupd edgeServer now (heartbeats s)\<rparr>)"

fun deadServersLoop :: "int \<Rightarrow> int \<Rightarrow> EdgeServer list \<Rightarrow> BalancingServiceServer \<Rightarrow> BalancingServiceServer" where
  "deadServersLoop heartbeatThr lastCheckTime [] s = s"
| "deadServersLoop heartbeatThr lastCheckTime (e # ks) s =
     (case fmlookup (heartbeats s) e of
        None \<Rightarrow> deadServersLoop heartbeatThr lastCheckTime ks s
      | Some lastHeartbeatTime \<Rightarrow>
          if stale heartbeatThr lastCheckTime lastHeartbeatTime
          then deadServersLoop heartbeatThr lastCheckTime ks
            (s\<lparr>edgeServerMap := fmdrop e (edgeServerMap s), heartbeats := fmdrop e (heartbeats s)\<rparr>)
          else deadServersLoop heartbeatThr lastCheckTime ks s)"

definition checkForDeadServers :: "int \<Rightarrow> int \<Rightarrow> EdgeServer list \<Rightarrow> BalancingServiceServer \<Rightarrow> BalancingServiceServer" where
  "checkForDeadServers heartbeatThr now ks s =
     (deadServersLoop heartbeatThr (heartbeatCheckTime s) ks s)\<lparr>heartbeatCheckTime := now\<rparr>"

text \<open>The printable copy of the map: the loads by address.\<close>

definition convertAndPrintEdgeServerMap :: "EdgeServer list \<Rightarrow> (EdgeServer, int) gomap \<Rightarrow> (string \<times> int) list" where
  "convertAndPrintEdgeServerMap ks m = map (\<lambda>e. (ServerAddr e, gomap_get 0 m e)) ks"

section \<open>The choice of the least loaded server\<close>

definition minimal_in :: "(EdgeServer, int) gomap \<Rightarrow> EdgeServer list \<Rightarrow> EdgeServer \<Rightarrow> bool" where
  "minimal_in m ks e \<longleftrightarrow> e \<in> set ks \<and> (\<forall>e'\<in>set ks. gomap_get 0 m e \<le> gomap_get 0 m e')"

lemma minLoadLoop_result:
  assumes "\<forall>e\<in>set ks. gomap_get 0 m e \<le> MaxInt64"
    and "\<forall>e\<in>set prev. v \<le> gomap_get 0 m e" and "\<forall>e\<in>set sl. gomap_get 0 m e = v \<and> e \<in> set prev"
    and "v \<le> MaxInt64" and "sl = [] \<Longrightarrow> prev = [] \<and> v = MaxInt64"
  shows "(prev @ ks \<noteq> [] \<longrightarrow> fst (minLoadLoop m ks sl v) \<noteq> []) \<and>
    (\<forall>e\<in>set (fst (minLoadLoop m ks sl v)). minimal_in m (prev @ ks) e)"
  using assms
proof (induction ks arbitrary: prev sl v)
  case Nil
  then show ?case by (auto simp: minimal_in_def)
next
  case (Cons k ks)
  let ?l = "gomap_get 0 m k"
  have ap: "prev @ k # ks = (prev @ [k]) @ ks" by simp
  have bound: "?l \<le> MaxInt64" and rest: "\<forall>e\<in>set ks. gomap_get 0 m e \<le> MaxInt64"
    using Cons.prems(1) by auto
  consider "?l < v" | "?l = v" | "v < ?l" by linarith
  then show ?case
  proof cases
    case 1
    with Cons.IH [of "prev @ [k]" ?l "[k]"] Cons.prems(2) rest bound show ?thesis
      unfolding ap by (fastforce simp: Let_def)
  next
    case 2
    with Cons.IH [of "prev @ [k]" v "sl @ [k]"] Cons.prems(2-4) rest show ?thesis
      unfolding ap by (fastforce simp: Let_def)
  next
    case 3
    then have "sl \<noteq> []" using Cons.prems(5) bound by auto
    with 3 Cons.IH [of "prev @ [k]" v sl] Cons.prems(2-4) rest show ?thesis
      unfolding ap by (fastforce simp: Let_def)
  qed
qed

definition loads_in_range :: "BalancingServiceServer \<Rightarrow> bool" where
  "loads_in_range s \<longleftrightarrow> (\<forall>e l. fmlookup (edgeServerMap s) e = Some l \<longrightarrow> l \<le> MaxInt64)"

lemma pickEdgeServer_picks:
  assumes ks: "enumerates ks (edgeServerMap s)" and "edgeServerMap s \<noteq> fmempty"
    and range: "loads_in_range s" and seq: "0 \<le> sequenceNumber s"
  obtains e l where "pickEdgeServer ks s =
      Done (Inr (ServerAddr e), s\<lparr>edgeServerMap := fmupd e (wrap64 (l + 1)) (edgeServerMap s)\<rparr>)"
    and "fmlookup (edgeServerMap s) e = Some l"
    and "\<And>e' l'. fmlookup (edgeServerMap s) e' = Some l' \<Longrightarrow> l \<le> l'"
proof -
  let ?m = "edgeServerMap s"
  let ?sl = "fst (minLoadLoop ?m ks [] MaxInt64)"
  have nonempty: "ks \<noteq> []" using ks assms(2) by (auto simp: enumerates_Nil_iff)
  have "\<forall>e\<in>set ks. gomap_get 0 ?m e \<le> MaxInt64"
    using ks range by (auto simp: loads_in_range_def dest!: enumeratesD)
  from minLoadLoop_result [OF this, of "[]" MaxInt64 "[]"] nonempty
  have sl: "?sl \<noteq> []" and minimal: "\<And>e. e \<in> set ?sl \<Longrightarrow> minimal_in ?m ks e" by auto
  let ?i = "go_rem (sequenceNumber s) (int (length ?sl))"
  have i: "0 \<le> ?i" "?i < int (length ?sl)"
    using go_rem_nonneg [OF seq, of "int (length ?sl)"] sl by auto
  let ?e = "?sl ! nat ?i"
  have "?e \<in> set ?sl" using i by (intro nth_mem) (simp add: nat_less_iff)
  with minimal have min: "minimal_in ?m ks ?e" by blast
  then obtain l where l: "fmlookup ?m ?e = Some l"
    using ks by (auto simp: minimal_in_def dest!: enumeratesD)
  have least: "l \<le> l'" if "fmlookup ?m e' = Some l'" for e' l'
    using min l that enumerates_mem [OF ks that] by (auto simp: minimal_in_def)
  have "pickEdgeServer ks s = Done (Inr (ServerAddr ?e), s\<lparr>edgeServerMap := fmupd ?e (wrap64 (l + 1)) ?m\<rparr>)"
    using assms(2) sl i l by (simp add: pickEdgeServer_def Let_def)
  from that [OF this l least] show thesis .
qed


section \<open>Liveness\<close>

definition tracked_servers :: "BalancingServiceServer \<Rightarrow> EdgeServer set" where
  "tracked_servers s = fmdom' (edgeServerMap s)"

lemma deadServersLoop_lookup:
  assumes "distinct ks"
  shows "fmlookup (heartbeats (deadServersLoop thr lastT ks s)) e =
      (case fmlookup (heartbeats s) e of None \<Rightarrow> None
       | Some t \<Rightarrow> if e \<in> set ks \<and> stale thr lastT t then None else Some t) \<and>
    fmlookup (edgeServerMap (deadServersLoop thr lastT ks s)) e =
      (if e \<in> set ks \<and> (\<exists>t. fmlookup (heartbeats s) e = Some t \<and> stale thr lastT t) then None
       else fmlookup (edgeServerMap s) e) \<and>
    sequenceNumber (deadServersLoop thr lastT ks s) = sequenceNumber s"
  using assms
proof (induction ks arbitrary: s)
  case Nil
  then show ?case by (simp split: option.splits)
next
  case (Cons k ks)
  show ?case
  proof (cases "fmlookup (heartbeats s) k")
    case None
    with Cons show ?thesis by (auto split: option.splits)
  next
    case (Some t)
    show ?thesis
    proof (cases "stale thr lastT t")
      case True
      with Some Cons.IH [of "s\<lparr>edgeServerMap := fmdrop k (edgeServerMap s), heartbeats := fmdrop k (heartbeats s)\<rparr>"]
        Cons.prems show ?thesis by (cases "e = k") (auto split: option.splits)
    next
      case False
      with Some Cons show ?thesis by (auto split: option.splits)
    qed
  qed
qed

lemma checkForDeadServers_lookup:
  assumes "enumerates ks (heartbeats s)"
  shows "fmlookup (heartbeats (checkForDeadServers thr now ks s)) e =
      (case fmlookup (heartbeats s) e of None \<Rightarrow> None
       | Some t \<Rightarrow> if stale thr (heartbeatCheckTime s) t then None else Some t)"
    and "fmlookup (edgeServerMap (checkForDeadServers thr now ks s)) e =
      (if \<exists>t. fmlookup (heartbeats s) e = Some t \<and> stale thr (heartbeatCheckTime s) t then None
       else fmlookup (edgeServerMap s) e)"
  using assms deadServersLoop_lookup [of ks thr "heartbeatCheckTime s" s e] enumerates_mem [OF assms]
  by (auto simp: checkForDeadServers_def enumerates_def split: option.splits)

interpretation balancerMonitor:
  heartbeat_monitor checkForDeadServers heartbeats heartbeatCheckTime tracked_servers
proof unfold_locales
  show "fmlookup (heartbeats (checkForDeadServers thr now ks s)) k =
      (case fmlookup (heartbeats s) k of None \<Rightarrow> None
       | Some t \<Rightarrow> if stale thr (heartbeatCheckTime s) t then None else Some t)"
    if "enumerates ks (heartbeats s)" for ks s thr now k
    using that by (rule checkForDeadServers_lookup)
  show "heartbeatCheckTime (checkForDeadServers thr now ks s) = now" for thr now ks s
    by (simp add: checkForDeadServers_def)
  show "tracked_servers (checkForDeadServers thr now ks s) = tracked_servers s -
      {k. \<exists>t. fmlookup (heartbeats s) k = Some t \<and> stale thr (heartbeatCheckTime s) t}"
    if "enumerates ks (heartbeats s)" for ks s thr now
    by (auto simp: tracked_servers_def fmlookup_dom'_iff checkForDeadServers_lookup(2) [OF that]
        split: if_splits)
qed

section \<open>The weighted load\<close>

lemma weightedLoad_half:
  assumes "0 \<le> c" and "0 \<le> r" and "c + r \<le> 2 ^ 53"
  shows "weightedLoad (1 / 2) c r = (c + r) div 2"
proof -
  have one: "f64 (1 / 2) = 1 / 2" using f64_half [of 1] by simp
  have c: "f64 (of_int c) = of_int c" "f64 (of_int c / 2) = of_int c / 2"
    and r: "f64 (of_int r) = of_int r" "f64 (of_int r / 2) = of_int r / 2"
    using assms by (simp_all add: f64_int f64_half del: eq_divide_eq_numeral1)
  have sum: "f64 ((of_int c + of_int r) / 2) = (of_int c + of_int r) / 2"
    using f64_half [of "c + r"] assms by simp
  have "weightedLoad (1 / 2) c r = go_int64 (f64 (of_int c / 2 + of_int r / 2))"
    by (simp add: weightedLoad_def one c r)
  also have "\<dots> = go_int64 ((of_int c + of_int r) / 2)"
    by (simp only: add_divide_distrib [symmetric] sum)
  finally have cut: "weightedLoad (1 / 2) c r = go_int64 ((of_int c + of_int r) / 2)" .
  have "go_trunc ((of_int c + of_int r) / 2) = \<lfloor>of_int (c + r) / (of_int 2 :: rat)\<rfloor>"
    using assms by (simp add: go_trunc_def)
  then have trunc: "go_trunc ((of_int c + of_int r) / 2) = (c + r) div 2"
    by (simp only: floor_divide_of_int_eq)
  have "0 \<le> (c + r) div 2" "(c + r) div 2 \<le> c + r" using assms by linarith+
  moreover have "in_int64 d" if "0 \<le> d" "d \<le> x" "x \<le> 2 ^ 53" for d x :: int using that by simp
  ultimately have "in_int64 ((c + r) div 2)" using assms(3) by blast
  with trunc cut show ?thesis by (simp add: go_int64_def)
qed

section \<open>Reachable states\<close>

text \<open>
  The handlers in any order, with the configured weight one half and edge servers that report loads
  between zero and \<open>B\<close>. The counter is the number of handlers run.
\<close>

inductive balancerRun :: "int \<Rightarrow> nat \<Rightarrow> BalancingServiceServer \<Rightarrow> bool" for B :: int where
  start: "0 \<le> uid \<Longrightarrow> uid < MaxInt64 \<Longrightarrow> balancerRun B 0 (balancingServer now uid)"
| edge: "balancerRun B n s \<Longrightarrow> enumerates ks (edgeServerMap s) \<Longrightarrow>
    GetEdge GetFromRedis ks user s = Done (r, t) \<Longrightarrow> balancerRun B (Suc n) t"
| jobEnd: "balancerRun B n s \<Longrightarrow> balancerRun B (Suc n) (NotifyJobEnd e s)"
| beat: "balancerRun B n s \<Longrightarrow> 0 \<le> CurrentLoad hb \<Longrightarrow> CurrentLoad hb \<le> B \<Longrightarrow>
    balancerRun B (Suc n) (Heartbeat (1 / 2) now hb s)"
| check: "balancerRun B n s \<Longrightarrow> enumerates ks (heartbeats s) \<Longrightarrow>
    balancerRun B (Suc n) (checkForDeadServers thr now ks s)"

definition balancer_inv :: "int \<Rightarrow> BalancingServiceServer \<Rightarrow> bool" where
  "balancer_inv L s \<longleftrightarrow> fmdom' (edgeServerMap s) = fmdom' (heartbeats s) \<and>
     (\<forall>e l. fmlookup (edgeServerMap s) e = Some l \<longrightarrow> 0 \<le> l \<and> l \<le> L)"

lemma pickEdgeServer_cases:
  assumes "pickEdgeServer ks s = Done (r, t)" and ks: "enumerates ks (edgeServerMap s)"
    and "loads_in_range s"
  obtains "r = Inl NO_SERVER_AVAILABLE" "t = s" "edgeServerMap s = fmempty"
  | e l where "r = Inr (ServerAddr e)" "fmlookup (edgeServerMap s) e = Some l"
      "t = s\<lparr>edgeServerMap := fmupd e (wrap64 (l + 1)) (edgeServerMap s)\<rparr>"
proof (cases "edgeServerMap s = fmempty")
  case True
  with assms(1) that(1) show thesis by (simp add: pickEdgeServer_def)
next
  case False
  define sl where "sl = fst (minLoadLoop (edgeServerMap s) ks [] MaxInt64)"
  define i where "i = go_rem (sequenceNumber s) (int (length sl))"
  define e where "e = sl ! nat i"
  have pick: "pickEdgeServer ks s = (if sl = [] then Panicked else if i < 0 \<or> int (length sl) \<le> i then Panicked
      else Done (Inr (ServerAddr e),
        s\<lparr>edgeServerMap := fmupd e (wrap64 (gomap_get 0 (edgeServerMap s) e + 1)) (edgeServerMap s)\<rparr>))"
    using False by (simp add: pickEdgeServer_def Let_def sl_def i_def e_def)
  have sl: "sl \<noteq> []" and i: "0 \<le> i" "i < int (length sl)"
    using assms(1) unfolding pick by (auto split: if_splits)
  with assms(1) have r: "r = Inr (ServerAddr e)"
    and t: "t = s\<lparr>edgeServerMap := fmupd e (wrap64 (gomap_get 0 (edgeServerMap s) e + 1)) (edgeServerMap s)\<rparr>"
    unfolding pick by simp_all
  have "\<forall>e\<in>set ks. gomap_get 0 (edgeServerMap s) e \<le> MaxInt64"
    using ks assms(3) by (auto simp: loads_in_range_def dest!: enumeratesD)
  from minLoadLoop_result [OF this, of "[]" MaxInt64 "[]"]
  have "\<And>e. e \<in> set sl \<Longrightarrow> e \<in> set ks" by (auto simp: minimal_in_def sl_def)
  moreover have "e \<in> set sl" unfolding e_def using i by (intro nth_mem) (simp add: nat_less_iff)
  ultimately have "e \<in> set ks" by blast
  from enumeratesD [OF ks this] obtain l where l: "fmlookup (edgeServerMap s) e = Some l" by blast
  with t have "t = s\<lparr>edgeServerMap := fmupd e (wrap64 (l + 1)) (edgeServerMap s)\<rparr>" by simp
  with that(2) r l show thesis by blast
qed

lemma balancer_inv_GetEdge:
  assumes inv: "balancer_inv L s" and L: "L < MaxInt64" and ks: "enumerates ks (edgeServerMap s)"
    and get: "GetEdge redis ks user s = Done (r, t)"
  shows "balancer_inv (L + 1) t"
proof -
  have range: "loads_in_range s" using inv L by (force simp: balancer_inv_def loads_in_range_def)
  have mono: "balancer_inv (L + 1) s" using inv by (force simp: balancer_inv_def)
  show ?thesis
  proof (cases "UserLogin redis (Username user) (Passwd user)")
    case False
    with get mono show ?thesis by (simp add: GetEdge_def)
  next
    case True
    with get obtain p s1 where p: "pickEdgeServer ks s = Done (p, s1)"
      and body: "(case p of Inl err \<Rightarrow> Done (Inl err, s1) | Inr a \<Rightarrow>
          Done (Inr \<lparr>EdgeIpAddr = a, RequestId = ConvertToString (sequenceNumber s1)\<rparr>, nextSequence s1)) = Done (r, t)"
      unfolding GetEdge_def Let_def by (auto simp: and_then_Done_iff)
    have t: "t = (case p of Inl _ \<Rightarrow> s1 | Inr _ \<Rightarrow> nextSequence s1)"
      using body by (cases p) auto
    from p ks range show ?thesis
    proof (cases rule: pickEdgeServer_cases)
      case 1
      with t mono show ?thesis by simp
    next
      case (2 e l)
      have w: "wrap64 (l + 1) = l + 1"
        using inv 2 L by (intro wrap64_id) (force simp: balancer_inv_def)
      have dom: "e \<in> fmdom' (edgeServerMap s)" using 2 by (simp add: fmdom'I)
      have l: "0 \<le> l" "l \<le> L" using inv 2(2) by (auto simp: balancer_inv_def)
      from mono dom l show ?thesis
        by (auto simp: t 2 w balancer_inv_def nextSequence_def insert_absorb)
    qed
  qed
qed

lemma balancer_inv_NotifyJobEnd:
  assumes "balancer_inv L s" and "L < MaxInt64"
  shows "balancer_inv L (NotifyJobEnd e s)"
proof (cases "fmlookup (edgeServerMap s) e")
  case None
  with assms show ?thesis by (simp add: NotifyJobEnd_def)
next
  case (Some v)
  then have v: "0 \<le> v" "v \<le> L" and dom: "e \<in> fmdom' (edgeServerMap s)"
    using assms(1) by (auto simp: balancer_inv_def fmdom'I)
  then have "0 < v \<Longrightarrow> wrap64 (v - 1) = v - 1" using assms(2) by (intro wrap64_id) simp
  with assms(1) Some v dom show ?thesis
    by (force simp: NotifyJobEnd_def balancer_inv_def insert_absorb)
qed

lemma balancer_inv_Heartbeat:
  assumes inv: "balancer_inv L s" and "0 \<le> CurrentLoad hb" and "CurrentLoad hb \<le> L" and "2 * L \<le> 2 ^ 53"
  shows "balancer_inv L (Heartbeat (1 / 2) now hb s)"
proof -
  let ?c = "gomap_get 0 (edgeServerMap s) (hbServer hb)"
  have c: "0 \<le> ?c \<and> ?c \<le> L"
    using inv assms(2,3) by (auto simp: balancer_inv_def gomap_get_def split: option.splits)
  then have "weightedLoad (1 / 2) ?c (CurrentLoad hb) = (?c + CurrentLoad hb) div 2"
    using assms by (intro weightedLoad_half) auto
  with inv c assms(2,3) show ?thesis
    by (auto simp: Heartbeat_def balancer_inv_def Let_def)
qed

lemma balancer_inv_check:
  assumes inv: "balancer_inv L s" and ks: "enumerates ks (heartbeats s)"
  shows "balancer_inv L (checkForDeadServers thr now ks s)"
proof -
  have "tracked_servers s = fmdom' (heartbeats s)" using inv by (simp add: tracked_servers_def balancer_inv_def)
  from balancerMonitor.tracked_monitored [OF ks this]
  have "fmdom' (edgeServerMap (checkForDeadServers thr now ks s)) =
      fmdom' (heartbeats (checkForDeadServers thr now ks s))"
    by (simp add: tracked_servers_def)
  with inv show ?thesis
    by (auto simp: balancer_inv_def checkForDeadServers_lookup(2) [OF ks] split: if_splits)
qed

lemma balancer_inv_mono: "balancer_inv L s \<Longrightarrow> L \<le> L' \<Longrightarrow> balancer_inv L' s"
  by (force simp: balancer_inv_def)

lemma balancerRun_inv:
  assumes "balancerRun B n s" and "0 \<le> B" and "B + int n \<le> 2 ^ 52"
  shows "balancer_inv (B + int n) s"
  using assms
proof (induction)
  case start
  then show ?case by (simp add: balancer_inv_def balancingServer_def)
next
  case (edge n s ks redis user r t)
  then show ?case using balancer_inv_GetEdge [of "B + int n" s ks redis user r t]
    by (simp add: algebra_simps)
next
  case (jobEnd n s e)
  then have "balancer_inv (B + int n) (NotifyJobEnd e s)" by (intro balancer_inv_NotifyJobEnd) auto
  then show ?case by (rule balancer_inv_mono) simp
next
  case (beat n s hb now)
  then have "balancer_inv (B + int n) (Heartbeat (1 / 2) now hb s)" by (intro balancer_inv_Heartbeat) auto
  then show ?case by (rule balancer_inv_mono) simp
next
  case (check n s ks thr now)
  then have "balancer_inv (B + int n) (checkForDeadServers thr now ks s)" by (intro balancer_inv_check) auto
  then show ?case by (rule balancer_inv_mono) simp
qed


section \<open>Sequences of handlers\<close>

datatype balancerEvent =
    GetEdgeCall "EdgeServer list" User
  | JobEndCall EdgeServer
  | HeartbeatCall int HeartbeatMessage
  | DeadCheck int "EdgeServer list"

fun handleEvents :: "(string \<Rightarrow> string option) \<Rightarrow> rat \<Rightarrow> int \<Rightarrow> balancerEvent list \<Rightarrow> BalancingServiceServer \<Rightarrow>
    (BalancerResponse list \<times> BalancingServiceServer) outcome" where
  "handleEvents redis w thr [] s = Done ([], s)"
| "handleEvents redis w thr (ev # evs) s =
     (case ev of
        GetEdgeCall ks user \<Rightarrow> and_then (GetEdge redis ks user s) (\<lambda>(r, t).
          and_then (handleEvents redis w thr evs t) (\<lambda>(rs, u).
            Done ((case r of Inl _ \<Rightarrow> [] | Inr resp \<Rightarrow> [resp]) @ rs, u)))
      | JobEndCall e \<Rightarrow> handleEvents redis w thr evs (NotifyJobEnd e s)
      | HeartbeatCall now hb \<Rightarrow> handleEvents redis w thr evs (Heartbeat w now hb s)
      | DeadCheck now ks \<Rightarrow> handleEvents redis w thr evs (checkForDeadServers thr now ks s))"

lemma GetEdge_sequence:
  assumes "GetEdge redis ks user s = Done (r, t)"
  shows "(case r of Inl _ \<Rightarrow> sequenceNumber t = sequenceNumber s
    | Inr resp \<Rightarrow> RequestId resp = FormatInt (sequenceNumber s) \<and>
        sequenceNumber t = wrap64 (sequenceNumber s + 1))"
proof -
  have keep: "sequenceNumber s1 = sequenceNumber s" if "pickEdgeServer ks s = Done (p, s1)" for p s1
    using that by (auto simp: pickEdgeServer_def Let_def split: if_splits)
  show ?thesis
  proof (cases "UserLogin redis (Username user) (Passwd user)")
    case True
    with assms obtain p s1 where p: "pickEdgeServer ks s = Done (p, s1)"
      and body: "(case p of Inl err \<Rightarrow> Done (Inl err, s1) | Inr a \<Rightarrow>
          Done (Inr \<lparr>EdgeIpAddr = a, RequestId = ConvertToString (sequenceNumber s1)\<rparr>, nextSequence s1)) = Done (r, t)"
      unfolding GetEdge_def Let_def by (auto simp: and_then_Done_iff)
    from body keep [OF p] show ?thesis
      by (cases p) (auto simp: ConvertToString_def nextSequence_def)
  qed (use assms in \<open>auto simp: GetEdge_def\<close>)
qed

lemma keeps_sequence [simp]:
  "sequenceNumber (NotifyJobEnd e s) = sequenceNumber s"
  "sequenceNumber (Heartbeat w now hb s) = sequenceNumber s"
  by (simp_all add: NotifyJobEnd_def Heartbeat_def Let_def split: option.split)

lemma deadServersLoop_sequence [simp]:
  "sequenceNumber (deadServersLoop thr lastT ks s) = sequenceNumber s"
  by (induction ks arbitrary: s) (simp_all split: option.split)

lemma checkForDeadServers_sequence [simp]:
  "sequenceNumber (checkForDeadServers thr now ks s) = sequenceNumber s"
  by (simp add: checkForDeadServers_def)

lemma wrap64_add: "wrap64 (wrap64 x + y) = wrap64 (x + y)"
proof -
  have "wrap64 x + y + 2 ^ 63 = (x + 2 ^ 63) mod 2 ^ 64 + y" by (simp add: wrap64_def)
  then have "(wrap64 x + y + 2 ^ 63) mod 2 ^ 64 = (x + 2 ^ 63 + y) mod 2 ^ 64" by (simp only: mod_add_left_eq)
  also have "x + 2 ^ 63 + y = x + y + 2 ^ 63" by simp
  finally show ?thesis by (simp only: wrap64_def)
qed

lemma handleEvents_ids:
  assumes "handleEvents redis w thr evs s = Done (rs, t)" and "in_int64 (sequenceNumber s)"
  shows "map RequestId rs = map (\<lambda>i. FormatInt (wrap64 (sequenceNumber s + int i))) [0..<length rs]"
  using assms
proof (induction evs arbitrary: s rs)
  case Nil
  then show ?case by simp
next
  case (Cons ev evs)
  show ?case
  proof (cases ev)
    case (GetEdgeCall ks user)
    with Cons.prems(1) obtain r s1 rs' where g: "GetEdge redis ks user s = Done (r, s1)"
      and rest: "handleEvents redis w thr evs s1 = Done (rs', t)"
      and rs: "rs = (case r of Inl _ \<Rightarrow> [] | Inr resp \<Rightarrow> [resp]) @ rs'"
      by (auto simp: and_then_Done_iff)
    show ?thesis
    proof (cases r)
      case (Inl e)
      with GetEdge_sequence [OF g] have "sequenceNumber s1 = sequenceNumber s" by simp
      with Cons.IH [OF rest] Cons.prems(2) rs Inl show ?thesis by simp
    next
      case (Inr resp)
      with GetEdge_sequence [OF g] have id: "RequestId resp = FormatInt (sequenceNumber s)"
        and seq: "sequenceNumber s1 = wrap64 (sequenceNumber s + 1)" by auto
      have ids: "map RequestId rs' = map (\<lambda>i. FormatInt (wrap64 (sequenceNumber s + int (Suc i)))) [0..<length rs']"
      proof -
        have "sequenceNumber s + 1 + int i = sequenceNumber s + int (Suc i)" for i by simp
        with Cons.IH [OF rest] wrap64_range [of "sequenceNumber s + 1"] show ?thesis
          by (simp only: seq wrap64_add)
      qed
      have "map RequestId rs = FormatInt (wrap64 (sequenceNumber s + int 0)) #
          map (\<lambda>i. FormatInt (wrap64 (sequenceNumber s + int (Suc i)))) [0..<length rs']"
        using ids id rs Inr Cons.prems(2) by (simp add: wrap64_id)
      also have "\<dots> = map (\<lambda>i. FormatInt (wrap64 (sequenceNumber s + int i))) (0 # map Suc [0..<length rs'])"
        by simp
      also have "0 # map Suc [0..<length rs'] = [0..<length rs]"
        using rs Inr by (simp add: upt_conv_Cons map_Suc_upt del: upt_Suc)
      finally show ?thesis .
    qed
  qed (use Cons in simp_all)
qed

lemma wrapped_ids_distinct:
  assumes "n \<le> 2 ^ 64"
  shows "distinct (map (\<lambda>i. FormatInt (wrap64 (x + int i))) [0..<n])"
proof -
  have "i = j" if eq: "FormatInt (wrap64 (x + int i)) = FormatInt (wrap64 (x + int j))" and ij: "i < n" "j < n" for i j
  proof -
    have "wrap64 (x + int i) = wrap64 (x + int j)"
      using eq wrap64_range by (simp add: FormatInt_inj)
    then have "(x + int i) mod 2 ^ 64 = (x + int j) mod 2 ^ 64" by (metis wrap64_mod)
    then have "int i mod 2 ^ 64 = int j mod 2 ^ 64" by (simp add: mod_eq_dvd_iff)
    moreover have "int i < 2 ^ 64" "int j < 2 ^ 64" using ij assms by simp_all
    ultimately show "i = j" by (simp add: mod_pos_pos_trivial)
  qed
  then show ?thesis by (auto simp: distinct_map inj_on_def)
qed

section \<open>Interleaved requests\<close>

text \<open>
  \<^verbatim>\<open>GetEdge\<close> holds a lock while it picks a server and while it increments the sequence number, and reads
  the number between the two without one: three sections that the requests interleave.
\<close>

datatype getEdgePhase = Arrived | Picked string | Numbered string string | Replied BalancerResponse

inductive getEdgeStep :: "BalancingServiceServer \<times> (nat \<Rightarrow> getEdgePhase) \<Rightarrow>
    BalancingServiceServer \<times> (nat \<Rightarrow> getEdgePhase) \<Rightarrow> bool" where
  pickSection: "ph c = Arrived \<Longrightarrow> enumerates ks (edgeServerMap s) \<Longrightarrow>
    pickEdgeServer ks s = Done (Inr addr, s1) \<Longrightarrow> getEdgeStep (s, ph) (s1, ph(c := Picked addr))"
| readSection: "ph c = Picked addr \<Longrightarrow>
    getEdgeStep (s, ph) (s, ph(c := Numbered addr (ConvertToString (sequenceNumber s))))"
| bumpSection: "ph c = Numbered addr rid \<Longrightarrow>
    getEdgeStep (s, ph) (nextSequence s, ph(c := Replied \<lparr>EdgeIpAddr = addr, RequestId = rid\<rparr>))"

text \<open>A request that is not interrupted does what \<^verbatim>\<open>GetEdge\<close> does.\<close>

lemma GetEdge_sections:
  assumes "GetEdge redis ks user s = Done (Inr resp, t)" and "enumerates ks (edgeServerMap s)" and "ph c = Arrived"
  shows "getEdgeStep\<^sup>*\<^sup>* (s, ph) (t, ph(c := Replied resp))"
proof -
  from assms(1) obtain a s1 where p: "pickEdgeServer ks s = Done (Inr a, s1)"
    and resp: "resp = \<lparr>EdgeIpAddr = a, RequestId = ConvertToString (sequenceNumber s1)\<rparr>" and t: "t = nextSequence s1"
  proof -
    from assms(1) obtain p s1 where p: "pickEdgeServer ks s = Done (p, s1)"
      and body: "(case p of Inl err \<Rightarrow> Done (Inl err, s1) | Inr a \<Rightarrow>
          Done (Inr \<lparr>EdgeIpAddr = a, RequestId = ConvertToString (sequenceNumber s1)\<rparr>, nextSequence s1)) = Done (Inr resp, t)"
      unfolding GetEdge_def Let_def by (auto simp: and_then_Done_iff split: if_splits)
    show thesis
    proof (cases p)
      case (Inr a)
      with that p body show thesis by auto
    qed (use body in auto)
  qed
  have "getEdgeStep (s, ph) (s1, ph(c := Picked a))" using assms(3,2) p by (rule pickSection)
  moreover have "getEdgeStep (s1, ph(c := Picked a)) (s1, ph(c := Numbered a (ConvertToString (sequenceNumber s1))))"
    using readSection [of "ph(c := Picked a)" c a s1] by simp
  moreover have "getEdgeStep (s1, ph(c := Numbered a (ConvertToString (sequenceNumber s1)))) (t, ph(c := Replied resp))"
    using bumpSection [of "ph(c := Numbered a (ConvertToString (sequenceNumber s1)))" c a _ s1] by (simp add: resp t)
  ultimately show ?thesis by (meson converse_rtranclp_into_rtranclp rtranclp.rtrancl_refl)
qed

section \<open>Properties\<close>

text \<open>C8: an authorised client gets a server of least load, whatever the iteration order; the load of
  that server alone grows by one, and the response carries the current sequence number, which moves on.\<close>

theorem GetEdge_least_loaded:
  assumes ks: "enumerates ks (edgeServerMap s)" and ne: "edgeServerMap s \<noteq> fmempty"
    and "loads_in_range s" and "0 \<le> sequenceNumber s"
    and "UserLogin redis (Username user) (Passwd user)"
  shows "\<exists>e l. fmlookup (edgeServerMap s) e = Some l \<and>
    (\<forall>e' l'. fmlookup (edgeServerMap s) e' = Some l' \<longrightarrow> l \<le> l') \<and>
    GetEdge redis ks user s =
      Done (Inr \<lparr>EdgeIpAddr = ServerAddr e, RequestId = FormatInt (sequenceNumber s)\<rparr>,
        s\<lparr>edgeServerMap := fmupd e (wrap64 (l + 1)) (edgeServerMap s),
          sequenceNumber := wrap64 (sequenceNumber s + 1)\<rparr>)"
proof -
  obtain e l where p: "pickEdgeServer ks s =
      Done (Inr (ServerAddr e), s\<lparr>edgeServerMap := fmupd e (wrap64 (l + 1)) (edgeServerMap s)\<rparr>)"
    and l: "fmlookup (edgeServerMap s) e = Some l"
    and least: "\<And>e' l'. fmlookup (edgeServerMap s) e' = Some l' \<Longrightarrow> l \<le> l'"
    using pickEdgeServer_picks [OF assms(1-4)] by blast
  have "GetEdge redis ks user s =
      Done (Inr \<lparr>EdgeIpAddr = ServerAddr e, RequestId = FormatInt (sequenceNumber s)\<rparr>,
        s\<lparr>edgeServerMap := fmupd e (wrap64 (l + 1)) (edgeServerMap s),
          sequenceNumber := wrap64 (sequenceNumber s + 1)\<rparr>)"
    using assms(5) p by (simp add: GetEdge_def ConvertToString_def nextSequence_def Let_def)
  with l least show ?thesis by blast
qed

definition demoBalancer :: BalancingServiceServer where
  "demoBalancer = \<lparr>edgeServerMap = fmupd (EdgeServer ''b'') 1 (fmupd (EdgeServer ''a'') 2 fmempty),
     heartbeatCheckTime = 0, heartbeats = fmupd (EdgeServer ''b'') 0 (fmupd (EdgeServer ''a'') 0 fmempty),
     sequenceNumber = 7\<rparr>"

lemma demoBalancer_facts:
  "enumerates [EdgeServer ''a'', EdgeServer ''b''] (edgeServerMap demoBalancer)"
  "enumerates [EdgeServer ''a'', EdgeServer ''b''] (heartbeats demoBalancer)"
  "loads_in_range demoBalancer"
  by (auto simp: enumerates_def demoBalancer_def loads_in_range_def split: if_splits)

definition demoUsers :: "string \<Rightarrow> string option" where
  "demoUsers u = (if u = ''test'' then Some ''test'' else None)"

theorem GetEdge_least_loaded_witness:
  "\<exists>t e. GetEdge demoUsers [EdgeServer ''a'', EdgeServer ''b''] \<lparr>Username = ''test'', Passwd = ''test''\<rparr> demoBalancer =
     Done (Inr \<lparr>EdgeIpAddr = ServerAddr e, RequestId = FormatInt 7\<rparr>, t) \<and> fmlookup (edgeServerMap t) e = Some 2"
proof -
  have ne: "edgeServerMap demoBalancer \<noteq> fmempty"
    using demoBalancer_facts(1) by (auto simp: enumerates_def)
  have hyps: "0 \<le> sequenceNumber demoBalancer"
    "UserLogin demoUsers (Username \<lparr>Username = ''test'', Passwd = ''test''\<rparr>) (Passwd \<lparr>Username = ''test'', Passwd = ''test''\<rparr>)"
    by (simp_all add: demoBalancer_def demoUsers_def UserLogin_def)
  from GetEdge_least_loaded [OF demoBalancer_facts(1) ne demoBalancer_facts(3) hyps]
  obtain e l where e: "fmlookup (edgeServerMap demoBalancer) e = Some l"
    "\<And>e' l'. fmlookup (edgeServerMap demoBalancer) e' = Some l' \<Longrightarrow> l \<le> l'"
    and g: "GetEdge demoUsers [EdgeServer ''a'', EdgeServer ''b''] \<lparr>Username = ''test'', Passwd = ''test''\<rparr> demoBalancer =
      Done (Inr \<lparr>EdgeIpAddr = ServerAddr e, RequestId = FormatInt (sequenceNumber demoBalancer)\<rparr>,
        demoBalancer\<lparr>edgeServerMap := fmupd e (wrap64 (l + 1)) (edgeServerMap demoBalancer),
          sequenceNumber := wrap64 (sequenceNumber demoBalancer + 1)\<rparr>)"
    by blast
  have seq: "sequenceNumber demoBalancer = 7" by (simp add: demoBalancer_def)
  have "l = 1" using e(1) e(2) [of "EdgeServer ''b''" 1] by (auto simp: demoBalancer_def split: if_splits)
  with g show ?thesis unfolding seq by (auto simp: wrap64_id)
qed

text \<open>A refused client, or one that finds no server, leaves the balancer unchanged.\<close>

theorem GetEdge_refused:
  assumes "\<not> UserLogin redis (Username user) (Passwd user) \<or> edgeServerMap s = fmempty"
  shows "\<exists>err. GetEdge redis ks user s = Done (Inl err, s)"
  using assms by (cases "UserLogin redis (Username user) (Passwd user)") (auto simp: GetEdge_def pickEdgeServer_def)

theorem GetEdge_refused_witness:
  "\<exists>err. GetEdge demoUsers [] \<lparr>Username = ''eve'', Passwd = ''x''\<rparr> demoBalancer = Done (Inl err, demoBalancer)"
  by (rule GetEdge_refused) (simp add: UserLogin_def demoUsers_def)



text \<open>A server that fell silent is dropped by the second sweep at the latest, and one whose last
  heartbeat is fresh at the time of the previous sweep is kept with its load.\<close>

theorem silent_server_dropped:
  assumes "enumerates ks1 (heartbeats s)" and "enumerates ks2 (heartbeats (checkForDeadServers thr now1 ks1 s))"
    and "fmlookup (heartbeats s) e = Some t"
  shows "(stale thr now1 t \<longrightarrow>
      e \<notin> tracked_servers (checkForDeadServers thr now2 ks2 (checkForDeadServers thr now1 ks1 s))) \<and>
    (\<not> stale thr (heartbeatCheckTime s) t \<longrightarrow>
      fmlookup (edgeServerMap (checkForDeadServers thr now1 ks1 s)) e = fmlookup (edgeServerMap s) e)"
  using balancerMonitor.silent_node_dropped [OF assms] assms(3)
  by (simp add: checkForDeadServers_lookup(2) [OF assms(1)])

theorem silent_server_dropped_witness:
  "EdgeServer ''a'' \<notin> tracked_servers (checkForDeadServers 15 (60 * 10 ^ 9) [EdgeServer ''a'', EdgeServer ''b'']
     (checkForDeadServers 15 (30 * 10 ^ 9) [EdgeServer ''a'', EdgeServer ''b''] demoBalancer))"
proof -
  have "enumerates [EdgeServer ''a'', EdgeServer ''b'']
      (heartbeats (checkForDeadServers 15 (30 * 10 ^ 9) [EdgeServer ''a'', EdgeServer ''b''] demoBalancer))"
    by (simp add: checkForDeadServers_def demoBalancer_def stale_def enumerates_def insert_commute)
  from silent_server_dropped [OF demoBalancer_facts(2) this, of "EdgeServer ''a''" 0] show ?thesis
    by (simp add: demoBalancer_def stale_def)
qed

text \<open>The first heartbeat of a server sets its load; a later one, with the configured weight one
  half, replaces it by the mean of the known and the reported load, rounded down.\<close>

theorem Heartbeat_mean:
  assumes "0 \<le> CurrentLoad hb" and "0 \<le> gomap_get 0 (edgeServerMap s) (hbServer hb)"
    and "gomap_get 0 (edgeServerMap s) (hbServer hb) + CurrentLoad hb \<le> 2 ^ 53"
  shows "fmlookup (edgeServerMap (Heartbeat (1 / 2) now hb s)) (hbServer hb) =
    Some (if fmlookup (heartbeats s) (hbServer hb) = None then CurrentLoad hb
      else (gomap_get 0 (edgeServerMap s) (hbServer hb) + CurrentLoad hb) div 2)"
  using weightedLoad_half [OF assms(2,1,3)] by (simp add: Heartbeat_def Let_def)

theorem Heartbeat_mean_witness:
  "fmlookup (edgeServerMap (Heartbeat (1 / 2) 9 \<lparr>hbServer = EdgeServer ''a'', CurrentLoad = 7\<rparr> demoBalancer))
     (EdgeServer ''a'') = Some 4"
  using Heartbeat_mean [of "\<lparr>hbServer = EdgeServer ''a'', CurrentLoad = 7\<rparr>" demoBalancer 9]
  by (simp add: demoBalancer_def)

text \<open>As long as the handlers do not overlap, up to 2^64 requests get pairwise different
  identifiers, across the overflow of the sequence number too.\<close>

theorem request_ids_distinct:
  assumes "handleEvents redis w thr evs s = Done (rs, t)" and "in_int64 (sequenceNumber s)"
    and "length rs \<le> 2 ^ 64"
  shows "distinct (map RequestId rs)"
  unfolding handleEvents_ids [OF assms(1,2)] by (rule wrapped_ids_distinct [OF assms(3)])

theorem request_ids_distinct_witness:
  "\<exists>rs t. handleEvents demoUsers (1 / 2) 15
      [GetEdgeCall [EdgeServer ''a'', EdgeServer ''b''] \<lparr>Username = ''test'', Passwd = ''test''\<rparr>,
       GetEdgeCall [EdgeServer ''a'', EdgeServer ''b''] \<lparr>Username = ''test'', Passwd = ''test''\<rparr>] demoBalancer =
      Done (rs, t) \<and> length rs = 2 \<and> distinct (map RequestId rs)"
proof -
  let ?u = "\<lparr>Username = ''test'', Passwd = ''test''\<rparr>"
  let ?ks = "[EdgeServer ''a'', EdgeServer ''b'']"
  have "\<exists>rs t. handleEvents demoUsers (1 / 2) 15 [GetEdgeCall ?ks ?u, GetEdgeCall ?ks ?u] demoBalancer =
      Done (rs, t) \<and> length rs = 2"
    by (simp add: GetEdge_def UserLogin_def demoUsers_def pickEdgeServer_def demoBalancer_def gomap_get_def
        go_rem_def nextSequence_def Let_def wrap64_id)
  then obtain rs t where run: "handleEvents demoUsers (1 / 2) 15 [GetEdgeCall ?ks ?u, GetEdgeCall ?ks ?u] demoBalancer =
      Done (rs, t)" and len: "length rs = 2" by blast
  from request_ids_distinct [OF run] len have "distinct (map RequestId rs)" by (simp add: demoBalancer_def)
  with run len show ?thesis by blast
qed

text \<open>Requests that overlap can be given the same identifier: the number is read after the choice of
  the server and outside the lock that guards its increment.\<close>

theorem request_ids_collide:
  assumes "enumerates ks (edgeServerMap s)" and "edgeServerMap s \<noteq> fmempty" and "loads_in_range s"
    and "0 \<le> sequenceNumber s"
  shows "\<exists>t ph r1 r2. getEdgeStep\<^sup>*\<^sup>* (s, \<lambda>_. Arrived) (t, ph) \<and> ph 0 = Replied r1 \<and> ph 1 = Replied r2 \<and>
    RequestId r1 = RequestId r2"
proof -
  obtain e l where p: "pickEdgeServer ks s =
      Done (Inr (ServerAddr e), s\<lparr>edgeServerMap := fmupd e (wrap64 (l + 1)) (edgeServerMap s)\<rparr>)"
    and l: "fmlookup (edgeServerMap s) e = Some l"
    and least: "\<And>e' l'. fmlookup (edgeServerMap s) e' = Some l' \<Longrightarrow> l \<le> l'"
    using pickEdgeServer_picks [OF assms] by blast
  define s1 where "s1 = s\<lparr>edgeServerMap := fmupd e (wrap64 (l + 1)) (edgeServerMap s)\<rparr>"
  have ks1: "enumerates ks (edgeServerMap s1)"
    using assms(1) fmdom'I [OF l] by (simp add: s1_def enumerates_def insert_absorb)
  have range1: "loads_in_range s1"
    using assms(3) wrap64_range [of "l + 1"] by (auto simp: s1_def loads_in_range_def)
  have ne1: "edgeServerMap s1 \<noteq> fmempty" by (auto simp: s1_def dest: arg_cong [where f = "\<lambda>m. fmlookup m e"])
  have "0 \<le> sequenceNumber s1" using assms(4) by (simp add: s1_def)
  from pickEdgeServer_picks [OF ks1 ne1 range1 this]
  obtain e2 s2 where p2: "pickEdgeServer ks s1 = Done (Inr (ServerAddr e2), s2)" by metis
  let ?id = "ConvertToString (sequenceNumber s2)"
  let ?p1 = "(\<lambda>_. Arrived)(0 := Picked (ServerAddr e))"
  let ?p2 = "?p1(1 := Picked (ServerAddr e2))"
  let ?p3 = "?p2(0 := Numbered (ServerAddr e) ?id)"
  let ?p4 = "?p3(1 := Numbered (ServerAddr e2) ?id)"
  let ?p5 = "?p4(0 := Replied \<lparr>EdgeIpAddr = ServerAddr e, RequestId = ?id\<rparr>)"
  let ?p6 = "?p5(1 := Replied \<lparr>EdgeIpAddr = ServerAddr e2, RequestId = ?id\<rparr>)"
  have s_1: "getEdgeStep (s, \<lambda>_. Arrived) (s1, ?p1)"
    by (rule pickSection [OF _ assms(1) p [folded s1_def]]) simp
  have s_2: "getEdgeStep (s1, ?p1) (s2, ?p2)" by (rule pickSection [OF _ ks1 p2]) simp
  have s_3: "getEdgeStep (s2, ?p2) (s2, ?p3)" by (rule readSection) simp
  have s_4: "getEdgeStep (s2, ?p3) (s2, ?p4)" by (rule readSection) simp
  have s_5: "getEdgeStep (s2, ?p4) (nextSequence s2, ?p5)" by (rule bumpSection) simp
  have s_6: "getEdgeStep (nextSequence s2, ?p5) (nextSequence (nextSequence s2), ?p6)" by (rule bumpSection) simp
  have r_1: "getEdgeStep\<^sup>*\<^sup>* (s, \<lambda>_. Arrived) (s1, ?p1)" using s_1 by (rule r_into_rtranclp)
  have r_2: "getEdgeStep\<^sup>*\<^sup>* (s, \<lambda>_. Arrived) (s2, ?p2)" using r_1 s_2 by (rule rtranclp.rtrancl_into_rtrancl)
  have r_3: "getEdgeStep\<^sup>*\<^sup>* (s, \<lambda>_. Arrived) (s2, ?p3)" using r_2 s_3 by (rule rtranclp.rtrancl_into_rtrancl)
  have r_4: "getEdgeStep\<^sup>*\<^sup>* (s, \<lambda>_. Arrived) (s2, ?p4)" using r_3 s_4 by (rule rtranclp.rtrancl_into_rtrancl)
  have r_5: "getEdgeStep\<^sup>*\<^sup>* (s, \<lambda>_. Arrived) (nextSequence s2, ?p5)" using r_4 s_5 by (rule rtranclp.rtrancl_into_rtrancl)
  have r_6: "getEdgeStep\<^sup>*\<^sup>* (s, \<lambda>_. Arrived) (nextSequence (nextSequence s2), ?p6)" using r_5 s_6 by (rule rtranclp.rtrancl_into_rtrancl)
  from r_6 show ?thesis
    by (intro exI [of _ "nextSequence (nextSequence s2)"] exI [of _ ?p6]) auto
qed

theorem request_ids_collide_witness:
  "\<exists>t ph r1 r2. getEdgeStep\<^sup>*\<^sup>* (demoBalancer, \<lambda>_. Arrived) (t, ph) \<and> ph 0 = Replied r1 \<and> ph 1 = Replied r2 \<and>
    RequestId r1 = RequestId r2"
proof -
  have "edgeServerMap demoBalancer \<noteq> fmempty"
    using demoBalancer_facts(1) by (auto simp: enumerates_def)
  then show ?thesis
    by (rule request_ids_collide [OF demoBalancer_facts(1) _ demoBalancer_facts(3)]) (simp add: demoBalancer_def)
qed

end
