(* ===== verification/BalancerService.thy ===== *)
theory BalancerService
  imports Balancer ConfigCopies "HOL-Library.List_Lexorder"
begin

text \<open>
  The load balancer as a service: the handlers of \<^verbatim>\<open>load_balancer/services/balancing_services.go\<close> with the
  settings they read, the sweep of \<^verbatim>\<open>balancing.go\<close>, and sequences of requests. The types of the Go program
  are an invariant of its state: every load and every number is a 64-bit integer.
\<close>

section \<open>The heartbeat handler with its setting\<close>

text \<open>A weight that is not finite makes a sum that is not finite, whose conversion to \<^verbatim>\<open>int\<close> gives the
  smallest integer.\<close>

definition weightedLoadOf :: "float64 \<Rightarrow> int \<Rightarrow> int \<Rightarrow> int" where
  "weightedLoadOf receivedWorkloadWeight currentLoad receivedLoad =
     (case receivedWorkloadWeight of
        Finite w \<Rightarrow> weightedLoad w currentLoad receivedLoad
      | _ \<Rightarrow> - (2 ^ 63))"

definition HeartbeatHandler :: "(string \<Rightarrow> float64 option) \<Rightarrow> config \<Rightarrow> int \<Rightarrow> HeartbeatMessage \<Rightarrow>
    BalancingServiceServer \<Rightarrow> BalancingServiceServer outcome" where
  "HeartbeatHandler library env now hb s =
     (let edgeServer = hbServer hb; alive = (\<lambda>load. s\<lparr>edgeServerMap := fmupd edgeServer load (edgeServerMap s),
           heartbeats := fmupd edgeServer now (heartbeats s)\<rparr>) in
      if fmlookup (heartbeats s) edgeServer = None then Done (alive (CurrentLoad hb))
      else and_then (balancerGetFloatEnvironmentVariable library env ''RECEIVED_WORKLOAD_WEIGHT'') (\<lambda>w.
        Done (alive (weightedLoadOf w (gomap_get 0 (edgeServerMap s) edgeServer) (CurrentLoad hb)))))"

lemma HeartbeatHandler_Finite:
  assumes "balancerGetFloatEnvironmentVariable library env ''RECEIVED_WORKLOAD_WEIGHT'' = Done (Finite w)"
  shows "HeartbeatHandler library env now hb s = Done (Heartbeat w now hb s)"
  using assms by (simp add: HeartbeatHandler_def Heartbeat_def weightedLoadOf_def Let_def)

lemma weightedLoadOf_range: "in_int64 (weightedLoadOf w c r)"
  using go_int64_range by (simp add: weightedLoadOf_def weightedLoad_def Let_def split: float64.split)

section \<open>Requests\<close>

text \<open>Each request comes with the order in which its loop, if it has one, visits a set of servers.\<close>

datatype request = AskEdge User | JobEnded EdgeServer | Beat int HeartbeatMessage | Sweep int

definition serveOne :: "(string \<Rightarrow> string option) \<Rightarrow> (string \<Rightarrow> float64 option) \<Rightarrow> config \<Rightarrow> int \<Rightarrow>
    EdgeServer keyOrder \<Rightarrow> request \<Rightarrow> BalancingServiceServer \<Rightarrow> (BalancerResponse list \<times> BalancingServiceServer) outcome" where
  "serveOne GetFromRedis library env heartbeatThr order req s =
     (case req of
        AskEdge user \<Rightarrow> and_then (GetEdge GetFromRedis (order (fmdom' (edgeServerMap s))) user s)
          (\<lambda>(r, t). Done (case r of Inl _ \<Rightarrow> [] | Inr response \<Rightarrow> [response], t))
      | JobEnded e \<Rightarrow> Done ([], NotifyJobEnd e s)
      | Beat now hb \<Rightarrow> and_then (HeartbeatHandler library env now hb s) (\<lambda>t. Done ([], t))
      | Sweep now \<Rightarrow> Done ([], checkForDeadServers heartbeatThr now (order (fmdom' (heartbeats s))) s))"

fun serve :: "(string \<Rightarrow> string option) \<Rightarrow> (string \<Rightarrow> float64 option) \<Rightarrow> config \<Rightarrow> int \<Rightarrow>
    (EdgeServer keyOrder \<times> request) list \<Rightarrow> BalancingServiceServer \<Rightarrow> (BalancerResponse list \<times> BalancingServiceServer) outcome" where
  "serve GetFromRedis library env heartbeatThr [] s = Done ([], s)"
| "serve GetFromRedis library env heartbeatThr ((order, req) # reqs) s =
     and_then (serveOne GetFromRedis library env heartbeatThr order req s) (\<lambda>(rs, t).
     and_then (serve GetFromRedis library env heartbeatThr reqs t) (\<lambda>(rs', u). Done (rs @ rs', u)))"

section \<open>Types\<close>

definition well_typed :: "BalancingServiceServer \<Rightarrow> bool" where
  "well_typed s \<longleftrightarrow> in_int64 (sequenceNumber s) \<and> (\<forall>e l. fmlookup (edgeServerMap s) e = Some l \<longrightarrow> in_int64 l)"

fun typed_request :: "request \<Rightarrow> bool" where
  "typed_request (Beat now hb) \<longleftrightarrow> in_int64 (CurrentLoad hb)"
| "typed_request _ \<longleftrightarrow> True"

fun asksEdge :: "request \<Rightarrow> nat" where
  "asksEdge (AskEdge user) = 1"
| "asksEdge _ = 0"

lemma well_typed_range: "well_typed s \<Longrightarrow> loads_in_range s"
  by (fastforce simp: well_typed_def loads_in_range_def)

lemma well_typed_upd: "well_typed s \<Longrightarrow> in_int64 l \<Longrightarrow>
    well_typed (s\<lparr>edgeServerMap := fmupd e l (edgeServerMap s), heartbeats := h\<rparr>) \<and>
    well_typed (s\<lparr>edgeServerMap := fmupd e l (edgeServerMap s)\<rparr>)"
  by (auto simp: well_typed_def)

lemma well_typed_NotifyJobEnd: "well_typed s \<Longrightarrow> well_typed (NotifyJobEnd e s)"
  using wrap64_range by (auto simp: NotifyJobEnd_def well_typed_upd split: option.split)

lemma well_typed_sweep:
  assumes "well_typed s" and "enumerates ks (heartbeats s)"
  shows "well_typed (checkForDeadServers thr now ks s)"
  using assms(1) by (simp add: well_typed_def checkForDeadServers_lookup(2) [OF assms(2)])

lemma well_typed_GetEdge:
  assumes typed: "well_typed s" and seq: "0 \<le> sequenceNumber s" and ks: "enumerates ks (edgeServerMap s)"
  shows "\<exists>r t. GetEdge redis ks user s = Done (r, t) \<and> well_typed t \<and>
    (case r of Inl _ \<Rightarrow> t = s
     | Inr response \<Rightarrow> RequestId response = FormatInt (sequenceNumber s) \<and> sequenceNumber t = wrap64 (sequenceNumber s + 1))"
proof (cases "UserLogin redis (Username user) (Passwd user) \<and> edgeServerMap s \<noteq> fmempty")
  case False
  then obtain err where "GetEdge redis ks user s = Done (Inl err, s)"
    using GetEdge_refused [of redis user s ks] by auto
  with typed show ?thesis by simp
next
  case True
  from pickEdgeServer_picks [OF ks _ well_typed_range [OF typed] seq] True
  obtain e l where p: "pickEdgeServer ks s =
      Done (Inr (ServerAddr e), s\<lparr>edgeServerMap := fmupd e (wrap64 (l + 1)) (edgeServerMap s)\<rparr>)" by metis
  have "well_typed (s\<lparr>edgeServerMap := fmupd e (wrap64 (l + 1)) (edgeServerMap s)\<rparr>)"
    using typed wrap64_range by (simp add: well_typed_upd)
  with p True show ?thesis
    using wrap64_range by (auto simp: GetEdge_def ConvertToString_def nextSequence_def Let_def well_typed_def)
qed

text \<open>One request: well typed and with the weight configured, it is served.\<close>

lemma serveOne_sound:
  assumes "well_typed s" and "typed_request req" and "visitsAll order"
    and "0 \<le> sequenceNumber s" and "sequenceNumber s + int (asksEdge req) \<le> MaxInt64"
    and "balancerGetFloatEnvironmentVariable library env ''RECEIVED_WORKLOAD_WEIGHT'' = Done w"
  shows "\<exists>rs t. serveOne redis library env thr order req s = Done (rs, t) \<and> well_typed t \<and>
    sequenceNumber s \<le> sequenceNumber t \<and> sequenceNumber t \<le> sequenceNumber s + int (asksEdge req) \<and>
    list_all (\<lambda>r. \<exists>n. ParseInt (RequestId r) = Some n \<and> 0 \<le> n) rs"
proof (cases req)
  case (AskEdge user)
  from well_typed_GetEdge [OF assms(1,4) visits_enumerates [OF assms(3)]]
  obtain r t where g: "GetEdge redis (order (fmdom' (edgeServerMap s))) user s = Done (r, t)" and t: "well_typed t"
    and res: "case r of Inl _ \<Rightarrow> t = s | Inr response \<Rightarrow> RequestId response = FormatInt (sequenceNumber s) \<and>
        sequenceNumber t = wrap64 (sequenceNumber s + 1)" by blast
  have seq: "in_int64 (sequenceNumber s)" using assms(1) by (simp add: well_typed_def)
  have succ: "wrap64 (sequenceNumber s + 1) = sequenceNumber s + 1" using assms(4,5) AskEdge by (intro wrap64_id) simp
  show ?thesis
    using g t res succ ParseInt_FormatInt [OF seq] assms(4) by (cases r) (simp_all add: serveOne_def AskEdge)
next
  case (JobEnded e)
  with assms show ?thesis by (simp add: serveOne_def well_typed_NotifyJobEnd)
next
  case (Beat now hb)
  then have "in_int64 (CurrentLoad hb)" using assms(2) by simp
  with Beat assms show ?thesis
    using weightedLoadOf_range by (auto simp: serveOne_def HeartbeatHandler_def Let_def well_typed_upd)
next
  case (Sweep now)
  with assms well_typed_sweep [OF assms(1) visits_enumerates [OF assms(3)]] show ?thesis by (simp add: serveOne_def)
qed

section \<open>The sequence number as an index\<close>

fun lowest :: "(EdgeServer, int) gomap \<Rightarrow> EdgeServer list \<Rightarrow> int \<Rightarrow> int" where
  "lowest m [] v = v"
| "lowest m (e # ks) v = lowest m ks (min v (gomap_get 0 m e))"

lemma lowest_le: "lowest m ks v \<le> v \<and> (\<forall>e\<in>set ks. lowest m ks v \<le> gomap_get 0 m e)"
proof (induction ks arbitrary: v)
  case (Cons e ks)
  from Cons [of "min v (gomap_get 0 m e)"] show ?case by auto
qed simp

lemma lowest_mem: "lowest m ks v = v \<or> (\<exists>e\<in>set ks. lowest m ks v = gomap_get 0 m e)"
proof (induction ks arbitrary: v)
  case (Cons e ks)
  from Cons [of "min v (gomap_get 0 m e)"] show ?case by (auto simp: min_def split: if_splits)
qed simp

lemma minLoadLoop_filter:
  "fst (minLoadLoop m ks sl v) = (if lowest m ks v = v then sl else []) @ filter (\<lambda>e. gomap_get 0 m e = lowest m ks v) ks"
proof (induction ks arbitrary: sl v)
  case Nil
  then show ?case by simp
next
  case (Cons e ks)
  let ?l = "gomap_get 0 m e"
  consider "?l < v" | "?l = v" | "v < ?l" by linarith
  then show ?case
    using Cons [of "[e]" ?l] Cons [of "sl @ [e]" v] Cons [of sl v] lowest_le [of m ks ?l] lowest_le [of m ks v]
    by cases (auto simp: Let_def min_def)
qed

lemma minLoadLoop_minimal:
  assumes "\<forall>e\<in>set ks. gomap_get 0 m e \<le> MaxInt64"
  shows "fst (minLoadLoop m ks [] MaxInt64) = filter (minimal_in m ks) ks"
proof -
  have "gomap_get 0 m e = lowest m ks MaxInt64 \<longleftrightarrow> minimal_in m ks e" if "e \<in> set ks" for e
    using that lowest_le [of m ks MaxInt64] lowest_mem [of m ks MaxInt64] assms
    by (auto simp: minimal_in_def intro!: antisym)
  then have "filter (\<lambda>e. gomap_get 0 m e = lowest m ks MaxInt64) ks = filter (minimal_in m ks) ks"
    by (intro filter_cong) auto
  then show ?thesis by (simp add: minLoadLoop_filter)
qed

lemma go_rem_negative: "a < 0 \<Longrightarrow> 0 < b \<Longrightarrow> \<not> b dvd a \<Longrightarrow> go_rem a b < 0"
  using pos_mod_sign [of b "- a"] by (auto simp: go_rem_def dvd_eq_mod_eq_0 le_less zmod_zminus1_eq_if)

lemma pickEdgeServer_negative:
  assumes "enumerates ks (edgeServerMap s)" and "loads_in_range s" and "edgeServerMap s \<noteq> fmempty"
    and "sequenceNumber s < 0" and "\<not> int (length (filter (minimal_in (edgeServerMap s) ks) ks)) dvd sequenceNumber s"
  shows "pickEdgeServer ks s = Panicked"
proof -
  have loads: "\<forall>e\<in>set ks. gomap_get 0 (edgeServerMap s) e \<le> MaxInt64"
    using assms(1,2) by (auto simp: loads_in_range_def dest!: enumeratesD)
  let ?sl = "filter (minimal_in (edgeServerMap s) ks) ks"
  have "go_rem (sequenceNumber s) (int (length ?sl)) < 0" if "?sl \<noteq> []"
    using assms(4,5) that by (intro go_rem_negative) auto
  then show ?thesis
    unfolding pickEdgeServer_def Let_def minLoadLoop_minimal [OF loads] using assms(3) by auto
qed

section \<open>Properties\<close>

text \<open>C16: type soundness of the load balancer: any sequence of requests with 64-bit loads, from a state whose
  loads and sequence number are 64-bit integers, is served without a panic, as long as the weight is
  configured and the sequence number does not overflow; the state stays well typed and every identifier
  given out is a decimal number.\<close>

theorem balancer_type_sound:
  assumes "well_typed s" and "list_all (\<lambda>(order, req). visitsAll order \<and> typed_request req) reqs"
    and "0 \<le> sequenceNumber s" and "sequenceNumber s + (\<Sum>(order, req)\<leftarrow>reqs. int (asksEdge req)) \<le> MaxInt64"
    and "balancerGetFloatEnvironmentVariable library env ''RECEIVED_WORKLOAD_WEIGHT'' = Done w"
  shows "\<exists>rs t. serve redis library env thr reqs s = Done (rs, t) \<and> well_typed t \<and>
    list_all (\<lambda>r. \<exists>n. ParseInt (RequestId r) = Some n \<and> 0 \<le> n) rs"
  using assms(1-4)
proof (induction reqs arbitrary: s)
  case Nil
  then show ?case by simp
next
  case (Cons x reqs)
  obtain order req where x: "x = (order, req)" by (cases x)
  have sum: "0 \<le> (\<Sum>(order, req)\<leftarrow>reqs. int (asksEdge req))" by (rule sum_list_nonneg) auto
  with Cons.prems x have one: "visitsAll order" "typed_request req"
    "sequenceNumber s + int (asksEdge req) \<le> MaxInt64" by auto
  from serveOne_sound [OF Cons.prems(1) one(2,1) Cons.prems(3) one(3) assms(5)]
  obtain rs t where t: "serveOne redis library env thr order req s = Done (rs, t)" "well_typed t"
    "sequenceNumber s \<le> sequenceNumber t" "sequenceNumber t \<le> sequenceNumber s + int (asksEdge req)"
    "list_all (\<lambda>r. \<exists>n. ParseInt (RequestId r) = Some n \<and> 0 \<le> n) rs" by blast
  with Cons.IH [of t] Cons.prems x show ?case by auto
qed

definition byAddress :: "EdgeServer keyOrder" where
  "byAddress S = map EdgeServer (sorted_list_of_set (ServerAddr ` S))"

lemma visitsAll_byAddress: "visitsAll byAddress"
proof -
  have "set (byAddress S) = S" "distinct (byAddress S)" if "finite S" for S
    using that by (auto simp: byAddress_def distinct_map inj_on_def image_image)
  then show ?thesis by (simp add: visitsAll_def)
qed

theorem balancer_type_sound_witness:
  "\<exists>rs t. serve demoUsers (\<lambda>_. None) (fmupd ''RECEIVED_WORKLOAD_WEIGHT'' ''0.5'' fmempty) 15
      [(byAddress, Beat 1 \<lparr>hbServer = EdgeServer ''c'', CurrentLoad = 3\<rparr>),
       (byAddress, AskEdge \<lparr>Username = ''test'', Passwd = ''test''\<rparr>), (byAddress, Sweep 9)] demoBalancer = Done (rs, t) \<and>
     well_typed t"
proof -
  have "well_typed demoBalancer" by (simp add: well_typed_def demoBalancer_def)
  moreover have "balancerGetFloatEnvironmentVariable (\<lambda>_. None) (fmupd ''RECEIVED_WORKLOAD_WEIGHT'' ''0.5'' fmempty)
      ''RECEIVED_WORKLOAD_WEIGHT'' = Done (Finite (1 / 2))"
    by (simp add: balancerGetFloatEnvironmentVariable_def balancerGetEnvironmentVariable_def ParseFloat_half)
  ultimately show ?thesis
    using balancer_type_sound [where s = demoBalancer and reqs = "[(byAddress, Beat 1 \<lparr>hbServer = EdgeServer ''c'', CurrentLoad = 3\<rparr>),
       (byAddress, AskEdge \<lparr>Username = ''test'', Passwd = ''test''\<rparr>), (byAddress, Sweep 9)]"]
    by (simp add: visitsAll_byAddress demoBalancer_def) blast
qed



end
