(* ===== verification/BalancerStart.thy ===== *)
theory BalancerStart
  imports Startup BalancerService
begin

text \<open>
  The start of the load balancer: \<^verbatim>\<open>load_balancer/main.go\<close>, \<^verbatim>\<open>ActAsBalancer\<close>, \<^verbatim>\<open>setupRPC\<close>, \<^verbatim>\<open>setUpGRPC\<close> and
  \<^verbatim>\<open>checkHeartbeat\<close> of \<^verbatim>\<open>services/balancing.go\<close>, and the client of the user database,
  \<^verbatim>\<open>redisDB/redis_singleton.go\<close>. The Redis library is an argument: the creation of a client and its \<^verbatim>\<open>Set\<close>
  and \<^verbatim>\<open>Get\<close>. What the code relies on is \<open>redisLaws\<close>: a value that was set is what is got.
\<close>

section \<open>The user database\<close>

record redisOptions =
  Addr :: string
  Password :: string
  DB :: int

record ('c, 'db) redisLib =
  NewClient :: "redisOptions \<Rightarrow> 'c"
  redisSet :: "'c \<Rightarrow> string \<Rightarrow> string \<Rightarrow> 'db \<Rightarrow> string + 'db"
  redisGet :: "'c \<Rightarrow> string \<Rightarrow> 'db \<Rightarrow> string + string"

definition redisLaws :: "('c, 'db) redisLib \<Rightarrow> bool" where
  "redisLaws lib \<longleftrightarrow> (\<forall>c k v db db' k'. redisSet lib c k v db = Inr db' \<longrightarrow>
     redisGet lib c k' db' = (if k' = k then Inr v else redisGet lib c k' db))"

text \<open>The variable \<^verbatim>\<open>redisConn\<close> is \<^term>\<open>None\<close> until the first use.\<close>

definition getRedisClient :: "('c, 'db) redisLib \<Rightarrow> 'c option \<Rightarrow> 'c \<times> 'c option" where
  "getRedisClient lib redisConn =
     (case redisConn of
        None \<Rightarrow> (let c = NewClient lib \<lparr>Addr = ''localhost:6379'', Password = '''', DB = 0\<rparr> in (c, Some c))
      | Some c \<Rightarrow> (c, redisConn))"

definition PutOnRedis :: "('c, 'db) redisLib \<Rightarrow> string \<Rightarrow> string \<Rightarrow> 'c option \<times> 'db \<Rightarrow> string option \<times> 'c option \<times> 'db" where
  "PutOnRedis lib key v s =
     (let (c, redisConn) = getRedisClient lib (fst s) in
      case redisSet lib c key v (snd s) of
        Inl err \<Rightarrow> (Some err, redisConn, snd s)
      | Inr db \<Rightarrow> (None, redisConn, db))"

definition GetFromRedis :: "('c, 'db) redisLib \<Rightarrow> string \<Rightarrow> 'c option \<times> 'db \<Rightarrow> (string + string) \<times> 'c option \<times> 'db" where
  "GetFromRedis lib key s =
     (let (c, redisConn) = getRedisClient lib (fst s) in
      case redisGet lib c key (snd s) of
        Inl err \<Rightarrow> (Inl err, redisConn, snd s)
      | Inr v \<Rightarrow> (Inr v, redisConn, snd s))"

text \<open>What \<^verbatim>\<open>UserLogin\<close> asks.\<close>

definition lookupUser :: "('c, 'db) redisLib \<Rightarrow> 'c option \<times> 'db \<Rightarrow> string \<Rightarrow> string option" where
  "lookupUser lib s userName = (case fst (GetFromRedis lib userName s) of Inl err \<Rightarrow> None | Inr v \<Rightarrow> Some v)"

definition theClient :: "('c, 'db) redisLib \<Rightarrow> 'c option \<Rightarrow> 'c" where
  "theClient lib redisConn = fst (getRedisClient lib redisConn)"

lemma client_stays [simp]: "theClient lib (snd (getRedisClient lib conn)) = theClient lib conn"
  by (simp add: theClient_def getRedisClient_def Let_def split: option.split)

lemma lookupUser_get:
  "lookupUser lib s u = (case redisGet lib (theClient lib (fst s)) u (snd s) of Inl err \<Rightarrow> None | Inr v \<Rightarrow> Some v)"
  by (simp add: lookupUser_def GetFromRedis_def theClient_def split: sum.split prod.split)

lemma PutOnRedis_state:
  "PutOnRedis lib k v s = (err, s') \<Longrightarrow> theClient lib (fst s') = theClient lib (fst s) \<and>
     (err = None \<longrightarrow> redisSet lib (theClient lib (fst s)) k v (snd s) = Inr (snd s')) \<and> (err \<noteq> None \<longrightarrow> snd s' = snd s)"
  using client_stays [of lib "fst s"]
  by (auto simp: PutOnRedis_def theClient_def split: sum.splits prod.splits)

section \<open>Listening\<close>

record balancerHost =
  interfaceAddrs :: "ipAddress list option"
  registerRPC :: "string option"
  listenRPC :: "string \<Rightarrow> string + string"
  listenGRPC :: "string \<Rightarrow> string + string"

definition setupRPC :: "balancerHost \<Rightarrow> unit run" where
  "setupRPC host =
     bind_run (ExitOnError ''Impossibile registrare il servizio'' (case registerRPC host of Some err \<Rightarrow> Inl err | None \<Rightarrow> Inr ())) (\<lambda>_.
     bind_run (ExitOnError ''Impossibile mettersi in ascolto sulla porta'' (listenRPC host '':4321'')) (\<lambda>addr.
     launch (ServeRPC addr)))"

definition setUpGRPC :: "config \<Rightarrow> balancerHost \<Rightarrow> unit run" where
  "setUpGRPC env host =
     bind_run (ExitOnError ''[*GRPC_SETUP_ERROR*] -> Impossibile ottenere l'indirizzo IP del load balancer''
       (ipOrError (interfaceAddrs host))) (\<lambda>ipAddr.
     bind_run (addrOf (listenGRPC host (ipAddr @ '':5432''))) (\<lambda>addr.
     bind_run (setting ''MAX_GRPC_MESSAGE_SIZE'' (balancerGetIntEnvironmentVariable env ''MAX_GRPC_MESSAGE_SIZE'')) (\<lambda>_.
     launch (ServeGRPC addr))))"

section \<open>The start\<close>

definition seedUsers :: "('c, 'db) redisLib \<Rightarrow> 'c option \<times> 'db \<Rightarrow> 'c option \<times> 'db" where
  "seedUsers lib s = fold (\<lambda>u s. snd (PutOnRedis lib u u s)) [''edoardo'', ''andrea'', ''simone'', ''test''] s"

definition ActAsBalancer :: "config \<Rightarrow> balancerHost \<Rightarrow> (int \<Rightarrow> int option) \<Rightarrow> int \<Rightarrow> ('c, 'db) redisLib \<Rightarrow>
    'c option \<times> 'db \<Rightarrow> (BalancingServiceServer \<times> 'c option \<times> 'db) run" where
  "ActAsBalancer env host randInt now lib redis =
     (let server = balancingServer now (balancerGenerateUniqueRandomID randInt) in
      bind_run (setupRPC host) (\<lambda>_.
      bind_run (setUpGRPC env host) (\<lambda>_.
      let redis' = seedUsers lib redis in
      bind_run (launch CheckHeartbeat) (\<lambda>_. continue (server, redis')))))"

definition balancerMain :: "(string \<Rightarrow> string option) \<Rightarrow> string list \<Rightarrow> config \<Rightarrow> balancerHost \<Rightarrow> (int \<Rightarrow> int option) \<Rightarrow> int \<Rightarrow>
    ('c, 'db) redisLib \<Rightarrow> 'c option \<times> 'db \<Rightarrow> (config \<times> BalancingServiceServer \<times> 'c option \<times> 'db) run" where
  "balancerMain files ks env host randInt now lib redis =
     bind_run (setting ''conf.properties'' (balancerSetupEnvVariables files ks ''conf.properties'' env)) (\<lambda>env'.
     bind_run (ActAsBalancer env' host randInt now lib redis) (\<lambda>s. continue (env', s)))"

text \<open>The goroutine that sweeps: the times of its rounds and the orders of their loops.\<close>

definition checkHeartbeat :: "config \<Rightarrow> (int \<times> EdgeServer keyOrder) list \<Rightarrow> BalancingServiceServer \<Rightarrow> BalancingServiceServer outcome" where
  "checkHeartbeat env rounds s =
     and_then (balancerGetIntEnvironmentVariable env ''MONITOR_TIMER'') (\<lambda>MONITOR_TIMER.
     and_then (balancerGetIntEnvironmentVariable env ''HEARTBEAT_THR'') (\<lambda>HEARTBEAT_THR.
       Done (sweeps checkForDeadServers heartbeats HEARTBEAT_THR rounds s)))"

section \<open>What the start achieves\<close>

lemma ActAsBalancer_Inr:
  "ActAsBalancer env host randInt now lib redis = (tr, Inr (s, redis')) \<longleftrightarrow>
     (\<exists>rpc ip grpc size. registerRPC host = None \<and> listenRPC host '':4321'' = Inr rpc \<and>
       GetMyIPAddr (interfaceAddrs host) = Some ip \<and> listenGRPC host (ip @ '':5432'') = Inr grpc \<and>
       balancerGetIntEnvironmentVariable env ''MAX_GRPC_MESSAGE_SIZE'' = Done size \<and>
       tr = [Go (ServeRPC rpc), Go (ServeGRPC grpc), Go CheckHeartbeat] \<and>
       s = balancingServer now (balancerGenerateUniqueRandomID randInt) \<and> redis' = seedUsers lib redis)"
  by (auto simp: ActAsBalancer_def setupRPC_def setUpGRPC_def startup ipOrError_def Let_def split: option.splits)

text \<open>What the database answers after users were put, when every \<^verbatim>\<open>Set\<close> succeeds.\<close>

lemma put_users:
  assumes "redisLaws lib" and "\<And>c k v db. \<exists>db'. redisSet lib c k v db = Inr db'"
  shows "lookupUser lib (fold (\<lambda>u s. snd (PutOnRedis lib u u s)) us s) u =
    (if u \<in> set us then Some u else lookupUser lib s u)"
proof (induction us arbitrary: s)
  case Nil
  then show ?case by simp
next
  case (Cons k us)
  obtain err s' where put: "PutOnRedis lib k k s = (err, s')" by (metis surj_pair)
  note st = PutOnRedis_state [OF put]
  have "err = None"
  proof -
    obtain db' where "redisSet lib (fst (getRedisClient lib (fst s))) k k (snd s) = Inr db'" using assms(2) by blast
    then show ?thesis using put by (simp add: PutOnRedis_def split: prod.splits)
  qed
  with st assms(1) have "redisGet lib (theClient lib (fst s')) u (snd s') =
      (if u = k then Inr k else redisGet lib (theClient lib (fst s)) u (snd s))"
    unfolding redisLaws_def by metis
  then have "lookupUser lib s' u = (if u = k then Some k else lookupUser lib s u)"
    by (simp add: lookupUser_get)
  with Cons.IH [of s'] put show ?case by auto
qed

text \<open>Failing calls leave the database as it is.\<close>

lemma put_users_down:
  assumes "\<And>c k v db. \<exists>err. redisSet lib c k v db = Inl err"
  shows "snd (fold (\<lambda>u s. snd (PutOnRedis lib u u s)) us s) = snd s"
proof (induction us arbitrary: s)
  case (Cons k us)
  obtain err where "redisSet lib (fst (getRedisClient lib (fst s))) k k (snd s) = Inl err" using assms by blast
  then have "snd (snd (PutOnRedis lib k k s)) = snd s" by (cases "getRedisClient lib (fst s)") (simp add: PutOnRedis_def)
  with Cons show ?case by simp
qed simp

section \<open>Properties\<close>

text \<open>C27: a load balancer that starts serves in a legal initial state, with a sequence number that the
  invariants of its runs allow, and once the database takes the four users, each of them logs in with their
  name as the password, and everybody else exactly as before the start.\<close>

theorem balancer_starts:
  assumes start: "ActAsBalancer env host randInt now lib redis = (tr, Inr (s, redis'))"
    and "redisLaws lib" and "\<And>c k v db. \<exists>db'. redisSet lib c k v db = Inr db'" and "uniformBelow randInt"
  shows "balancerRun B 0 s \<and> well_typed s \<and> (\<exists>rpc grpc. tr = [Go (ServeRPC rpc), Go (ServeGRPC grpc), Go CheckHeartbeat]) \<and>
    (\<forall>u p. UserLogin (lookupUser lib redis') u p \<longleftrightarrow>
      (if u \<in> {''edoardo'', ''andrea'', ''simone'', ''test''} then p = u else UserLogin (lookupUser lib redis) u p))"
proof -
  from start have s: "s = balancingServer now (balancerGenerateUniqueRandomID randInt)" and r: "redis' = seedUsers lib redis"
    and tr: "\<exists>rpc grpc. tr = [Go (ServeRPC rpc), Go (ServeGRPC grpc), Go CheckHeartbeat]"
    by (auto simp: ActAsBalancer_Inr)
  note id = balancerID_range [OF assms(4)]
  then have "balancerRun B 0 s" unfolding s by (intro balancerRun.start) auto
  moreover have "well_typed s" using id by (simp add: s well_typed_def balancingServer_def)
  moreover have "UserLogin (lookupUser lib redis') u p \<longleftrightarrow>
      (if u \<in> {''edoardo'', ''andrea'', ''simone'', ''test''} then p = u else UserLogin (lookupUser lib redis) u p)" for u p
    using put_users [OF assms(2,3), of "[''edoardo'', ''andrea'', ''simone'', ''test'']" redis u]
    by (simp add: r seedUsers_def UserLogin_def)
  ultimately show ?thesis using tr by blast
qed

definition demoRedis :: "(redisOptions, (string, string) gomap) redisLib" where
  "demoRedis = \<lparr>NewClient = (\<lambda>opt. opt), redisSet = (\<lambda>c k v db. Inr (fmupd k v db)),
     redisGet = (\<lambda>c k db. case fmlookup db k of None \<Rightarrow> Inl ''redis: nil'' | Some v \<Rightarrow> Inr v)\<rparr>"

definition demoHost :: balancerHost where
  "demoHost = \<lparr>interfaceAddrs = Some [\<lparr>isIPNet = True, isLoopback = False, isIPv4 = True, ipText = ''10.0.0.2''\<rparr>],
     registerRPC = None, listenRPC = Inr, listenGRPC = Inr\<rparr>"

definition demoSettings :: config where
  "demoSettings = fmupd ''MAX_GRPC_MESSAGE_SIZE'' ''7'' fmempty"

lemma demoSettings_size: "balancerGetIntEnvironmentVariable demoSettings ''MAX_GRPC_MESSAGE_SIZE'' = Done 7"
  by (simp add: demoSettings_def balancerGetIntEnvironmentVariable_def balancerGetEnvironmentVariable_def ParseInt_def
      parseNat_def digit_val_def wrap64_id)

theorem balancer_starts_witness:
  "\<exists>tr s redis'. ActAsBalancer demoSettings demoHost (\<lambda>m. if 5 < m then Some 5 else None) 0 demoRedis (None, fmempty) = (tr, Inr (s, redis')) \<and>
     UserLogin (lookupUser demoRedis redis') ''test'' ''test'' \<and> \<not> UserLogin (lookupUser demoRedis redis') ''test'' ''x''"
proof -
  obtain tr s redis' where start: "ActAsBalancer demoSettings demoHost (\<lambda>m. if 5 < m then Some 5 else None) 0 demoRedis (None, fmempty) =
      (tr, Inr (s, redis'))"
    using demoSettings_size by (simp add: ActAsBalancer_Inr demoHost_def GetMyIPAddr_def)
  have "redisLaws demoRedis" "\<And>c k v db. \<exists>db'. redisSet demoRedis c k v db = Inr db'"
    "uniformBelow (\<lambda>m. if 5 < m then Some 5 else None)"
    by (auto simp: demoRedis_def redisLaws_def uniformBelow_def split: if_splits)
  note res = balancer_starts [OF start this]
  have "UserLogin (lookupUser demoRedis redis') ''test'' ''test''" "\<not> UserLogin (lookupUser demoRedis redis') ''test'' ''x''"
    using res by simp_all
  with start show ?thesis by blast
qed

text \<open>The errors of the database are ignored at the start: when it cannot be reached the load balancer
  starts all the same, and then refuses every client.\<close>

theorem balancer_without_redis:
  assumes start: "ActAsBalancer env host randInt now lib redis = (tr, Inr (s, redis'))"
    and "\<And>c k v db. \<exists>err. redisSet lib c k v db = Inl err" and "\<And>c k db. \<exists>err. redisGet lib c k db = Inl err"
  shows "snd redis' = snd redis \<and>
    (\<forall>ks user t. GetEdge (lookupUser lib redis') ks user t = Done (Inl Unauthenticated, t) \<and> \<not> LoginClient (lookupUser lib redis') user)"
proof -
  have r: "redis' = seedUsers lib redis" using start by (auto simp: ActAsBalancer_Inr)
  have "snd redis' = snd redis"
    unfolding r seedUsers_def by (rule put_users_down) (rule assms(2))
  moreover have "lookupUser lib redis' u = None" for u
    using assms(3) [of "theClient lib (fst redis')" u "snd redis'"] by (auto simp: lookupUser_get)
  ultimately show ?thesis by (simp add: GetEdge_def LoginClient_def UserLogin_def)
qed

theorem balancer_without_redis_witness:
  "\<exists>tr s redis'. ActAsBalancer demoSettings demoHost (\<lambda>m. Some 5) 0
      \<lparr>NewClient = (\<lambda>opt. opt), redisSet = (\<lambda>c k v db. Inl ''refused''), redisGet = (\<lambda>c k db. Inl ''refused'')\<rparr> (None, ()) =
        (tr, Inr (s, redis')) \<and>
     \<not> LoginClient (lookupUser \<lparr>NewClient = (\<lambda>opt. opt), redisSet = (\<lambda>c k v db. Inl ''refused''), redisGet = (\<lambda>c k db. Inl ''refused'')\<rparr> redis')
         \<lparr>Username = ''test'', Passwd = ''test''\<rparr>"
proof -
  let ?lib = "\<lparr>NewClient = (\<lambda>opt. opt), redisSet = (\<lambda>c k v db. Inl ''refused''), redisGet = (\<lambda>c k db. Inl ''refused'')\<rparr>"
  have "\<exists>tr s redis'. ActAsBalancer demoSettings demoHost (\<lambda>m. Some 5) 0 ?lib (None, ()) = (tr, Inr (s, redis'))"
    using demoSettings_size by (simp add: ActAsBalancer_Inr demoHost_def GetMyIPAddr_def)
  then obtain tr s redis' where start: "ActAsBalancer demoSettings demoHost (\<lambda>m. Some 5) 0 ?lib (None, ()) = (tr, Inr (s, redis'))"
    by blast
  from balancer_without_redis [OF start] start show ?thesis by auto
qed



end
