(* ===== verification/Peers.thy ===== *)
theory Peers
  imports GoPrelude "HOL-Library.FSet" "HOL-Library.List_Lexorder" "HOL-Library.Char_ord"
begin

text \<open>
  The peers of the network. The registry (\<^verbatim>\<open>registry/services/registry_structs.go\<close>) and the edge program
  (\<^verbatim>\<open>edge/peer/peer_services.go\<close>) declare the same structure; peers are ordered by their address.
\<close>

datatype EdgePeer = EdgePeer (PeerAddr: string)

instantiation EdgePeer :: linorder
begin

definition less_eq_EdgePeer :: "EdgePeer \<Rightarrow> EdgePeer \<Rightarrow> bool" where
  "less_eq_EdgePeer p q \<longleftrightarrow> PeerAddr p \<le> PeerAddr q"

definition less_EdgePeer :: "EdgePeer \<Rightarrow> EdgePeer \<Rightarrow> bool" where
  "less_EdgePeer p q \<longleftrightarrow> PeerAddr p < PeerAddr q"

instance
  by intro_classes (auto simp: less_eq_EdgePeer_def less_EdgePeer_def EdgePeer.expand)

end

end
