(* ===== verification/RegistryGraph.thy ===== *)
theory RegistryGraph
  imports Peers
begin

text \<open>
  The network graph of the registry, \<^verbatim>\<open>registry/services/graph.go\<close>: it is assembled from the neighbour
  lists that the peers report, cleaned of dead peers, made undirected, and searched for connected
  components. The neighbour list of a peer is a Go map, which is nil (\<^term>\<open>None\<close>) when the peer's answer
  was an error; the bytes stored under its keys are always 0, so the map is the set of its keys.
\<close>

section \<open>Graphs\<close>

type_synonym Graph = "(EdgePeer, EdgePeer fset option) gomap"

text \<open>Ranging over a nil map visits nothing; reading the entry of a missing peer gives a nil map.\<close>

definition adjacents :: "Graph \<Rightarrow> EdgePeer \<Rightarrow> EdgePeer fset" where
  "adjacents g p = (case fmlookup g p of Some (Some ns) \<Rightarrow> ns | _ \<Rightarrow> {||})"

text \<open>The order in which a loop over the neighbours of a peer runs: any enumeration.\<close>

type_synonym visitOrder = "EdgePeer \<Rightarrow> EdgePeer fset \<Rightarrow> EdgePeer list"

definition good_order :: "visitOrder \<Rightarrow> bool" where
  "good_order ord \<longleftrightarrow> (\<forall>p S. distinct (ord p S) \<and> set (ord p S) = fset S)"

definition sorted_order :: visitOrder where
  "sorted_order p S = sorted_list_of_fset S"

lemma sorted_order_good [simp]: "good_order sorted_order"
  by (simp add: good_order_def sorted_order_def sorted_list_of_fset.rep_eq)

lemma good_orderD [simp]: "good_order ord \<Longrightarrow> set (ord p S) = fset S"
  by (simp add: good_order_def)

section \<open>Building the graph\<close>

text \<open>The answer to one \<^verbatim>\<open>GetNeighbours\<close> call, as the registry sees it.\<close>

datatype neighboursAnswer = Neighbours "EdgePeer fset" | CallError | TimedOut

definition AddNodeAndConnections :: "EdgePeer \<Rightarrow> EdgePeer fset option \<Rightarrow> Graph \<Rightarrow> Graph" where
  "AddNodeAndConnections node neighbours g = fmupd node neighbours g"

text \<open>A failed call leaves the reply pointer at a nil map, and the node is added all the same.\<close>

fun collectNeighbours :: "(EdgePeer \<Rightarrow> bool) \<Rightarrow> (EdgePeer \<Rightarrow> neighboursAnswer) \<Rightarrow> EdgePeer list \<Rightarrow> Graph \<Rightarrow> Graph" where
  "collectNeighbours hasHeartbeat answer [] g = g"
| "collectNeighbours hasHeartbeat answer (p # ps) g =
     collectNeighbours hasHeartbeat answer ps
       (if hasHeartbeat p
        then (case answer p of
            Neighbours ns \<Rightarrow> AddNodeAndConnections p (Some ns) g
          | CallError \<Rightarrow> AddNodeAndConnections p None g
          | TimedOut \<Rightarrow> g)
        else g)"

text \<open>Deleting the dead keys while ranging over a map keeps exactly the live ones, in any order.\<close>

definition removeDead :: "(EdgePeer \<Rightarrow> bool) \<Rightarrow> Graph \<Rightarrow> Graph" where
  "removeDead hasHeartbeat g = fmmap (map_option (ffilter hasHeartbeat)) g"

fun mirrorEdges :: "EdgePeer \<Rightarrow> EdgePeer list \<Rightarrow> Graph \<Rightarrow> Graph outcome" where
  "mirrorEdges node [] g = Done g"
| "mirrorEdges node (adj # adjs) g =
     (case fmlookup g adj of
        None \<Rightarrow> mirrorEdges node adjs g
      | Some None \<Rightarrow> Panicked
      | Some (Some ns) \<Rightarrow> mirrorEdges node adjs (fmupd adj (Some (finsert node ns)) g))"

fun makeUndirected :: "visitOrder \<Rightarrow> EdgePeer list \<Rightarrow> Graph \<Rightarrow> Graph outcome" where
  "makeUndirected ord [] g = Done g"
| "makeUndirected ord (node # nodes) g =
     and_then (mirrorEdges node (ord node (adjacents g node)) g) (makeUndirected ord nodes)"

definition buildGraph :: "visitOrder \<Rightarrow> EdgePeer list \<Rightarrow> (EdgePeer \<Rightarrow> bool) \<Rightarrow> (EdgePeer \<Rightarrow> neighboursAnswer) \<Rightarrow>
    EdgePeer list \<Rightarrow> Graph outcome" where
  "buildGraph ord nodes hasHeartbeat answer peers =
     makeUndirected ord nodes (removeDead hasHeartbeat (collectNeighbours hasHeartbeat answer peers fmempty))"

section \<open>Connected components\<close>

text \<open>
  The depth-first search of the code. The visited map has the nodes of the graph as its keys; the
  model keeps the set of the nodes marked true. \<open>visitNeighbours\<close> is the loop over the neighbours of
  one call; the found peers of the recursive calls are appended, the neighbour itself never is.
\<close>

function visitNeighbours :: "Graph \<Rightarrow> visitOrder \<Rightarrow> EdgePeer list \<Rightarrow> EdgePeer fset \<Rightarrow> EdgePeer list \<times> EdgePeer fset" where
  "visitNeighbours g ord [] visited = ([], visited)"
| "visitNeighbours g ord (neighbour # ns) visited =
     (if neighbour |\<notin>| visited \<and> neighbour |\<in>| fmdom g
      then let (neighboursOfNeighbour, visited1) =
             visitNeighbours g ord (ord neighbour (adjacents g neighbour)) (finsert neighbour visited);
           (foundPeers, visited2) = visitNeighbours g ord ns visited1
         in (neighboursOfNeighbour @ foundPeers, visited2)
      else visitNeighbours g ord ns visited)"
  by pat_completeness auto

lemma visitNeighbours_grows_dom:
  "visitNeighbours_dom (g, ord, ns, visited) \<Longrightarrow> visited |\<subseteq>| snd (visitNeighbours g ord ns visited)"
proof (induction rule: visitNeighbours.pinduct)
  case (1 g ord visited)
  then show ?case by (simp add: visitNeighbours.psimps)
next
  case (2 g ord n ns visited)
  show ?case
  proof (cases "n |\<notin>| visited \<and> n |\<in>| fmdom g")
    case True
    obtain f1 v1 where r: "visitNeighbours g ord (ord n (adjacents g n)) (finsert n visited) = (f1, v1)"
      by (cases "visitNeighbours g ord (ord n (adjacents g n)) (finsert n visited)")
    with 2 True have "visited |\<subseteq>| v1" "v1 |\<subseteq>| snd (visitNeighbours g ord ns v1)" by auto
    with 2(1) True r show ?thesis
      by (auto simp: visitNeighbours.psimps split: prod.splits)
  next
    case False
    with 2 show ?thesis by (auto simp: visitNeighbours.psimps)
  qed
qed

termination visitNeighbours
proof (relation "measures [\<lambda>(g, ord, ns, visited). fcard (fmdom g |-| visited), \<lambda>(g, ord, ns, visited). length ns]")
  fix g :: Graph and ord :: visitOrder and n ns and visited :: "EdgePeer fset"
  assume n: "n |\<notin>| visited \<and> n |\<in>| fmdom g"
  then have less: "fmdom g |-| finsert n visited |\<subset>| fmdom g |-| visited" by auto
  then show "((g, ord, ord n (adjacents g n), finsert n visited), (g, ord, n # ns, visited))
    \<in> measures [\<lambda>(g, ord, ns, visited). fcard (fmdom g |-| visited), \<lambda>(g, ord, ns, visited). length ns]"
    by (simp add: pfsubset_fcard_mono)
  fix x f1 v1
  assume "x = visitNeighbours g ord (ord n (adjacents g n)) (finsert n visited)" "(f1, v1) = x"
    "visitNeighbours_dom (g, ord, ord n (adjacents g n), finsert n visited)"
  with visitNeighbours_grows_dom have "finsert n visited |\<subseteq>| v1" by (metis snd_conv)
  then have "fmdom g |-| v1 |\<subseteq>| fmdom g |-| finsert n visited" by auto
  with less have "fmdom g |-| v1 |\<subset>| fmdom g |-| visited" by auto
  then show "((g, ord, ns, v1), (g, ord, n # ns, visited))
    \<in> measures [\<lambda>(g, ord, ns, visited). fcard (fmdom g |-| visited), \<lambda>(g, ord, ns, visited). length ns]"
    by (simp add: pfsubset_fcard_mono)
qed auto

definition recursiveConnectedComponentsResearch ::
  "Graph \<Rightarrow> visitOrder \<Rightarrow> EdgePeer \<Rightarrow> EdgePeer fset \<Rightarrow> EdgePeer list \<times> EdgePeer fset" where
  "recursiveConnectedComponentsResearch g ord peer visited =
     visitNeighbours g ord (ord peer (adjacents g peer)) (finsert peer visited)"

fun componentsLoop :: "Graph \<Rightarrow> visitOrder \<Rightarrow> EdgePeer list \<Rightarrow> EdgePeer fset \<Rightarrow> EdgePeer list list" where
  "componentsLoop g ord [] visited = []"
| "componentsLoop g ord (peer # peers) visited =
     (if peer |\<in>| visited then componentsLoop g ord peers visited
      else let (foundPeers, visited1) = recursiveConnectedComponentsResearch g ord peer visited
        in (foundPeers @ [peer]) # componentsLoop g ord peers visited1)"

definition FindConnectedComponents :: "Graph \<Rightarrow> visitOrder \<Rightarrow> EdgePeer list \<Rightarrow> EdgePeer list list" where
  "FindConnectedComponents g ord peers = componentsLoop g ord peers {||}"


section \<open>The depth-first search visits what is reachable\<close>

definition edge :: "Graph \<Rightarrow> EdgePeer \<Rightarrow> EdgePeer \<Rightarrow> bool" where
  "edge g p q \<longleftrightarrow> q |\<in>| adjacents g p \<and> q |\<in>| fmdom g"

abbreviation connects :: "Graph \<Rightarrow> EdgePeer \<Rightarrow> EdgePeer \<Rightarrow> bool" where
  "connects g \<equiv> (edge g)\<^sup>*\<^sup>*"

definition visits :: "Graph \<Rightarrow> EdgePeer list \<Rightarrow> EdgePeer fset \<Rightarrow> EdgePeer fset \<Rightarrow> bool" where
  "visits g ns v w \<longleftrightarrow> v |\<subseteq>| w \<and> (\<forall>n\<in>set ns. n |\<in>| fmdom g \<longrightarrow> n |\<in>| w) \<and>
     (\<forall>x. x |\<in>| w \<and> x |\<notin>| v \<longrightarrow> (\<exists>n\<in>set ns. n |\<in>| fmdom g \<and> connects g n x) \<and> (\<forall>y. edge g x y \<longrightarrow> y |\<in>| w))"

lemma visitNeighbours_visits:
  assumes "good_order ord"
  shows "fst (visitNeighbours g ord ns v) = [] \<and> visits g ns v (snd (visitNeighbours g ord ns v))"
  using assms
proof (induction g ord ns v rule: visitNeighbours.induct)
  case (1 g ord v)
  then show ?case by (simp add: visits_def)
next
  case (2 g ord n ns v)
  show ?case
  proof (cases "n |\<notin>| v \<and> n |\<in>| fmdom g")
    case True
    obtain f1 v1 where r1: "visitNeighbours g ord (ord n (adjacents g n)) (finsert n v) = (f1, v1)"
      by (cases "visitNeighbours g ord (ord n (adjacents g n)) (finsert n v)")
    obtain f2 v2 where r2: "visitNeighbours g ord ns v1 = (f2, v2)"
      by (cases "visitNeighbours g ord ns v1")
    have i1: "f1 = []" "visits g (ord n (adjacents g n)) (finsert n v) v1"
      using 2(1) [OF True 2(4)] r1 by simp_all
    have i2: "f2 = []" "visits g ns v1 v2"
      using 2(2) [OF True r1 [symmetric] refl 2(4)] r2 by simp_all
    have sub: "finsert n v |\<subseteq>| v1" "v1 |\<subseteq>| v2" using i1 i2 by (auto simp: visits_def)
    have succ: "y |\<in>| v1" if "edge g n y" for y
      using i1(2) that 2(4) by (auto simp: visits_def edge_def)
    have new: "(\<exists>m\<in>set (n # ns). m |\<in>| fmdom g \<and> connects g m x) \<and> (\<forall>y. edge g x y \<longrightarrow> y |\<in>| v2)"
      if x: "x |\<in>| v2" "x |\<notin>| v" for x
    proof -
      consider "x = n" | "x |\<in>| v1" "x |\<notin>| finsert n v" | "x |\<notin>| v1" using x by auto
      then show ?thesis
      proof cases
        case 1
        with succ sub True show ?thesis by auto
      next
        case 2
        then obtain m where m: "m |\<in>| adjacents g n" "m |\<in>| fmdom g" "connects g m x"
          and closed: "\<forall>y. edge g x y \<longrightarrow> y |\<in>| v1"
          using i1(2) \<open>good_order ord\<close> by (auto simp: visits_def)
        then have "connects g n x" by (simp add: edge_def converse_rtranclp_into_rtranclp)
        with closed sub True show ?thesis by auto
      next
        case 3
        with x i2(2) show ?thesis by (auto simp: visits_def)
      qed
    qed
    have "\<forall>m\<in>set (n # ns). m |\<in>| fmdom g \<longrightarrow> m |\<in>| v2"
      using i2(2) sub by (auto simp: visits_def)
    moreover have "v |\<subseteq>| v2" using sub by auto
    ultimately have "visits g (n # ns) v v2" using new unfolding visits_def by blast
    with True r1 r2 i1 i2 show ?thesis by simp
  next
    case False
    with 2(3) [OF False 2(4)] show ?thesis by (auto simp: visits_def)
  qed
qed

section \<open>One representative per component\<close>

definition closed_set :: "Graph \<Rightarrow> EdgePeer fset \<Rightarrow> bool" where
  "closed_set g v \<longleftrightarrow> (\<forall>x y. x |\<in>| v \<and> edge g x y \<longrightarrow> y |\<in>| v)"

lemma closed_set_connects: "connects g x y \<Longrightarrow> closed_set g v \<Longrightarrow> x |\<in>| v \<Longrightarrow> y |\<in>| v"
  by (induction rule: rtranclp_induct) (auto simp: closed_set_def)

lemma research_reaches:
  assumes ord: "good_order ord" and cl: "closed_set g v"
    and r: "recursiveConnectedComponentsResearch g ord p v = (f, w)"
  shows "f = [] \<and> closed_set g w \<and> (\<forall>x. x |\<in>| w \<longleftrightarrow> x |\<in>| v \<or> connects g p x)"
proof -
  let ?ns = "ord p (adjacents g p)"
  have f: "f = []" and vis: "visits g ?ns (finsert p v) w"
    using visitNeighbours_visits [OF ord, of g ?ns "finsert p v"] r
    by (simp_all add: recursiveConnectedComponentsResearch_def)
  have nb: "y |\<in>| w" if "edge g p y" for y
    using vis that ord by (auto simp: visits_def edge_def)
  have closed: "closed_set g w"
    unfolding closed_set_def
  proof (intro allI impI)
    fix x y assume xy: "x |\<in>| w \<and> edge g x y"
    consider "x = p" | "x |\<in>| v" | "x |\<notin>| finsert p v" by auto
    then show "y |\<in>| w"
    proof cases
      case 1
      with xy nb show ?thesis by simp
    next
      case 2
      with xy cl have "y |\<in>| v" by (auto simp: closed_set_def)
      with vis show ?thesis by (auto simp: visits_def)
    next
      case 3
      with xy vis show ?thesis by (auto simp: visits_def)
    qed
  qed
  have "x |\<in>| v \<or> connects g p x" if x: "x |\<in>| w" for x
  proof (cases "x |\<in>| finsert p v")
    case False
    with vis x ord obtain n where "n |\<in>| adjacents g p" "n |\<in>| fmdom g" "connects g n x"
      by (auto simp: visits_def)
    then show ?thesis by (simp add: edge_def converse_rtranclp_into_rtranclp)
  qed auto
  moreover have "p |\<in>| w" "v |\<subseteq>| w" using vis by (auto simp: visits_def)
  ultimately show ?thesis using f closed closed_set_connects [OF _ closed] by blast
qed

lemma componentsLoop_representatives:
  assumes "good_order ord" and "closed_set g v"
  shows "\<exists>reps. componentsLoop g ord ps v = map (\<lambda>p. [p]) reps \<and> distinct reps \<and> set reps \<subseteq> set ps - fset v \<and>
    (\<forall>p\<in>set ps. p |\<in>| v \<or> (\<exists>r\<in>set reps. connects g r p)) \<and>
    sorted_wrt (\<lambda>r s. \<not> connects g r s) reps"
  using assms(2)
proof (induction ps arbitrary: v)
  case Nil
  then show ?case by (intro exI [of _ "[]"]) simp
next
  case (Cons p ps)
  show ?case
  proof (cases "p |\<in>| v")
    case True
    from Cons.IH [OF Cons.prems] obtain reps where
      "componentsLoop g ord ps v = map (\<lambda>p. [p]) reps" "distinct reps" "set reps \<subseteq> set ps - fset v"
      "\<forall>p\<in>set ps. p |\<in>| v \<or> (\<exists>r\<in>set reps. connects g r p)" "sorted_wrt (\<lambda>r s. \<not> connects g r s) reps"
      by blast
    with True show ?thesis by (intro exI [of _ reps]) auto
  next
    case False
    obtain f w where r: "recursiveConnectedComponentsResearch g ord p v = (f, w)"
      by (cases "recursiveConnectedComponentsResearch g ord p v")
    have f: "f = []" and cw: "closed_set g w" and w: "\<And>x. x |\<in>| w \<longleftrightarrow> x |\<in>| v \<or> connects g p x"
      using research_reaches [OF assms(1) Cons.prems r] by auto
    from Cons.IH [OF cw] obtain reps where
      reps: "componentsLoop g ord ps w = map (\<lambda>p. [p]) reps" "distinct reps" "set reps \<subseteq> set ps - fset w"
      "\<forall>p\<in>set ps. p |\<in>| w \<or> (\<exists>r\<in>set reps. connects g r p)" "sorted_wrt (\<lambda>r s. \<not> connects g r s) reps"
      by blast
    have "componentsLoop g ord (p # ps) v = map (\<lambda>p. [p]) (p # reps)"
      using False r f reps(1) by simp
    moreover have "distinct (p # reps)" using reps(2,3) w by auto
    moreover have "set (p # reps) \<subseteq> set (p # ps) - fset v" using reps(3) w False by auto
    moreover have "\<forall>q\<in>set (p # ps). q |\<in>| v \<or> (\<exists>r\<in>set (p # reps). connects g r q)"
      using reps(4) w by auto
    moreover have "sorted_wrt (\<lambda>r s. \<not> connects g r s) (p # reps)" using reps(3,5) w by auto
    ultimately show ?thesis by blast
  qed
qed

definition undirected :: "Graph \<Rightarrow> bool" where
  "undirected g \<longleftrightarrow> (\<forall>p q. p |\<in>| fmdom g \<longrightarrow> edge g p q \<longrightarrow> edge g q p)"

lemma edge_dom: "edge g p q \<Longrightarrow> p |\<in>| fmdom g \<and> q |\<in>| fmdom g"
  by (auto simp: edge_def adjacents_def intro: fmdomI split: option.splits)

lemma connects_sym:
  assumes "undirected g" and "connects g p q"
  shows "connects g q p"
  using assms(2)
proof (induction rule: rtranclp_induct)
  case base
  then show ?case by simp
next
  case (step q r)
  then have "edge g r q" using assms(1) edge_dom unfolding undirected_def by blast
  from this step.IH show ?case by (rule converse_rtranclp_into_rtranclp)
qed

lemma components_representatives:
  assumes ord: "good_order ord" and ps: "enumerates ps g" and g: "undirected g"
  obtains reps where "FindConnectedComponents g ord ps = map (\<lambda>p. [p]) reps"
    and "distinct reps" and "set reps \<subseteq> fmdom' g"
    and "\<And>p. p |\<in>| fmdom g \<Longrightarrow> \<exists>!r. r \<in> set reps \<and> connects g r p"
proof -
  have "closed_set g {||}" by (simp add: closed_set_def)
  from componentsLoop_representatives [OF ord this, of ps] obtain reps where
    reps: "componentsLoop g ord ps {||} = map (\<lambda>p. [p]) reps" "distinct reps" "set reps \<subseteq> set ps"
    "\<forall>p\<in>set ps. \<exists>r\<in>set reps. connects g r p" and apart: "sorted_wrt (\<lambda>r s. \<not> connects g r s) reps"
    by auto
  have unique: "r = s" if "r \<in> set reps" "s \<in> set reps" "connects g r s" for r s
  proof -
    from that obtain i j where ij: "i < length reps" "j < length reps" "r = reps ! i" "s = reps ! j"
      by (auto simp: in_set_conv_nth)
    with apart that(3) connects_sym [OF g that(3)] have "\<not> i < j" "\<not> j < i"
      by (auto simp: sorted_wrt_iff_nth_less)
    with ij show ?thesis by simp
  qed
  show thesis
  proof (rule that [of reps])
    show "FindConnectedComponents g ord ps = map (\<lambda>p. [p]) reps"
      using reps(1) by (simp add: FindConnectedComponents_def)
    show "set reps \<subseteq> fmdom' g" using reps(3) ps by (simp add: enumerates_def)
    show "\<exists>!r. r \<in> set reps \<and> connects g r p" if p: "p |\<in>| fmdom g" for p
    proof -
      have "p \<in> set ps" using p ps by (simp add: enumerates_def fmdom'_alt_def)
      with reps(4) obtain r where "r \<in> set reps" "connects g r p" by blast
      moreover have "s = r" if "s \<in> set reps" "connects g s p" for s
        using unique [OF \<open>r \<in> set reps\<close> that(1)] connects_sym [OF g that(2)] \<open>connects g r p\<close>
        by (metis rtranclp_trans)
      ultimately show ?thesis by blast
    qed
  qed (rule reps(2))
qed


section \<open>The graph that is built\<close>

definition no_nil :: "Graph \<Rightarrow> bool" where
  "no_nil g \<longleftrightarrow> (\<forall>p. fmlookup g p \<noteq> Some None)"

lemma mirrorEdges_result:
  assumes "no_nil g"
  shows "\<exists>g'. mirrorEdges node adjs g = Done g' \<and> no_nil g' \<and> fmdom g' = fmdom g \<and>
    (\<forall>q. adjacents g' q = (if q \<in> set adjs \<and> q |\<in>| fmdom g then finsert node (adjacents g q) else adjacents g q))"
  using assms
proof (induction adjs arbitrary: g)
  case Nil
  then show ?case by simp
next
  case (Cons a adjs)
  show ?case
  proof (cases "fmlookup g a")
    case None
    then have "a |\<notin>| fmdom g" by (simp add: fmdom_notI)
    with None Cons show ?thesis by fastforce
  next
    case (Some n)
    with Cons.prems obtain ns where ns: "fmlookup g a = Some (Some ns)"
      by (cases n) (auto simp: no_nil_def)
    let ?g = "fmupd a (Some (finsert node ns)) g"
    have dom: "fmdom ?g = fmdom g" using ns by (simp add: fmdomI finsert_absorb)
    have adj: "adjacents ?g q = (if q = a then finsert node (adjacents g q) else adjacents g q)" for q
      using ns by (simp add: adjacents_def)
    have nn: "no_nil ?g" using Cons.prems by (simp add: no_nil_def)
    from Cons.IH [OF nn] obtain g' where g': "mirrorEdges node adjs ?g = Done g'" "no_nil g'"
      "fmdom g' = fmdom g"
      "\<And>q. adjacents g' q = (if q \<in> set adjs \<and> q |\<in>| fmdom g then finsert node (adjacents ?g q) else adjacents ?g q)"
      unfolding dom by blast
    have "a |\<in>| fmdom g" using ns by (rule fmdomI)
    then have "adjacents g' q = (if q \<in> set (a # adjs) \<and> q |\<in>| fmdom g then finsert node (adjacents g q) else adjacents g q)" for q
      by (auto simp: g'(4) adj)
    with g'(1-3) ns show ?thesis by simp
  qed
qed

text \<open>What the adjacency of \<open>q\<close> is once the nodes of \<open>D\<close> have been mirrored.\<close>

definition mirrored :: "Graph \<Rightarrow> EdgePeer set \<Rightarrow> Graph \<Rightarrow> bool" where
  "mirrored g0 D g \<longleftrightarrow> no_nil g \<and> fmdom g = fmdom g0 \<and>
     (\<forall>q x. x |\<in>| adjacents g q \<longleftrightarrow>
       x |\<in>| adjacents g0 q \<or> q |\<in>| fmdom g0 \<and> x \<in> D \<and> x |\<in>| fmdom g0 \<and> q |\<in>| adjacents g0 x)"

lemma mirrored_step:
  assumes m: "mirrored g0 D g" and ord: "good_order ord" and n: "n |\<in>| fmdom g0"
  obtains g' where "mirrorEdges n (ord n (adjacents g n)) g = Done g'" and "mirrored g0 (insert n D) g'"
proof -
  from m have nn: "no_nil g" and dom: "fmdom g = fmdom g0"
    and adj: "\<And>q x. x |\<in>| adjacents g q \<longleftrightarrow>
       x |\<in>| adjacents g0 q \<or> q |\<in>| fmdom g0 \<and> x \<in> D \<and> x |\<in>| fmdom g0 \<and> q |\<in>| adjacents g0 x"
    by (auto simp: mirrored_def)
  from mirrorEdges_result [OF nn, of n "ord n (adjacents g n)"] obtain g' where
    g': "mirrorEdges n (ord n (adjacents g n)) g = Done g'" "no_nil g'" "fmdom g' = fmdom g0"
    and a: "\<And>q. adjacents g' q = (if q |\<in>| adjacents g n \<and> q |\<in>| fmdom g0 then finsert n (adjacents g q) else adjacents g q)"
    using ord dom by auto
  have "mirrored g0 (insert n D) g'"
    unfolding mirrored_def
  proof (intro conjI allI)
    show "no_nil g'" "fmdom g' = fmdom g0" by (rule g')+
    fix q x
    show "x |\<in>| adjacents g' q \<longleftrightarrow> x |\<in>| adjacents g0 q \<or>
        q |\<in>| fmdom g0 \<and> x \<in> insert n D \<and> x |\<in>| fmdom g0 \<and> q |\<in>| adjacents g0 x"
      using n by (auto simp: a adj split: if_splits)
  qed
  with g'(1) that show thesis by blast
qed

lemma makeUndirected_mirrors:
  assumes "good_order ord" and "mirrored g0 D g" and "set nodes \<subseteq> fset (fmdom g0)"
  shows "\<exists>g'. makeUndirected ord nodes g = Done g' \<and> mirrored g0 (D \<union> set nodes) g'"
  using assms(2,3)
proof (induction nodes arbitrary: D g)
  case Nil
  then show ?case by simp
next
  case (Cons n nodes)
  then have "n |\<in>| fmdom g0" by simp
  from mirrored_step [OF Cons.prems(1) assms(1) this] obtain g1 where
    "mirrorEdges n (ord n (adjacents g n)) g = Done g1" "mirrored g0 (insert n D) g1" by blast
  with Cons.IH [of "insert n D" g1] Cons.prems(2) show ?case by simp
qed

lemma fmdom_removeDead [simp]: "fmdom (removeDead hb g) = fmdom g"
  by (simp add: removeDead_def)

lemma collectNeighbours_lookup:
  assumes "distinct ps"
  shows "fmlookup (collectNeighbours hb answer ps g) p =
    (if p \<in> set ps \<and> hb p
     then (case answer p of Neighbours ns \<Rightarrow> Some (Some ns) | CallError \<Rightarrow> Some None | TimedOut \<Rightarrow> fmlookup g p)
     else fmlookup g p)"
  using assms
  by (induction ps arbitrary: g) (auto simp: AddNodeAndConnections_def split: neighboursAnswer.splits)

text \<open>When every live peer answers or times out, the graph is the undirected graph of the answers.\<close>

lemma buildGraph_undirected:
  assumes ord: "good_order ord" and ps: "distinct peers"
    and nodes: "set nodes = {p. p \<in> set peers \<and> hb p \<and> answer p \<noteq> TimedOut}"
    and ok: "\<forall>p\<in>set peers. hb p \<longrightarrow> answer p \<noteq> CallError"
  shows "\<exists>g. buildGraph ord nodes hb answer peers = Done g \<and> no_nil g \<and> fmdom' g = set nodes \<and> undirected g \<and>
    (\<forall>p q. edge g p q \<longleftrightarrow> p \<in> set nodes \<and> q \<in> set nodes \<and>
      ((\<exists>ns. answer p = Neighbours ns \<and> q |\<in>| ns) \<or> (\<exists>ns. answer q = Neighbours ns \<and> p |\<in>| ns))) \<and>
    (\<forall>p q. q |\<in>| adjacents g p \<longrightarrow> hb q)"
proof -
  let ?g0 = "removeDead hb (collectNeighbours hb answer peers fmempty)"
  have look: "fmlookup ?g0 p = (if p \<in> set nodes
      then (case answer p of Neighbours ns \<Rightarrow> Some (Some (ffilter hb ns)) | _ \<Rightarrow> None) else None)" for p
    using ok by (auto simp: removeDead_def collectNeighbours_lookup [OF ps] nodes split: neighboursAnswer.splits)
  have mem: "p \<in> set nodes \<longleftrightarrow> (\<exists>ns. p \<in> set peers \<and> hb p \<and> answer p = Neighbours ns)" for p
    using ok by (cases "answer p") (auto simp: nodes)
  have dom: "p |\<in>| fmdom ?g0 \<longleftrightarrow> p \<in> set nodes" for p
    unfolding fmlookup_dom_iff look mem by auto
  have nn: "no_nil ?g0" using look by (auto simp: no_nil_def split: neighboursAnswer.splits)
  have adj: "q |\<in>| adjacents ?g0 p \<longleftrightarrow> p \<in> set nodes \<and> hb q \<and> (\<exists>ns. answer p = Neighbours ns \<and> q |\<in>| ns)" for p q
    by (auto simp: adjacents_def look split: neighboursAnswer.splits)
  have "mirrored ?g0 {} ?g0" using nn by (simp add: mirrored_def)
  from makeUndirected_mirrors [OF ord this, of nodes] dom obtain g where
    g: "buildGraph ord nodes hb answer peers = Done g" and m: "mirrored ?g0 (set nodes) g"
    by (auto simp: buildGraph_def subset_iff)
  have domg: "fmdom g = fmdom ?g0" using m by (simp add: mirrored_def)
  have edges: "edge g p q \<longleftrightarrow> p \<in> set nodes \<and> q \<in> set nodes \<and>
      ((\<exists>ns. answer p = Neighbours ns \<and> q |\<in>| ns) \<or> (\<exists>ns. answer q = Neighbours ns \<and> p |\<in>| ns))" for p q
    using m dom adj mem unfolding edge_def domg by (auto simp: mirrored_def)
  then have "undirected g" by (auto simp: undirected_def)
  moreover have "no_nil g" using m by (simp add: mirrored_def)
  moreover have "fmdom' g = set nodes" using dom domg by (auto simp: fmdom'_alt_def)
  moreover have "\<forall>p q. q |\<in>| adjacents g p \<longrightarrow> hb q"
    using m adj by (auto simp: mirrored_def nodes)
  ultimately show ?thesis using g edges by blast
qed

text \<open>A nil neighbour map under a peer that another one reports makes the construction panic.\<close>

lemma mirrorEdges_cases:
  "mirrorEdges node adjs g = Panicked \<or>
   (\<exists>g'. mirrorEdges node adjs g = Done g' \<and> (\<forall>q. fmlookup g q = Some None \<longrightarrow> fmlookup g' q = Some None) \<and>
     (\<forall>q. adjacents g q |\<subseteq>| adjacents g' q) \<and> (\<forall>q\<in>set adjs. fmlookup g q \<noteq> Some None))"
proof (induction adjs arbitrary: g)
  case Nil
  then show ?case by simp
next
  case (Cons a adjs)
  show ?case
  proof (cases "fmlookup g a")
    case None
    with Cons [of g] show ?thesis by auto
  next
    case (Some n)
    show ?thesis
    proof (cases n)
      case None
      with Some show ?thesis by simp
    next
      case (Some ns)
      let ?g = "fmupd a (Some (finsert node ns)) g"
      have a: "fmlookup g a = Some (Some ns)" using \<open>fmlookup g a = Some n\<close> Some by simp
      then have step: "mirrorEdges node (a # adjs) g = mirrorEdges node adjs ?g" by simp
      from Cons [of ?g] consider "mirrorEdges node adjs ?g = Panicked"
        | g' where "mirrorEdges node adjs ?g = Done g'" "\<forall>q. fmlookup ?g q = Some None \<longrightarrow> fmlookup g' q = Some None"
          "\<forall>q. adjacents ?g q |\<subseteq>| adjacents g' q" "\<forall>q\<in>set adjs. fmlookup ?g q \<noteq> Some None" by blast
      then show ?thesis
      proof cases
        case 1
        with step show ?thesis by simp
      next
        case 2
        have "adjacents g q |\<subseteq>| adjacents ?g q" for q using a by (auto simp: adjacents_def)
        with 2(3) have "\<forall>q. adjacents g q |\<subseteq>| adjacents g' q" by (meson fsubset_trans order_trans)
        moreover have "\<forall>q. fmlookup g q = Some None \<longrightarrow> fmlookup g' q = Some None"
          using 2(2) a by (metis fmupd_lookup option.inject option.distinct(1))
        moreover have "\<forall>q\<in>set (a # adjs). fmlookup g q \<noteq> Some None"
          using 2(4) a by (auto split: if_splits)
        ultimately show ?thesis using step 2(1) by simp
      qed
    qed
  qed
qed

lemma makeUndirected_panics:
  assumes "good_order ord" and "p \<in> set nodes" and "fmlookup g q = Some None" and "q |\<in>| adjacents g p"
  shows "makeUndirected ord nodes g = Panicked"
  using assms(2-4)
proof (induction nodes arbitrary: g)
  case Nil
  then show ?case by simp
next
  case (Cons n nodes)
  from mirrorEdges_cases [of n "ord n (adjacents g n)" g]
  consider "mirrorEdges n (ord n (adjacents g n)) g = Panicked"
    | g' where "mirrorEdges n (ord n (adjacents g n)) g = Done g'" "fmlookup g' q = Some None"
      "q |\<in>| adjacents g' p" "\<forall>x. x |\<in>| adjacents g n \<longrightarrow> fmlookup g x \<noteq> Some None"
    using Cons.prems(2,3) assms(1) by fastforce
  then show ?case
  proof cases
    case 2
    then have "n \<noteq> p" using Cons.prems by blast
    with 2 Cons.IH [of g'] Cons.prems(1) show ?thesis by simp
  qed simp
qed

end
