(* ===== verification/Registry.thy ===== *)
theory Registry
  imports RegistryGraph Liveness
begin

text \<open>
  The registry, \<^verbatim>\<open>registry/services\<close>: peers that enter and send heartbeats, the sweep over dead peers,
  and the monitor that rebuilds the network graph and links its components. A connection is usable or
  shut down. The answers of the network, the random numbers and the iteration orders of one round of
  the monitor are collected in a record.
\<close>

section \<open>State\<close>

record RegistryService =
  connections :: "(EdgePeer, bool) gomap"
  heartbeatCheckTime :: int
  heartbeats :: "(EdgePeer, int) gomap"

definition newRegistryService :: "int \<Rightarrow> RegistryService" where
  "newRegistryService now = \<lparr>connections = fmempty, heartbeatCheckTime = now, heartbeats = fmempty\<rparr>"

definition connectToNode :: "(EdgePeer \<Rightarrow> bool) \<Rightarrow> EdgePeer \<Rightarrow> bool option" where
  "connectToNode dial edgePeer = (if dial edgePeer then Some True else None)"

definition existsEdge :: "rat \<Rightarrow> rat \<Rightarrow> bool" where
  "existsEdge RAND_THR randomNumber \<longleftrightarrow> RAND_THR < randomNumber"

section \<open>Peers\<close>

fun neighboursLoop :: "(EdgePeer \<Rightarrow> bool) \<Rightarrow> EdgePeer \<Rightarrow> EdgePeer list \<Rightarrow> bool \<Rightarrow> EdgePeer fset \<Rightarrow> EdgePeer fset" where
  "neighboursLoop edgeDrawn edgePeer [] createdEdge neighboursList = neighboursList"
| "neighboursLoop edgeDrawn edgePeer (peer # ps) createdEdge neighboursList =
     (if peer = edgePeer then neighboursLoop edgeDrawn edgePeer ps createdEdge neighboursList
      else let thereIsEdge = (if \<not> createdEdge then True else edgeDrawn peer) in
        if thereIsEdge then neighboursLoop edgeDrawn edgePeer ps True (finsert peer neighboursList)
        else neighboursLoop edgeDrawn edgePeer ps createdEdge neighboursList)"

definition findNeighboursForPeer :: "(EdgePeer \<Rightarrow> bool) \<Rightarrow> EdgePeer list \<Rightarrow> EdgePeer \<Rightarrow> EdgePeer fset" where
  "findNeighboursForPeer edgeDrawn ks edgePeer = neighboursLoop edgeDrawn edgePeer ks False {||}"

text \<open>The result is the error flag (\<open>None\<close>: the connection to the peer failed) or the neighbours.\<close>

definition PeerEnter :: "(EdgePeer \<Rightarrow> bool) \<Rightarrow> (EdgePeer \<Rightarrow> bool) \<Rightarrow> EdgePeer list \<Rightarrow> int \<Rightarrow> EdgePeer \<Rightarrow>
    RegistryService \<Rightarrow> EdgePeer fset option \<times> RegistryService" where
  "PeerEnter dial edgeDrawn ks now edgePeer r =
     (case connectToNode dial edgePeer of
        None \<Rightarrow> (None, r)
      | Some peerConnection \<Rightarrow>
          (Some (findNeighboursForPeer edgeDrawn ks edgePeer),
           r\<lparr>connections := fmupd edgePeer peerConnection (connections r),
             heartbeats := fmupd edgePeer now (heartbeats r)\<rparr>))"

definition Heartbeat :: "(EdgePeer \<Rightarrow> bool) \<Rightarrow> int \<Rightarrow> EdgePeer \<Rightarrow> RegistryService \<Rightarrow> bool \<times> RegistryService" where
  "Heartbeat dial now edgePeer r =
     (if fmlookup (heartbeats r) edgePeer = None
      then (case connectToNode dial edgePeer of
          None \<Rightarrow> (False, r)
        | Some peerConn \<Rightarrow>
            (True, r\<lparr>connections := fmupd edgePeer peerConn (connections r),
               heartbeats := fmupd edgePeer now (heartbeats r)\<rparr>))
      else (True, r\<lparr>heartbeats := fmupd edgePeer now (heartbeats r)\<rparr>))"

fun deadPeersLoop :: "int \<Rightarrow> int \<Rightarrow> EdgePeer list \<Rightarrow> RegistryService \<Rightarrow> RegistryService" where
  "deadPeersLoop heartbeatThr lastCheckTime [] r = r"
| "deadPeersLoop heartbeatThr lastCheckTime (p # ps) r =
     (case fmlookup (heartbeats r) p of
        None \<Rightarrow> deadPeersLoop heartbeatThr lastCheckTime ps r
      | Some lastHeartbeatTime \<Rightarrow>
          if stale heartbeatThr lastCheckTime lastHeartbeatTime
          then deadPeersLoop heartbeatThr lastCheckTime ps
            (r\<lparr>connections := fmdrop p (connections r), heartbeats := fmdrop p (heartbeats r)\<rparr>)
          else deadPeersLoop heartbeatThr lastCheckTime ps r)"

definition checkForDeadPeers :: "int \<Rightarrow> int \<Rightarrow> EdgePeer list \<Rightarrow> RegistryService \<Rightarrow> RegistryService" where
  "checkForDeadPeers heartbeatThr now ks r =
     (deadPeersLoop heartbeatThr (heartbeatCheckTime r) ks r)\<lparr>heartbeatCheckTime := now\<rparr>"

section \<open>Linking components\<close>

text \<open>
  \<^verbatim>\<open>Go("EdgePeer.AddNeighbour", peer, 0, nil)\<close> passes the number 0 as the place for the reply. When the
  peer serves the call, \<^verbatim>\<open>net/rpc\<close> fails to decode the reply into a value that is not a pointer: the
  call ends with that error, and the client stops reading and is shut down. An error reported by the
  peer ends the call alone. A call on a client that is shut down ends at once with an error.
\<close>

datatype addAnswer = Served | Refused | Silent

datatype callState = Finished bool | InFlight \<comment> \<open>finished, and whether its error is nil\<close>

definition addNeighbourCall :: "bool \<Rightarrow> addAnswer \<Rightarrow> callState \<times> bool" where
  "addNeighbourCall usable ans =
     (if \<not> usable then (Finished False, False)
      else case ans of
        Served \<Rightarrow> (Finished False, False)
      | Refused \<Rightarrow> (Finished False, True)
      | Silent \<Rightarrow> (InFlight, True))"

text \<open>The select takes a call that is done (either one if both are), or times out.\<close>

definition selectCall :: "bool \<Rightarrow> callState \<Rightarrow> callState \<Rightarrow> bool" where
  "selectCall firstReady call_1 call_2 =
     (case (call_1, call_2) of
        (Finished ok1, Finished ok2) \<Rightarrow> (if firstReady then ok1 else ok2)
      | (Finished ok1, InFlight) \<Rightarrow> ok1
      | (InFlight, Finished ok2) \<Rightarrow> ok2
      | (InFlight, InFlight) \<Rightarrow> False)"

record monitorRound =
  visit :: visitOrder
  peersOrder :: "EdgePeer list"
  nodesOrder :: "EdgePeer list"
  searchOrder :: "EdgePeer list"
  netAnswer :: "EdgePeer \<Rightarrow> neighboursAnswer"
  addAnswerOf :: "EdgePeer \<Rightarrow> EdgePeer \<Rightarrow> addAnswer"
  firstReady :: "EdgePeer \<Rightarrow> EdgePeer \<Rightarrow> bool"
  edgeDrawn :: "EdgePeer \<Rightarrow> EdgePeer \<Rightarrow> bool"

type_synonym linkState = "bool \<times> (EdgePeer \<times> EdgePeer) list \<times> RegistryService"

fun unifyNode :: "monitorRound \<Rightarrow> EdgePeer \<Rightarrow> EdgePeer list \<Rightarrow> linkState \<Rightarrow> linkState outcome" where
  "unifyNode env n1 [] st = Done st"
| "unifyNode env n1 (n2 # ns) (createdAnEdge, calls, r) =
     (let thereIsEdge = (if \<not> createdAnEdge then True else edgeDrawn env n1 n2) in
      if \<not> thereIsEdge then unifyNode env n1 ns (createdAnEdge, calls, r)
      else case (fmlookup (connections r) n1, fmlookup (connections r) n2) of
        (Some u1, Some u2) \<Rightarrow>
          let (call_1, u1') = addNeighbourCall u1 (addAnswerOf env n1 n2);
              (call_2, u2') = addNeighbourCall u2 (addAnswerOf env n2 n1)
          in unifyNode env n1 ns
               (createdAnEdge \<or> selectCall (firstReady env n1 n2) call_1 call_2, calls @ [(n1, n2)],
                r\<lparr>connections := fmupd n2 u2' (fmupd n1 u1' (connections r))\<rparr>)
      | _ \<Rightarrow> Panicked)"

fun unifyLoop :: "monitorRound \<Rightarrow> EdgePeer list \<Rightarrow> EdgePeer list \<Rightarrow> linkState \<Rightarrow> linkState outcome" where
  "unifyLoop env [] c2 st = Done st"
| "unifyLoop env (n1 # c1) c2 st = and_then (unifyNode env n1 c2 st) (unifyLoop env c1 c2)"

definition unifyTwoComponents :: "monitorRound \<Rightarrow> EdgePeer list \<Rightarrow> EdgePeer list \<Rightarrow>
    (EdgePeer \<times> EdgePeer) list \<Rightarrow> RegistryService \<Rightarrow> ((EdgePeer \<times> EdgePeer) list \<times> RegistryService) outcome" where
  "unifyTwoComponents env firstComponent secondComponent calls r =
     and_then (unifyLoop env firstComponent secondComponent (False, calls, r)) (\<lambda>(_, calls', r'). Done (calls', r'))"

fun unifyNetwork :: "monitorRound \<Rightarrow> EdgePeer list list \<Rightarrow> (EdgePeer \<times> EdgePeer) list \<Rightarrow> RegistryService \<Rightarrow>
    ((EdgePeer \<times> EdgePeer) list \<times> RegistryService) outcome" where
  "unifyNetwork env (c1 # c2 # cs) calls r =
     and_then (unifyTwoComponents env c1 c2 calls r) (\<lambda>(calls', r'). unifyNetwork env (c2 # cs) calls' r')"
| "unifyNetwork env cs calls r = Done (calls, r)"

section \<open>One round of the monitor\<close>

text \<open>Printing takes the fourth dot-separated part of every address.\<close>

definition printable :: "EdgePeer \<Rightarrow> bool" where
  "printable p \<longleftrightarrow> 3 \<le> length (filter (\<lambda>c. c = CHR ''.'') (PeerAddr p))"

definition PrintGraph :: "Graph \<Rightarrow> unit outcome" where
  "PrintGraph g =
     (if fBall (fmdom g) (\<lambda>p. printable p \<and> fBall (adjacents g p) printable) then Done () else Panicked)"

definition neighboursCall :: "monitorRound \<Rightarrow> RegistryService \<Rightarrow> EdgePeer \<Rightarrow> neighboursAnswer" where
  "neighboursCall env r p = (if gomap_get False (connections r) p then netAnswer env p else CallError)"

definition isLive :: "RegistryService \<Rightarrow> EdgePeer \<Rightarrow> bool" where
  "isLive r p \<longleftrightarrow> fmlookup (heartbeats r) p \<noteq> None"

definition NewGraph :: "monitorRound \<Rightarrow> RegistryService \<Rightarrow> Graph outcome" where
  "NewGraph env r = buildGraph (visit env) (nodesOrder env) (isLive r) (neighboursCall env r) (peersOrder env)"

definition solveNetworkPartitions :: "monitorRound \<Rightarrow> RegistryService \<Rightarrow>
    ((EdgePeer \<times> EdgePeer) list \<times> RegistryService) outcome" where
  "solveNetworkPartitions env r =
     and_then (NewGraph env r) (\<lambda>graph.
     and_then (PrintGraph graph) (\<lambda>_.
       let connectedComponents = FindConnectedComponents graph (visit env) (searchOrder env) in
       if 1 < length connectedComponents then unifyNetwork env connectedComponents [] r
       else Done ([], r)))"

section \<open>Liveness\<close>

definition tracked_peers :: "RegistryService \<Rightarrow> EdgePeer set" where
  "tracked_peers r = fmdom' (connections r)"

lemma deadPeersLoop_lookup:
  assumes "distinct ks"
  shows "fmlookup (heartbeats (deadPeersLoop thr lastT ks r)) p =
      (case fmlookup (heartbeats r) p of None \<Rightarrow> None
       | Some t \<Rightarrow> if p \<in> set ks \<and> stale thr lastT t then None else Some t) \<and>
    fmlookup (connections (deadPeersLoop thr lastT ks r)) p =
      (if p \<in> set ks \<and> (\<exists>t. fmlookup (heartbeats r) p = Some t \<and> stale thr lastT t) then None
       else fmlookup (connections r) p)"
  using assms
proof (induction ks arbitrary: r)
  case Nil
  then show ?case by (simp split: option.splits)
next
  case (Cons k ks)
  show ?case
  proof (cases "fmlookup (heartbeats r) k")
    case None
    with Cons show ?thesis by (auto split: option.splits)
  next
    case (Some t)
    show ?thesis
    proof (cases "stale thr lastT t")
      case True
      with Some Cons.IH [of "r\<lparr>connections := fmdrop k (connections r), heartbeats := fmdrop k (heartbeats r)\<rparr>"]
        Cons.prems show ?thesis by (cases "p = k") (auto split: option.splits)
    next
      case False
      with Some Cons show ?thesis by (auto split: option.splits)
    qed
  qed
qed

lemma checkForDeadPeers_lookup:
  assumes "enumerates ks (heartbeats r)"
  shows "fmlookup (heartbeats (checkForDeadPeers thr now ks r)) p =
      (case fmlookup (heartbeats r) p of None \<Rightarrow> None
       | Some t \<Rightarrow> if stale thr (heartbeatCheckTime r) t then None else Some t)"
    and "fmlookup (connections (checkForDeadPeers thr now ks r)) p =
      (if \<exists>t. fmlookup (heartbeats r) p = Some t \<and> stale thr (heartbeatCheckTime r) t then None
       else fmlookup (connections r) p)"
  using assms deadPeersLoop_lookup [of ks thr "heartbeatCheckTime r" r p] enumerates_mem [OF assms]
  by (auto simp: checkForDeadPeers_def enumerates_def split: option.splits)

interpretation registryMonitor:
  heartbeat_monitor checkForDeadPeers heartbeats heartbeatCheckTime tracked_peers
proof unfold_locales
  show "fmlookup (heartbeats (checkForDeadPeers thr now ks r)) k =
      (case fmlookup (heartbeats r) k of None \<Rightarrow> None
       | Some t \<Rightarrow> if stale thr (heartbeatCheckTime r) t then None else Some t)"
    if "enumerates ks (heartbeats r)" for ks r thr now k
    using that by (rule checkForDeadPeers_lookup)
  show "heartbeatCheckTime (checkForDeadPeers thr now ks r) = now" for thr now ks r
    by (simp add: checkForDeadPeers_def)
  show "tracked_peers (checkForDeadPeers thr now ks r) = tracked_peers r -
      {k. \<exists>t. fmlookup (heartbeats r) k = Some t \<and> stale thr (heartbeatCheckTime r) t}"
    if "enumerates ks (heartbeats r)" for ks r thr now
    by (auto simp: tracked_peers_def fmlookup_dom'_iff checkForDeadPeers_lookup(2) [OF that]
        split: if_splits)
qed


section \<open>The calls a round makes\<close>

definition linked :: "monitorRound \<Rightarrow> EdgePeer \<Rightarrow> EdgePeer \<Rightarrow> RegistryService \<Rightarrow> RegistryService" where
  "linked env p q r = r\<lparr>connections :=
     fmupd q (snd (addNeighbourCall (gomap_get False (connections r) q) (addAnswerOf env q p)))
       (fmupd p (snd (addNeighbourCall (gomap_get False (connections r) p) (addAnswerOf env p q))) (connections r))\<rparr>"

lemma linked_keeps [simp]:
  "heartbeats (linked env p q r) = heartbeats r"
  "heartbeatCheckTime (linked env p q r) = heartbeatCheckTime r"
  by (simp_all add: linked_def)

lemma fmlookup_linked:
  "fmlookup (connections (linked env p q r)) x =
    (if x = q then Some (snd (addNeighbourCall (gomap_get False (connections r) q) (addAnswerOf env q p)))
     else if x = p then Some (snd (addNeighbourCall (gomap_get False (connections r) p) (addAnswerOf env p q)))
     else fmlookup (connections r) x)"
  by (simp add: linked_def)

lemma unifyNode_Cons:
  assumes "fmlookup (connections r) n1 \<noteq> None" and "fmlookup (connections r) n2 \<noteq> None"
    and "\<not> c \<or> edgeDrawn env n1 n2"
  shows "\<exists>c'. unifyNode env n1 (n2 # ns) (c, calls, r) = unifyNode env n1 ns (c', calls @ [(n1, n2)], linked env n1 n2 r)"
  using assms by (auto simp: Let_def linked_def split: prod.split)

definition served_shut :: "monitorRound \<Rightarrow> (EdgePeer \<times> EdgePeer) list \<Rightarrow> RegistryService \<Rightarrow> bool" where
  "served_shut env calls r \<longleftrightarrow>
     (\<forall>p q. (p, q) \<in> set calls \<longrightarrow> addAnswerOf env p q = Served \<longrightarrow> fmlookup (connections r) p = Some False)"

lemma served_shut_linked: "served_shut env calls r \<Longrightarrow> served_shut env (calls @ [(n1, n2)]) (linked env n1 n2 r)"
  by (fastforce simp: served_shut_def fmlookup_linked addNeighbourCall_def gomap_get_def split: option.splits)

text \<open>What every link keeps, a whole round keeps.\<close>

definition kept_by_links :: "monitorRound \<Rightarrow> ((EdgePeer \<times> EdgePeer) list \<Rightarrow> RegistryService \<Rightarrow> bool) \<Rightarrow> bool" where
  "kept_by_links env P \<longleftrightarrow> (\<forall>calls r p q. P calls r \<longrightarrow> fmlookup (connections r) p \<noteq> None \<longrightarrow>
     fmlookup (connections r) q \<noteq> None \<longrightarrow> P (calls @ [(p, q)]) (linked env p q r))"

lemma unifyNode_keeps:
  "unifyNode env n1 ns (c, calls, r) = Done (c', calls', r') \<Longrightarrow> kept_by_links env P \<Longrightarrow> P calls r \<Longrightarrow> P calls' r'"
proof (induction ns arbitrary: c calls r)
  case Nil
  then show ?case by simp
next
  case (Cons n2 ns)
  show ?case
  proof (cases "\<not> c \<or> edgeDrawn env n1 n2")
    case False
    with Cons show ?thesis by (simp add: Let_def)
  next
    case True
    with Cons.prems(1) have ne: "fmlookup (connections r) n1 \<noteq> None" "fmlookup (connections r) n2 \<noteq> None"
      by (auto simp: Let_def split: option.splits if_splits)
    from unifyNode_Cons [OF ne True, of ns calls] Cons.prems(1) obtain c1 where
      one: "unifyNode env n1 ns (c1, calls @ [(n1, n2)], linked env n1 n2 r) = Done (c', calls', r')" by auto
    have "P (calls @ [(n1, n2)]) (linked env n1 n2 r)" using Cons.prems(2,3) ne unfolding kept_by_links_def by blast
    from Cons.IH [OF one Cons.prems(2) this] show ?thesis .
  qed
qed

lemma unifyLoop_keeps:
  "unifyLoop env c1 c2 (c, calls, r) = Done (c', calls', r') \<Longrightarrow> kept_by_links env P \<Longrightarrow> P calls r \<Longrightarrow> P calls' r'"
proof (induction c1 arbitrary: c calls r)
  case Nil
  then show ?case by simp
next
  case (Cons n1 c1)
  then obtain d calls1 r1 where "unifyNode env n1 c2 (c, calls, r) = Done (d, calls1, r1)"
    "unifyLoop env c1 c2 (d, calls1, r1) = Done (c', calls', r')"
    by (auto simp: and_then_Done_iff)
  with Cons.IH Cons.prems(2,3) unifyNode_keeps show ?case by blast
qed

lemma unifyNetwork_keeps:
  "unifyNetwork env cs calls r = Done (calls', r') \<Longrightarrow> kept_by_links env P \<Longrightarrow> P calls r \<Longrightarrow> P calls' r'"
proof (induction env cs calls r rule: unifyNetwork.induct)
  case (1 env c1 c2 cs calls r)
  then obtain calls1 r1 where 2: "unifyTwoComponents env c1 c2 calls r = Done (calls1, r1)"
    "unifyNetwork env (c2 # cs) calls1 r1 = Done (calls', r')"
    by (auto simp: and_then_Done_iff)
  from 2(1) obtain c where "unifyLoop env c1 c2 (False, calls, r) = Done (c, calls1, r1)"
    by (auto simp: unifyTwoComponents_def and_then_Done_iff)
  from unifyLoop_keeps [OF this 1(3,4)] 1(1) [OF 2(2) 1(3)] show ?case by simp
qed simp_all

lemma served_shut_kept: "kept_by_links env (served_shut env)"
  by (simp add: kept_by_links_def served_shut_linked)

lemma unifyNetwork_singletons:
  assumes "\<forall>p\<in>set reps. fmlookup (connections r) p \<noteq> None"
  shows "\<exists>r'. unifyNetwork env (map (\<lambda>p. [p]) reps) calls r = Done (calls @ zip reps (tl reps), r')"
  using assms
proof (induction reps arbitrary: calls r)
  case Nil
  then show ?case by simp
next
  case (Cons p reps)
  show ?case
  proof (cases reps)
    case Nil
    then show ?thesis by simp
  next
    case (Cons q qs)
    with Cons.prems have pq: "fmlookup (connections r) p \<noteq> None" "fmlookup (connections r) q \<noteq> None" by auto
    from unifyNode_Cons [OF pq, of False env "[]" calls]
    have two: "unifyTwoComponents env [p] [q] calls r = Done (calls @ [(p, q)], linked env p q r)"
      by (auto simp: unifyTwoComponents_def simp del: unifyNode.simps(2))
    have "\<forall>p\<in>set reps. fmlookup (connections (linked env p q r)) p \<noteq> None"
      using Cons.prems by (simp add: fmlookup_linked)
    moreover have "\<forall>x\<in>set reps. fmlookup (connections (linked env p q r)) x \<noteq> None"
      using Cons.prems by (simp add: fmlookup_linked)
    ultimately obtain r' where "unifyNetwork env (map (\<lambda>p. [p]) reps) (calls @ [(p, q)]) (linked env p q r) =
        Done ((calls @ [(p, q)]) @ zip reps (tl reps), r')"
      using Cons.IH [of "linked env p q r" "calls @ [(p, q)]"] by blast
    with two Cons show ?thesis by simp
  qed
qed

lemma chain_connected:
  assumes "\<And>x y. (x, y) \<in> set (zip xs (tl xs)) \<Longrightarrow> R x y" and "symp R" and "a \<in> set xs" and "b \<in> set xs"
  shows "R\<^sup>*\<^sup>* a b"
proof -
  have from_hd: "R\<^sup>*\<^sup>* (hd xs) x" if "x \<in> set xs" for x
    using assms(1) that
  proof (induction xs arbitrary: x)
    case Nil
    then show ?case by simp
  next
    case (Cons y ys)
    show ?case
    proof (cases "x = y \<or> ys = []")
      case True
      with Cons.prems show ?thesis by auto
    next
      case False
      then obtain z zs where ys: "ys = z # zs" by (cases ys) auto
      have "R y z" using Cons.prems(1) by (simp add: ys)
      moreover have "R\<^sup>*\<^sup>* z x" using Cons.IH [of x] Cons.prems False by (simp add: ys)
      ultimately show ?thesis by (simp add: converse_rtranclp_into_rtranclp)
    qed
  qed
  have "R\<^sup>*\<^sup>* a (hd xs)" using from_hd [OF assms(3)] symp_rtranclp [OF assms(2)] by (meson sympD)
  with from_hd [OF assms(4)] show ?thesis by simp
qed


section \<open>Properties\<close>

definition roundPeers :: "monitorRound \<Rightarrow> RegistryService \<Rightarrow> EdgePeer set" where
  "roundPeers env r = {p. p \<in> set (peersOrder env) \<and> isLive r p \<and> neighboursCall env r p \<noteq> TimedOut}"

definition reports :: "monitorRound \<Rightarrow> RegistryService \<Rightarrow> EdgePeer \<Rightarrow> EdgePeer \<Rightarrow> bool" where
  "reports env r p q \<longleftrightarrow> p \<in> roundPeers env r \<and> q \<in> roundPeers env r \<and>
     (\<exists>ns. neighboursCall env r p = Neighbours ns \<and> q |\<in>| ns)"

text \<open>The orders of a round are enumerations of the maps it ranges over.\<close>

definition round_ok :: "monitorRound \<Rightarrow> RegistryService \<Rightarrow> bool" where
  "round_ok env r \<longleftrightarrow> good_order (visit env) \<and> enumerates (peersOrder env) (connections r) \<and>
     set (nodesOrder env) = roundPeers env r \<and>
     distinct (searchOrder env) \<and> set (searchOrder env) = roundPeers env r"

text \<open>A network of two connected peers and a third one alone, and the answers of one round.\<close>

definition pA :: EdgePeer where "pA = EdgePeer ''10.0.0.1:9''"
definition pB :: EdgePeer where "pB = EdgePeer ''10.0.0.2:9''"
definition pC :: EdgePeer where "pC = EdgePeer ''10.0.0.3:9''"

lemma abc_distinct [simp]: "pA \<noteq> pB" "pA \<noteq> pC" "pB \<noteq> pC" "pB \<noteq> pA" "pC \<noteq> pA" "pC \<noteq> pB"
  by (simp_all add: pA_def pB_def pC_def)

lemma abc_printable [simp]: "printable pA" "printable pB" "printable pC"
  by (simp_all add: printable_def pA_def pB_def pC_def)

definition demoNeighbours :: "EdgePeer \<Rightarrow> EdgePeer fset" where
  "demoNeighbours p = (if p = pA then {|pB|} else if p = pB then {|pA|} else {||})"

definition demoRound :: monitorRound where
  "demoRound = \<lparr>visit = sorted_order, peersOrder = [pA, pB, pC], nodesOrder = [pA, pB, pC],
     searchOrder = [pA, pB, pC], netAnswer = (\<lambda>p. Neighbours (demoNeighbours p)),
     addAnswerOf = (\<lambda>_ _. Served), firstReady = (\<lambda>_ _. True), edgeDrawn = (\<lambda>_ _. False)\<rparr>"

definition demoRegistry :: RegistryService where
  "demoRegistry = \<lparr>connections = fmap_of_list [(pA, True), (pB, True), (pC, True)], heartbeatCheckTime = 0,
     heartbeats = fmap_of_list [(pA, 0), (pB, 0), (pC, 0)]\<rparr>"

lemma demo_live [simp]: "isLive demoRegistry p \<longleftrightarrow> p = pA \<or> p = pB \<or> p = pC"
  by (auto simp: isLive_def demoRegistry_def fmlookup_of_list split: if_splits)

lemma demo_call [simp]: "isLive demoRegistry p \<Longrightarrow> neighboursCall demoRound demoRegistry p = Neighbours (demoNeighbours p)"
  by (drule demo_live [THEN iffD1])
    (auto simp: neighboursCall_def demoRegistry_def demoRound_def gomap_get_def fmlookup_of_list)

lemma demo_round: "roundPeers demoRound demoRegistry = {pA, pB, pC}"
proof -
  have "peersOrder demoRound = [pA, pB, pC]" by (simp add: demoRound_def)
  then show ?thesis by (auto simp: roundPeers_def)
qed

lemma demo_round_ok: "round_ok demoRound demoRegistry"
  unfolding round_ok_def demo_round
  by (auto simp: demoRound_def demoRegistry_def enumerates_def fmdom'_alt_def)

text \<open>The graph of a round in which every live peer gives a list: the reported links, in both directions.\<close>

lemma round_graph:
  assumes ok: "round_ok env r"
    and answers: "\<And>p. isLive r p \<Longrightarrow> neighboursCall env r p \<noteq> CallError"
    and addrs: "\<And>p. isLive r p \<Longrightarrow> printable p"
  obtains g where "NewGraph env r = Done g" and "fmdom' g = roundPeers env r" and "undirected g"
    and "\<And>p q. edge g p q \<longleftrightarrow> symclp (reports env r) p q" and "PrintGraph g = Done ()"
proof -
  let ?N = "roundPeers env r"
  have ord: "good_order (visit env)" and ps: "distinct (peersOrder env)" and nodes: "set (nodesOrder env) = ?N"
    using ok by (auto simp: round_ok_def enumerates_def)
  have nodes': "set (nodesOrder env) = {p. p \<in> set (peersOrder env) \<and> isLive r p \<and> neighboursCall env r p \<noteq> TimedOut}"
    using nodes by (simp add: roundPeers_def)
  have answers': "\<forall>p\<in>set (peersOrder env). isLive r p \<longrightarrow> neighboursCall env r p \<noteq> CallError"
    using answers by blast
  from buildGraph_undirected [OF ord ps nodes' answers']
  obtain g where g: "NewGraph env r = Done g" and dom: "fmdom' g = ?N" and und: "undirected g"
    and adj: "\<forall>p q. edge g p q \<longleftrightarrow> p \<in> ?N \<and> q \<in> ?N \<and>
      ((\<exists>ns. neighboursCall env r p = Neighbours ns \<and> q |\<in>| ns) \<or> (\<exists>ns. neighboursCall env r q = Neighbours ns \<and> p |\<in>| ns))"
    and live': "\<forall>p q. q |\<in>| adjacents g p \<longrightarrow> isLive r q"
    unfolding NewGraph_def nodes by (elim exE conjE)
  have edges: "edge g p q \<longleftrightarrow> symclp (reports env r) p q" for p q
    unfolding adj [rule_format] symclp_def reports_def by blast
  have "isLive r q" if "q |\<in>| adjacents g p" for p q using live' that by blast
  then have "PrintGraph g = Done ()"
    using addrs dom by (auto simp: PrintGraph_def fmdom'_alt_def roundPeers_def)
  with g dom und edges show ?thesis by (rule that)
qed



lemma demo_solve: "\<exists>r'. solveNetworkPartitions demoRound demoRegistry = Done ([(pA, pC)], r') \<and>
    heartbeats r' = heartbeats demoRegistry \<and> fmlookup (connections r') pB = Some True"
proof -
  have orders: "sorted_order p {||} = []" "sorted_order p {|x|} = [x]" for p x
    by (simp_all add: sorted_order_def sorted_list_of_fset.rep_eq)
  define g where "g = fmap_of_list [(pA, Some {|pB|}), (pB, Some {|pA|}), (pC, Some {||})]"
  have look: "fmlookup g pA = Some (Some {|pB|})" "fmlookup g pB = Some (Some {|pA|})" "fmlookup g pC = Some (Some {||})"
    by (simp_all add: g_def fmlookup_of_list)
  have upd: "fmupd pA (Some {|pB|}) g = g" "fmupd pB (Some {|pA|}) g = g"
    using look by (auto intro!: fmap_ext)
  have filter1: "ffilter (isLive demoRegistry) {|x|} = {|x|}" "ffilter (isLive demoRegistry) {||} = {||}"
    if "isLive demoRegistry x" for x
    using that by (auto simp del: demo_live)
  have "removeDead (isLive demoRegistry) (collectNeighbours (isLive demoRegistry)
      (neighboursCall demoRound demoRegistry) [pA, pB, pC] fmempty) = g"
    by (rule fmap_ext) (auto simp: g_def removeDead_def AddNodeAndConnections_def fmlookup_of_list demoNeighbours_def
        filter1 split: if_splits)
  then have graph: "NewGraph demoRound demoRegistry = Done g"
    by (simp add: NewGraph_def buildGraph_def demoRound_def adjacents_def look orders upd)
  have dom: "fmdom g = {|pA, pB, pC|}" by (simp add: g_def)
  have print: "PrintGraph g = Done ()" by (simp add: PrintGraph_def dom adjacents_def look)
  have comps: "FindConnectedComponents g sorted_order [pA, pB, pC] = [[pA], [pC]]"
    by (simp add: FindConnectedComponents_def recursiveConnectedComponentsResearch_def adjacents_def look orders dom)
  have conns: "fmlookup (connections demoRegistry) pA \<noteq> None" "fmlookup (connections demoRegistry) pC \<noteq> None"
    by (simp_all add: demoRegistry_def fmlookup_of_list)
  have "unifyTwoComponents demoRound [pA] [pC] [] demoRegistry = Done ([(pA, pC)], linked demoRound pA pC demoRegistry)"
    using unifyNode_Cons [OF conns, of False demoRound "[]" "[]"]
    by (auto simp: unifyTwoComponents_def simp del: unifyNode.simps(2))
  moreover have "visit demoRound = sorted_order" "searchOrder demoRound = [pA, pB, pC]"
    by (simp_all add: demoRound_def)
  ultimately have "solveNetworkPartitions demoRound demoRegistry =
      Done ([(pA, pC)], linked demoRound pA pC demoRegistry)"
    using graph print comps by (simp add: solveNetworkPartitions_def)
  moreover have "fmlookup (connections (linked demoRound pA pC demoRegistry)) pB = Some True"
    by (simp add: fmlookup_linked) (simp add: demoRegistry_def fmlookup_of_list)
  ultimately show ?thesis by simp
qed

text \<open>C30: repairing a partition destroys the registry: a peer that served its link request has its
  connection shut down, and the next round panics as soon as a live peer reports it as a neighbour.\<close>

theorem repair_makes_next_round_panic:
  assumes repair: "solveNetworkPartitions env r = Done (calls, r')" "(p, q) \<in> set calls"
      "addAnswerOf env p q = Served"
    and later: "connections r2 = connections r'" "good_order (visit env2)" "distinct (peersOrder env2)"
      "p \<in> set (peersOrder env2)" "isLive r2 p"
    and reporter: "x \<in> set (peersOrder env2)" "x \<in> set (nodesOrder env2)" "isLive r2 x"
      "fmlookup (connections r2) x = Some True" "netAnswer env2 x = Neighbours ns" "p |\<in>| ns"
  shows "solveNetworkPartitions env2 r2 = Panicked"
proof -
  from repair(1) obtain g where
    "(if 1 < length (FindConnectedComponents g (visit env) (searchOrder env))
      then unifyNetwork env (FindConnectedComponents g (visit env) (searchOrder env)) [] r
      else Done ([], r)) = Done (calls, r')"
    by (auto simp: solveNetworkPartitions_def and_then_Done_iff Let_def)
  with repair(2) have unify: "unifyNetwork env (FindConnectedComponents g (visit env) (searchOrder env)) [] r = Done (calls, r')"
    by (auto split: if_splits)
  have "served_shut env [] r" by (simp add: served_shut_def)
  from unifyNetwork_keeps [OF unify served_shut_kept this] repair(2,3) later(1)
  have "fmlookup (connections r2) p = Some False" by (auto simp: served_shut_def)
  then have p: "neighboursCall env2 r2 p = CallError" by (simp add: neighboursCall_def gomap_get_def)
  have x: "neighboursCall env2 r2 x = Neighbours ns" using reporter(4,5) by (simp add: neighboursCall_def gomap_get_def)
  let ?g = "removeDead (isLive r2) (collectNeighbours (isLive r2) (neighboursCall env2 r2) (peersOrder env2) fmempty)"
  have "fmlookup ?g p = Some None" "p |\<in>| adjacents ?g x"
    using later(4,5) reporter(1,3,6) p x
    by (simp_all add: removeDead_def collectNeighbours_lookup [OF later(3)] adjacents_def)
  then have "makeUndirected (visit env2) (nodesOrder env2) ?g = Panicked"
    by (rule makeUndirected_panics [OF later(2) reporter(2)])
  then show ?thesis by (simp add: solveNetworkPartitions_def NewGraph_def buildGraph_def)
qed

theorem repair_makes_next_round_panic_witness:
  "\<exists>r'. solveNetworkPartitions demoRound demoRegistry = Done ([(pA, pC)], r') \<and>
    solveNetworkPartitions demoRound r' = Panicked"
proof -
  obtain r' where r': "solveNetworkPartitions demoRound demoRegistry = Done ([(pA, pC)], r')"
    and hb: "heartbeats r' = heartbeats demoRegistry" and conn: "fmlookup (connections r') pB = Some True"
    using demo_solve by blast
  have live: "isLive r' p = isLive demoRegistry p" for p by (simp add: isLive_def hb)
  have "solveNetworkPartitions demoRound r' = Panicked"
    by (rule repair_makes_next_round_panic [OF r', of pA pC r' demoRound pB "{|pA|}"])
      (simp_all add: live conn, simp_all add: demoRound_def demoNeighbours_def)
  with r' show ?thesis by blast
qed

lemma neighboursLoop_result:
  "neighboursLoop d p ks c acc |\<subseteq>| acc |\<union>| fset_of_list (filter (\<lambda>k. k \<noteq> p) ks) \<and>
   acc |\<subseteq>| neighboursLoop d p ks c acc \<and>
   (\<not> c \<longrightarrow> filter (\<lambda>k. k \<noteq> p) ks \<noteq> [] \<longrightarrow> neighboursLoop d p ks c acc \<noteq> {||})"
proof (induction ks arbitrary: c acc)
  case Nil
  then show ?case by simp
next
  case (Cons k ks)
  show ?case
  proof (cases "k = p")
    case True
    with Cons show ?thesis by simp
  next
    case False
    show ?thesis
    proof (cases "\<not> c \<or> d k")
      case True
      with False Cons [of True "finsert k acc"] show ?thesis by (auto simp: Let_def)
    next
      case d: False
      with False Cons [of c acc] show ?thesis by (auto simp: Let_def)
    qed
  qed
qed

text \<open>A peer that enters is connected and alive, and gets as neighbours only other live peers, at
  least one of them when there is one; a peer that cannot be reached changes nothing.\<close>

theorem PeerEnter_neighbours:
  assumes "set ks = fmdom' (fmupd p now (heartbeats r))"
  shows "(if dial p
    then \<exists>ns r'. PeerEnter dial d ks now p r = (Some ns, r') \<and> fmlookup (connections r') p = Some True \<and>
      fmlookup (heartbeats r') p = Some now \<and> p |\<notin>| ns \<and> fset ns \<subseteq> fmdom' (heartbeats r) \<and>
      (fmdom' (heartbeats r) - {p} \<noteq> {} \<longrightarrow> ns \<noteq> {||})
    else PeerEnter dial d ks now p r = (None, r))"
proof (cases "dial p")
  case True
  let ?ns = "findNeighboursForPeer d ks p"
  note res = neighboursLoop_result [of d p ks False "{||}"]
  have sub: "fset ?ns \<subseteq> set (filter (\<lambda>k. k \<noteq> p) ks)"
    using res by (auto simp: findNeighboursForPeer_def fset_of_list.rep_eq)
  have ne: "?ns \<noteq> {||}" if "fmdom' (heartbeats r) - {p} \<noteq> {}"
    using res that assms by (auto simp: findNeighboursForPeer_def filter_empty_conv)
  have "p |\<notin>| ?ns" "fset ?ns \<subseteq> fmdom' (heartbeats r)" using sub assms by auto
  with ne True show ?thesis by (simp add: PeerEnter_def connectToNode_def)
next
  case False
  then show ?thesis by (simp add: PeerEnter_def connectToNode_def)
qed

theorem PeerEnter_neighbours_witness:
  "\<exists>ns r'. PeerEnter (\<lambda>_. True) (\<lambda>_. False) [pC, pA, pB] 5 pC demoRegistry = (Some ns, r') \<and> ns \<noteq> {||} \<and> pC |\<notin>| ns"
proof -
  have dom: "fmdom' (heartbeats demoRegistry) = {pA, pB, pC}" by (auto simp: demoRegistry_def fmdom'_alt_def)
  then have "set [pC, pA, pB] = fmdom' (fmupd pC 5 (heartbeats demoRegistry))" by auto
  from PeerEnter_neighbours [OF this, of "\<lambda>_. True" "\<lambda>_. False"] dom show ?thesis by auto
qed

text \<open>A silent peer has left the network after the second sweep at the latest; a peer whose last
  heartbeat is fresh at the time of the previous sweep keeps its connection.\<close>

theorem silent_peer_dropped:
  assumes "enumerates ks1 (heartbeats r)" and "enumerates ks2 (heartbeats (checkForDeadPeers thr now1 ks1 r))"
    and "fmlookup (heartbeats r) p = Some t"
  shows "(stale thr now1 t \<longrightarrow>
      p \<notin> tracked_peers (checkForDeadPeers thr now2 ks2 (checkForDeadPeers thr now1 ks1 r))) \<and>
    (\<not> stale thr (heartbeatCheckTime r) t \<longrightarrow>
      fmlookup (connections (checkForDeadPeers thr now1 ks1 r)) p = fmlookup (connections r) p)"
  using registryMonitor.silent_node_dropped [OF assms] assms(3)
  by (simp add: checkForDeadPeers_lookup(2) [OF assms(1)])


theorem silent_peer_dropped_witness:
  "pA \<notin> tracked_peers (checkForDeadPeers 15 (60 * 10 ^ 9) [pA, pB, pC]
     (checkForDeadPeers 15 (30 * 10 ^ 9) [pA, pB, pC] demoRegistry))"
proof -
  have hb: "heartbeats demoRegistry = fmap_of_list [(pA, 0), (pB, 0), (pC, 0)]" "heartbeatCheckTime demoRegistry = 0"
    by (simp_all add: demoRegistry_def)
  then have "enumerates [pA, pB, pC] (heartbeats demoRegistry)"
    by (auto simp: enumerates_def fmdom'_alt_def)
  moreover have "heartbeats (checkForDeadPeers 15 (30 * 10 ^ 9) [pA, pB, pC] demoRegistry) = heartbeats demoRegistry"
    by (simp add: checkForDeadPeers_def hb stale_def fmlookup_of_list)
  ultimately show ?thesis
    using silent_peer_dropped [of "[pA, pB, pC]" demoRegistry "[pA, pB, pC]" 15 "30 * 10 ^ 9" pA 0 "60 * 10 ^ 9"]
    by (simp add: stale_def hb fmlookup_of_list)
qed

end
