(* ===== verification/RegistryRun.thy ===== *)
theory RegistryRun
  imports Registry
begin

text \<open>
  The reachable states of the registry: any sequence of peers that enter, heartbeats, sweeps and rounds of
  the monitor. The registry holds a connection to exactly the peers it counts as alive.
\<close>

definition registry_inv :: "RegistryService \<Rightarrow> bool" where
  "registry_inv r \<longleftrightarrow> fmdom' (connections r) = fmdom' (heartbeats r)"

inductive registryRun :: "RegistryService \<Rightarrow> bool" where
  started: "registryRun (newRegistryService now)"
| entered: "registryRun r \<Longrightarrow> PeerEnter dial drawn ks now p r = (ns, r') \<Longrightarrow> registryRun r'"
| beat: "registryRun r \<Longrightarrow> Heartbeat dial now p r = (ok, r') \<Longrightarrow> registryRun r'"
| swept: "registryRun r \<Longrightarrow> enumerates ks (heartbeats r) \<Longrightarrow> registryRun (checkForDeadPeers thr now ks r)"
| monitored: "registryRun r \<Longrightarrow> solveNetworkPartitions env r = Done (calls, r') \<Longrightarrow> registryRun r'"

lemma registry_inv_lookup:
  "registry_inv r \<longleftrightarrow> (\<forall>p. fmlookup (connections r) p = None \<longleftrightarrow> fmlookup (heartbeats r) p = None)"
  by (auto simp: registry_inv_def set_eq_iff fmlookup_dom'_iff simp flip: not_None_eq)

lemma sweep_keeps_inv:
  "registry_inv r \<Longrightarrow> enumerates ks (heartbeats r) \<Longrightarrow> registry_inv (checkForDeadPeers thr now ks r)"
  unfolding registry_inv_lookup checkForDeadPeers_lookup by (auto split: option.splits)

lemma links_keep_keys:
  "kept_by_links env (\<lambda>calls r'. heartbeats r' = heartbeats r \<and>
     (\<forall>p. fmlookup (connections r') p = None \<longleftrightarrow> fmlookup (connections r) p = None))"
  by (auto simp: kept_by_links_def fmlookup_linked)

lemma round_keeps_keys:
  assumes "solveNetworkPartitions env r = Done (calls, r')"
  shows "heartbeats r' = heartbeats r \<and> (\<forall>p. fmlookup (connections r') p = None \<longleftrightarrow> fmlookup (connections r) p = None)"
proof -
  from assms obtain cs where "unifyNetwork env cs [] r = Done (calls, r') \<or> r' = r"
    by (auto simp: solveNetworkPartitions_def and_then_Done_iff Let_def split: if_splits)
  then show ?thesis
  proof
    assume "unifyNetwork env cs [] r = Done (calls, r')"
    from unifyNetwork_keeps [OF this links_keep_keys [of env r]] show ?thesis by blast
  qed simp
qed

lemma registryRun_inv: "registryRun r \<Longrightarrow> registry_inv r"
proof (induction rule: registryRun.induct)
  case (started now)
  then show ?case by (simp add: newRegistryService_def registry_inv_def)
next
  case (entered r dial drawn ks now p ns r')
  then show ?case
    by (auto simp: PeerEnter_def connectToNode_def registry_inv_lookup split: if_splits)
next
  case (beat r dial now p ok r')
  then show ?case
    by (auto simp: Heartbeat_def connectToNode_def registry_inv_lookup split: if_splits)
next
  case (swept r ks thr now)
  then show ?case by (intro sweep_keeps_inv)
next
  case (monitored r env calls r')
  with round_keeps_keys [OF monitored.hyps(2)] show ?case by (simp add: registry_inv_lookup)
qed



end
