(* ===== verification/RegistryStart.thy ===== *)
theory RegistryStart
  imports Startup RegistryRun
begin

text \<open>
  The start of the registry: \<^verbatim>\<open>registry/main.go\<close>, \<^verbatim>\<open>ActAsRegistry\<close> of \<^verbatim>\<open>services/registry_services.go\<close> and the two
  goroutines of \<^verbatim>\<open>services/network_monitor.go\<close>, the sweep over dead peers and the rounds of the network
  monitor; the draw of an extra link with the probability that is configured as \<^verbatim>\<open>RAND_THR\<close>.
\<close>

record registryHost =
  registerService :: "string option"
  listenService :: "string \<Rightarrow> string + string"

definition ActAsRegistry :: "registryHost \<Rightarrow> int \<Rightarrow> RegistryService run" where
  "ActAsRegistry host now =
     (let registryService = newRegistryService now in
      bind_run (ExitOnError ''Impossibile registrare il servizio''
        (case registerService host of Some err \<Rightarrow> Inl err | None \<Rightarrow> Inr ())) (\<lambda>_.
      bind_run (ExitOnError ''Impossibile mettersi in ascolto sulla porta'' (listenService host '':1234'')) (\<lambda>addr.
      bind_run (launch (ServeRPC addr)) (\<lambda>_.
      bind_run (launch CheckHeartbeat) (\<lambda>_.
      bind_run (launch MonitorNetwork) (\<lambda>_.
      continue registryService))))))"

definition registryMain :: "(string \<Rightarrow> string option) \<Rightarrow> string list \<Rightarrow> config \<Rightarrow> registryHost \<Rightarrow> int \<Rightarrow>
    (config \<times> RegistryService) run" where
  "registryMain files ks env host now =
     bind_run (setting ''conf.properties'' (registrySetupEnvVariables files ks ''conf.properties'' env)) (\<lambda>env'.
     bind_run (ActAsRegistry host now) (\<lambda>r. continue (env', r)))"

text \<open>The sweeping goroutine: the times of its rounds and the orders of their loops.\<close>

definition registryCheckHeartbeat :: "config \<Rightarrow> (int \<times> EdgePeer keyOrder) list \<Rightarrow> RegistryService \<Rightarrow> RegistryService outcome" where
  "registryCheckHeartbeat env rounds r =
     and_then (registryGetIntEnvironmentVariable env ''MONITOR_TIMER'') (\<lambda>MONITOR_TIMER.
     and_then (registryGetIntEnvironmentVariable env ''HEARTBEAT_THR'') (\<lambda>HEARTBEAT_THR.
       Done (sweeps checkForDeadPeers heartbeats HEARTBEAT_THR rounds r)))"

text \<open>The monitor: one round after the other, the answers of the network in each.\<close>

fun monitorRounds :: "monitorRound list \<Rightarrow> RegistryService \<Rightarrow> ((EdgePeer \<times> EdgePeer) list list \<times> RegistryService) outcome" where
  "monitorRounds [] r = Done ([], r)"
| "monitorRounds (answers # rounds) r =
     and_then (solveNetworkPartitions answers r) (\<lambda>(calls, r1).
     and_then (monitorRounds rounds r1) (\<lambda>(callss, r2). Done (calls # callss, r2)))"

definition monitorNetwork :: "config \<Rightarrow> monitorRound list \<Rightarrow> RegistryService \<Rightarrow>
    ((EdgePeer \<times> EdgePeer) list list \<times> RegistryService) outcome" where
  "monitorNetwork env rounds r =
     and_then (registryGetEnvironmentVariable env ''MONITOR_TIMER'') (\<lambda>monitorTimerString.
       case ParseInt monitorTimerString of None \<Rightarrow> Panicked | Some MONITOR_TIMER \<Rightarrow> monitorRounds rounds r)"

text \<open>A random number is larger than a threshold that is minus infinity, and never larger than infinity or
  not-a-number.\<close>

definition aboveThreshold :: "rat \<Rightarrow> float64 \<Rightarrow> bool" where
  "aboveThreshold randomNumber thr =
     (case thr of Finite t \<Rightarrow> existsEdge t randomNumber | Infinite negative \<Rightarrow> negative | NaN \<Rightarrow> False)"

definition existsEdgeConfigured :: "(string \<Rightarrow> float64 option) \<Rightarrow> config \<Rightarrow> rat \<Rightarrow> bool outcome" where
  "existsEdgeConfigured library env randomNumber =
     and_then (registryGetEnvironmentVariable env ''RAND_THR'') (\<lambda>s.
       case ParseFloat library s of None \<Rightarrow> Panicked | Some thr \<Rightarrow> Done (aboveThreshold randomNumber thr))"

section \<open>What is reached\<close>

lemma ActAsRegistry_Inr:
  "ActAsRegistry host now = (tr, Inr r) \<longleftrightarrow>
     (\<exists>addr. registerService host = None \<and> listenService host '':1234'' = Inr addr \<and>
       tr = [Go (ServeRPC addr), Go CheckHeartbeat, Go MonitorNetwork] \<and> r = newRegistryService now)"
  by (auto simp: ActAsRegistry_def startup Let_def split: option.splits)

lemma sweeps_reachable:
  "registryRun r \<Longrightarrow> list_all (visitsAll \<circ> snd) rounds \<Longrightarrow> registryRun (sweeps checkForDeadPeers heartbeats thr rounds r)"
proof (induction rounds arbitrary: r)
  case Nil
  then show ?case by (simp add: sweeps_def)
next
  case (Cons x rounds)
  then have "registryRun (sweepRound checkForDeadPeers heartbeats thr x r)"
    unfolding sweepRound_def by (intro registryRun.swept visits_enumerates) auto
  with Cons show ?case by (simp add: sweeps_def)
qed

lemma rounds_reachable:
  "registryRun r \<Longrightarrow> monitorRounds rounds r = Done (calls, r') \<Longrightarrow> registryRun r'"
proof (induction rounds arbitrary: r calls)
  case (Cons x rounds)
  then obtain cs r1 css where "solveNetworkPartitions x r = Done (cs, r1)" "monitorRounds rounds r1 = Done (css, r')"
    by (auto simp: and_then_Done_iff)
  with Cons show ?case by (blast intro: registryRun.monitored)
qed simp

lemma registryLoops_inv:
  assumes "ActAsRegistry host now = (tr, Inr r)" and "list_all (visitsAll \<circ> snd) rounds"
    and "registryCheckHeartbeat env rounds r = Done r1" and "monitorNetwork env answers r1 = Done (calls, r2)"
  shows "registry_inv r2"
proof -
  have "registryRun r" using assms(1) registryRun.started by (auto simp: ActAsRegistry_Inr)
  moreover obtain thr where "r1 = sweeps checkForDeadPeers heartbeats thr rounds r"
    using assms(3) by (auto simp: registryCheckHeartbeat_def and_then_Done_iff)
  ultimately have "registryRun r1" using sweeps_reachable [OF _ assms(2)] by blast
  moreover have "monitorRounds answers r1 = Done (calls, r2)"
    using assms(4) by (auto simp: monitorNetwork_def and_then_Done_iff split: option.splits)
  ultimately show ?thesis using registryRun_inv rounds_reachable by blast
qed

end
