(* ===== verification/Channels.thy ===== *)
theory Channels
  imports GoPrelude "HOL-Library.Word"
begin

text \<open>
  The messages and channels of \<^verbatim>\<open>edge/redirection_channel/redirection_channel.go\<close>, the error values
  that travel on them (\<^verbatim>\<open>edge/server/custom_errors.go\<close>) and Go's channel operations: a send on a
  closed channel panics, a send on a full channel and a receive from an empty open one wait.
\<close>

type_synonym bytes = "8 word list"

section \<open>Error values\<close>

datatype ErrorCodes =
    OK
  | S3_ERROR
  | CHUNK_ERROR
  | INVALID_METADATA
  | FILE_CREATE_ERROR
  | FILE_NOT_FOUND_ERROR
  | FILE_WRITE_ERROR
  | FILE_READ_ERROR
  | STREAM_CLOSE_ERROR
  | REQUEST_FAILED

fun ErrorCodes_value :: "ErrorCodes \<Rightarrow> int" where
  "ErrorCodes_value OK = 0"
| "ErrorCodes_value S3_ERROR = 21"
| "ErrorCodes_value CHUNK_ERROR = 22"
| "ErrorCodes_value INVALID_METADATA = 23"
| "ErrorCodes_value FILE_CREATE_ERROR = 24"
| "ErrorCodes_value FILE_NOT_FOUND_ERROR = 25"
| "ErrorCodes_value FILE_WRITE_ERROR = 26"
| "ErrorCodes_value FILE_READ_ERROR = 27"
| "ErrorCodes_value STREAM_CLOSE_ERROR = 28"
| "ErrorCodes_value REQUEST_FAILED = 29"

text \<open>
  An error is one of the custom errors the code builds with its code, an error built by
  \<^verbatim>\<open>fmt.Errorf\<close> around a cause, or an error handed back by a library or the operating system.
\<close>

datatype goError =
    CustomError ErrorCodes
  | Wrapped string goError
  | Errorf string
  | External string
  | EOF

section \<open>Messages and channels\<close>

record Message =
  Body :: bytes
  Err :: "goError option"

abbreviation dataMessage :: "bytes \<Rightarrow> Message" where
  "dataMessage b \<equiv> \<lparr>Body = b, Err = None\<rparr>"

abbreviation errMessage :: "goError \<Rightarrow> Message" where
  "errMessage e \<equiv> \<lparr>Body = [], Err = Some e\<rparr>"

record 'a chan =
  buf :: "'a list"
  chanCap :: nat
  isClosed :: bool

definition make_chan :: "nat \<Rightarrow> 'a chan" where
  "make_chan n = \<lparr>buf = [], chanCap = n, isClosed = False\<rparr>"

definition chan_send :: "'a \<Rightarrow> 'a chan \<Rightarrow> 'a chan outcome" where
  "chan_send x ch =
     (if isClosed ch then Panicked
      else if length (buf ch) < chanCap ch then Done (ch\<lparr>buf := buf ch @ [x]\<rparr>)
      else Blocked)"

text \<open>Receiving: the first buffered value, or \<open>None\<close> (Go's zero value and \<^verbatim>\<open>ok == false\<close>) once the
  channel is closed and drained.\<close>

definition chan_recv :: "'a chan \<Rightarrow> ('a option \<times> 'a chan) outcome" where
  "chan_recv ch =
     (case buf ch of
        x # xs \<Rightarrow> Done (Some x, ch\<lparr>buf := xs\<rparr>)
      | [] \<Rightarrow> if isClosed ch then Done (None, ch) else Blocked)"

definition chan_close :: "'a chan \<Rightarrow> 'a chan outcome" where
  "chan_close ch = (if isClosed ch then Panicked else Done (ch\<lparr>isClosed := True\<rparr>))"

record RedirectionChannel =
  MessageChannel :: "Message chan"
  ReturnChannel :: "goError option chan"

definition NewRedirectionChannel :: "nat \<Rightarrow> RedirectionChannel" where
  "NewRedirectionChannel messageChannelSize =
     \<lparr>MessageChannel = make_chan messageChannelSize, ReturnChannel = make_chan 1\<rparr>"

section \<open>Sending a sequence\<close>

fun chan_sends :: "'a list \<Rightarrow> 'a chan \<Rightarrow> 'a chan outcome" where
  "chan_sends [] ch = Done ch"
| "chan_sends (x # xs) ch = and_then (chan_send x ch) (chan_sends xs)"

text \<open>A sequence sent with nobody receiving goes through exactly when it fits.\<close>

lemma chan_sends_fits:
  "\<not> isClosed ch \<Longrightarrow> length (buf ch) + length xs \<le> chanCap ch \<Longrightarrow>
     chan_sends xs ch = Done (ch\<lparr>buf := buf ch @ xs\<rparr>)"
  by (induction xs arbitrary: ch) (auto simp: chan_send_def)

lemma chan_sends_overflow:
  "\<not> isClosed ch \<Longrightarrow> length (buf ch) \<le> chanCap ch \<Longrightarrow> chanCap ch < length (buf ch) + length xs \<Longrightarrow>
     chan_sends xs ch = Blocked"
  by (induction xs arbitrary: ch) (auto simp: chan_send_def)

lemma chan_send_closed: "isClosed ch \<Longrightarrow> chan_send x ch = Panicked"
  by (simp add: chan_send_def)

end
