(* ===== verification/S3Streams.thy ===== *)
theory S3Streams
  imports Channels
begin

text \<open>
  The two adapters between the redirection channels and the S3 client
  (\<^verbatim>\<open>edge/s3_boundary/s3_streams.go\<close>) and the operations on the bucket
  (\<^verbatim>\<open>edge/s3_boundary/s3_interface.go\<close>). \<^verbatim>\<open>UploadStream\<close> offers the channel's messages as a byte
  reader, \<^verbatim>\<open>DownloadStream\<close> collects written bytes into messages of a fixed size. The AWS client is
  not part of the repository: what it does with the adapters is an argument of the definitions.
\<close>

section \<open>Reading the upload channel\<close>

text \<open>
  The reader's view of its channel: the messages still to come and whether the sender closes the
  channel after them.
\<close>

record UploadStream =
  ResidualChunk :: bytes
  Incoming :: "Message list"
  SenderCloses :: bool

definition receiveChunk :: "UploadStream \<Rightarrow> ((goError + bytes) \<times> UploadStream) outcome" where
  "receiveChunk us =
     (if 0 < length (ResidualChunk us) then Done (Inr (ResidualChunk us), us)
      else case Incoming us of
        m # ms \<Rightarrow> Done (case Err m of Some e \<Rightarrow> Inl e | None \<Rightarrow> Inr (Body m), us\<lparr>Incoming := ms\<rparr>)
      | [] \<Rightarrow> if SenderCloses us then Done (Inl EOF, us) else Blocked)"

definition UploadRead :: "nat \<Rightarrow> UploadStream \<Rightarrow> ((goError + bytes) \<times> UploadStream) outcome" where
  "UploadRead destLen us =
     and_then (receiveChunk us) (\<lambda>(r, us1).
       case r of
         Inl e \<Rightarrow> Done (Inl e, us1)
       | Inr fileChunk \<Rightarrow>
           if destLen > length fileChunk
           then Done (Inr fileChunk, us1\<lparr>ResidualChunk := []\<rparr>)
           else Done (Inr (take destLen fileChunk), us1\<lparr>ResidualChunk := drop destLen fileChunk\<rparr>))"

text \<open>A client of the reader: it calls \<^verbatim>\<open>Read\<close> with destinations of the given lengths until it gets an error.\<close>

fun readMany :: "nat list \<Rightarrow> UploadStream \<Rightarrow> (bytes \<times> goError option \<times> UploadStream) outcome" where
  "readMany [] us = Done ([], None, us)"
| "readMany (n # ns) us =
     and_then (UploadRead n us) (\<lambda>(r, us1).
       case r of
         Inl e \<Rightarrow> Done ([], Some e, us1)
       | Inr bs \<Rightarrow> and_then (readMany ns us1) (\<lambda>(rest, e, us2). Done (bs @ rest, e, us2)))"

definition data_only :: "Message list \<Rightarrow> bool" where
  "data_only ms \<longleftrightarrow> list_all (\<lambda>m. Err m = None) ms"

definition pending :: "UploadStream \<Rightarrow> bytes" where
  "pending us = ResidualChunk us @ concat (map Body (Incoming us))"

lemma data_only_simps [simp]:
  "data_only []"
  "data_only (m # ms) \<longleftrightarrow> Err m = None \<and> data_only ms"
  by (auto simp: data_only_def)

lemma UploadRead_step:
  assumes "data_only (Incoming us)" and "SenderCloses us"
  shows "\<exists>r us'. UploadRead n us = Done (r, us') \<and> data_only (Incoming us') \<and> SenderCloses us' \<and>
    (case r of
       Inl e \<Rightarrow> e = EOF \<and> pending us = [] \<and> Incoming us = [] \<and> us' = us
     | Inr bs \<Rightarrow> pending us = bs @ pending us' \<and> length bs \<le> n \<and>
         (0 < n \<longrightarrow> length (pending us') + length (Incoming us') < length (pending us) + length (Incoming us)))"
proof (cases "ResidualChunk us")
  case (Cons b bs)
  with assms show ?thesis
    by (auto simp: UploadRead_def receiveChunk_def pending_def)
next
  case Nil
  with assms show ?thesis
    by (cases "Incoming us") (auto simp: UploadRead_def receiveChunk_def pending_def)
qed

lemma readMany_step:
  assumes "data_only (Incoming us)" and "SenderCloses us"
  shows "\<exists>out e us'. readMany ns us = Done (out, e, us') \<and> pending us = out @ pending us' \<and>
    (e = None \<or> e = Some EOF \<and> out = pending us) \<and>
    (list_all (\<lambda>n. 0 < n) ns \<and> length (pending us) + length (Incoming us) < length ns \<longrightarrow> e = Some EOF)"
  using assms
proof (induction ns arbitrary: us)
  case Nil
  then show ?case by simp
next
  case (Cons n ns)
  obtain r us1 where step: "UploadRead n us = Done (r, us1)" "data_only (Incoming us1)" "SenderCloses us1"
    and res: "case r of
       Inl e \<Rightarrow> e = EOF \<and> pending us = [] \<and> Incoming us = [] \<and> us1 = us
     | Inr bs \<Rightarrow> pending us = bs @ pending us1 \<and> length bs \<le> n \<and>
         (0 < n \<longrightarrow> length (pending us1) + length (Incoming us1) < length (pending us) + length (Incoming us))"
    using UploadRead_step [OF Cons.prems, of n] by blast
  show ?case
  proof (cases r)
    case (Inl e)
    with step res show ?thesis by simp
  next
    case (Inr bs)
    obtain out e us2 where rec: "readMany ns us1 = Done (out, e, us2)" "pending us1 = out @ pending us2"
      "e = None \<or> e = Some EOF \<and> out = pending us1"
      "list_all (\<lambda>n. 0 < n) ns \<and> length (pending us1) + length (Incoming us1) < length ns \<longrightarrow> e = Some EOF"
      using Cons.IH [OF step(2,3)] by blast
    with step res Inr show ?thesis by auto
  qed
qed

section \<open>Collecting downloaded bytes\<close>

text \<open>
  The messages put on the client and cache channels are kept as they are sent. The buffer is a
  slice, so its capacity is part of the state: growing it past the capacity allocates what the
  runtime decides (\<open>grow\<close>), reslicing it past the capacity panics.
\<close>

record DownloadStream =
  ClientChannel :: "Message list"
  CacheChannel :: "Message list"
  IsFileCacheable' :: bool
  DownloadBuffer :: bytes
  BufferCap :: nat
  FlushSize :: nat

text \<open>What the non-blocking \<^verbatim>\<open>select\<close> finds on the two return channels.\<close>

datatype returnSelect = ClientReturned "goError option" | CacheReturned | NothingReturned

definition writeAndRedirectBuffer :: "DownloadStream \<Rightarrow> DownloadStream" where
  "writeAndRedirectBuffer ds =
     (let ds1 = ds\<lparr>ClientChannel := ClientChannel ds @ [dataMessage (DownloadBuffer ds)]\<rparr>
      in if IsFileCacheable' ds1
         then ds1\<lparr>CacheChannel := CacheChannel ds1 @ [dataMessage (DownloadBuffer ds1)]\<rparr>
         else ds1)"

definition appendBuffer :: "(nat \<Rightarrow> nat \<Rightarrow> nat) \<Rightarrow> bytes \<Rightarrow> DownloadStream \<Rightarrow> DownloadStream" where
  "appendBuffer grow bs ds =
     (let needed = length (DownloadBuffer ds) + length bs in
      ds\<lparr>DownloadBuffer := DownloadBuffer ds @ bs,
         BufferCap := (if needed \<le> BufferCap ds then BufferCap ds else grow (BufferCap ds) needed)\<rparr>)"

definition bufferSource :: "(nat \<Rightarrow> nat \<Rightarrow> nat) \<Rightarrow> bytes \<Rightarrow> DownloadStream \<Rightarrow> DownloadStream outcome" where
  "bufferSource grow source ds =
     (if length (DownloadBuffer ds) + length source \<le> FlushSize ds
      then Done (appendBuffer grow source ds)
      else let fitSize = int (FlushSize ds) - int (length (DownloadBuffer ds)) in
        if fitSize < 0 then Panicked
        else let ds1 = writeAndRedirectBuffer (appendBuffer grow (take (nat fitSize) source) ds);
                 rest = length source - nat fitSize
             in if rest > BufferCap ds1 then Panicked
                else Done (ds1\<lparr>DownloadBuffer := drop (nat fitSize) source\<rparr>))"

definition WriteAt ::
  "(nat \<Rightarrow> nat \<Rightarrow> nat) \<Rightarrow> returnSelect \<Rightarrow> bytes \<Rightarrow> DownloadStream \<Rightarrow> (int \<times> goError option \<times> DownloadStream) outcome" where
  "WriteAt grow sel source ds =
     (case sel of
        ClientReturned err \<Rightarrow> Done (-1, err, ds)
      | CacheReturned \<Rightarrow>
          and_then (bufferSource grow source (ds\<lparr>IsFileCacheable' := False\<rparr>))
            (\<lambda>ds'. Done (int (length source), None, ds'))
      | NothingReturned \<Rightarrow>
          and_then (bufferSource grow source ds) (\<lambda>ds'. Done (int (length source), None, ds')))"

definition Flush :: "DownloadStream \<Rightarrow> int \<times> goError option \<times> DownloadStream" where
  "Flush ds =
     (if 0 < length (DownloadBuffer ds)
      then (int (length (DownloadBuffer ds)), None, writeAndRedirectBuffer ds)
      else (0, None, ds))"

text \<open>The AWS downloader writes the parts of the object one after the other and stops at an error.\<close>

fun writeParts :: "(nat \<Rightarrow> nat \<Rightarrow> nat) \<Rightarrow> (returnSelect \<times> bytes) list \<Rightarrow> DownloadStream \<Rightarrow>
    (goError option \<times> DownloadStream) outcome" where
  "writeParts grow [] ds = Done (None, ds)"
| "writeParts grow ((sel, source) # parts) ds =
     and_then (WriteAt grow sel source ds) (\<lambda>(n, err, ds1).
       if err \<noteq> None then Done (err, ds1)
       else if n < 0 then Done (Some (External ''short write''), ds1)
       else writeParts grow parts ds1)"

definition delivered :: "DownloadStream \<Rightarrow> bytes" where
  "delivered ds = concat (map Body (ClientChannel ds))"

definition ds_ok :: "DownloadStream \<Rightarrow> bool" where
  "ds_ok ds \<longleftrightarrow> length (DownloadBuffer ds) \<le> FlushSize ds \<and> length (DownloadBuffer ds) \<le> BufferCap ds"

definition grows :: "(nat \<Rightarrow> nat \<Rightarrow> nat) \<Rightarrow> bool" where
  "grows grow \<longleftrightarrow> (\<forall>c n. n \<le> grow c n)"

text \<open>
  One write: nothing is lost or reordered, full messages have exactly the flush size, and the cache
  channel gets the same messages as the client as long as the file is cacheable.
\<close>

definition wrote :: "bytes \<Rightarrow> DownloadStream \<Rightarrow> DownloadStream \<Rightarrow> bool" where
  "wrote source ds ds' \<longleftrightarrow> ds_ok ds' \<and> FlushSize ds' = FlushSize ds \<and>
     IsFileCacheable' ds' = IsFileCacheable' ds \<and>
     delivered ds' @ DownloadBuffer ds' = delivered ds @ DownloadBuffer ds @ source \<and>
     (\<exists>new. ClientChannel ds' = ClientChannel ds @ new \<and>
        list_all (\<lambda>m. Err m = None \<and> length (Body m) = FlushSize ds) new \<and>
        CacheChannel ds' = CacheChannel ds @ (if IsFileCacheable' ds then new else []))"

lemma bufferSource_ok:
  assumes ok: "ds_ok ds" and g: "grows grow" and small: "length source \<le> FlushSize ds"
  shows "returns (bufferSource grow source ds) (wrote source ds)"
proof (cases "length (DownloadBuffer ds) + length source \<le> FlushSize ds")
  case True
  then show ?thesis
    using ok g by (auto simp: bufferSource_def appendBuffer_def wrote_def ds_ok_def delivered_def grows_def Let_def)
next
  case False
  let ?fit = "FlushSize ds - length (DownloadBuffer ds)"
  have fit: "nat (int (FlushSize ds) - int (length (DownloadBuffer ds))) = ?fit" "?fit \<le> length source"
    "length (DownloadBuffer ds) + ?fit = FlushSize ds"
    using ok False by (auto simp: ds_ok_def)
  let ?ds1 = "appendBuffer grow (take ?fit source) ds"
  have cap: "FlushSize ds \<le> BufferCap ?ds1"
    using g fit(2,3) by (auto simp: appendBuffer_def grows_def Let_def)
  have buf: "DownloadBuffer ?ds1 = DownloadBuffer ds @ take ?fit source"
    "length (DownloadBuffer ds @ take ?fit source) = FlushSize ds"
    using fit by (simp_all add: appendBuffer_def Let_def)
  have rest: "length source - ?fit \<le> FlushSize ds" using small by simp
  have "bufferSource grow source ds = Done ((writeAndRedirectBuffer ?ds1)\<lparr>DownloadBuffer := drop ?fit source\<rparr>)"
    using False ok cap rest fit(1)
    by (simp add: bufferSource_def ds_ok_def Let_def writeAndRedirectBuffer_def)
  moreover have "wrote source ds ((writeAndRedirectBuffer ?ds1)\<lparr>DownloadBuffer := drop ?fit source\<rparr>)"
    using buf cap rest
    by (auto simp: wrote_def ds_ok_def delivered_def writeAndRedirectBuffer_def appendBuffer_def Let_def)
  ultimately show ?thesis by simp
qed

lemma wrote_trans: "wrote s1 ds ds1 \<Longrightarrow> wrote s2 ds1 ds2 \<Longrightarrow> wrote (s1 @ s2) ds ds2"
proof -
  assume 1: "wrote s1 ds ds1" and 2: "wrote s2 ds1 ds2"
  obtain n1 where n1: "ClientChannel ds1 = ClientChannel ds @ n1"
    "list_all (\<lambda>m. Err m = None \<and> length (Body m) = FlushSize ds) n1"
    "CacheChannel ds1 = CacheChannel ds @ (if IsFileCacheable' ds then n1 else [])"
    using 1 by (auto simp: wrote_def)
  obtain n2 where n2: "ClientChannel ds2 = ClientChannel ds1 @ n2"
    "list_all (\<lambda>m. Err m = None \<and> length (Body m) = FlushSize ds) n2"
    "CacheChannel ds2 = CacheChannel ds1 @ (if IsFileCacheable' ds then n2 else [])"
    using 1 2 by (auto simp: wrote_def)
  have "delivered ds2 @ DownloadBuffer ds2 = delivered ds1 @ DownloadBuffer ds1 @ s2"
    using 2 by (simp add: wrote_def)
  also have "\<dots> = delivered ds @ DownloadBuffer ds @ s1 @ s2"
    using 1 by (simp add: wrote_def flip: append_assoc)
  finally show ?thesis
    using 1 2 n1 n2 unfolding wrote_def by (auto intro!: exI [of _ "n1 @ n2"])
qed

lemma wrote_refl: "ds_ok ds \<Longrightarrow> wrote [] ds ds"
  by (simp add: wrote_def)

lemma writeParts_quiet:
  assumes "ds_ok ds" and g: "grows grow"
    and "list_all (\<lambda>(sel, source). sel = NothingReturned \<and> length source \<le> FlushSize ds) parts"
  shows "returns (writeParts grow parts ds) (\<lambda>(err, ds'). err = None \<and> wrote (concat (map snd parts)) ds ds')"
  using assms(1,3)
proof (induction parts arbitrary: ds)
  case Nil
  then show ?case by (simp add: wrote_refl)
next
  case (Cons part parts)
  obtain source where part: "part = (NothingReturned, source)" "length source \<le> FlushSize ds"
    using Cons.prems(2) by (cases part) auto
  obtain ds1 where ds1: "bufferSource grow source ds = Done ds1" "wrote source ds ds1"
    using bufferSource_ok [OF Cons.prems(1) g part(2)] by (auto simp: returns_iff)
  have "returns (writeParts grow parts ds1) (\<lambda>(err, ds'). err = None \<and> wrote (concat (map snd parts)) ds1 ds')"
    by (rule Cons.IH) (use ds1 Cons.prems(2) in \<open>auto simp: wrote_def\<close>)
  then obtain ds2 where "writeParts grow parts ds1 = Done (None, ds2)" "wrote (concat (map snd parts)) ds1 ds2"
    by (auto simp: returns_iff)
  with ds1 wrote_trans show ?case by (auto simp: part WriteAt_def)
qed

section \<open>The bucket\<close>

definition MB :: int where
  "MB = 1024 * 1024"

definition getS3ChunkSize :: "int \<Rightarrow> int" where
  "getS3ChunkSize envVariable = (if envVariable < 5 then 5 * MB else wrap64 (envVariable * MB))"

text \<open>
  Sending an object: the uploader reads the body to its end or its first error. \<open>upload\<close> is the
  uploader's answer for the bytes and the final error it read; the answer goes to the return channel.
\<close>

definition SendToS3 ::
  "(string \<Rightarrow> bytes \<Rightarrow> goError option \<Rightarrow> goError option) \<Rightarrow> nat list \<Rightarrow> string \<Rightarrow> Message list \<Rightarrow> bool \<Rightarrow>
   goError option outcome" where
  "SendToS3 upload reads fileName msgs closes =
     and_then (readMany reads \<lparr>ResidualChunk = [], Incoming = msgs, SenderCloses = closes\<rparr>)
       (\<lambda>(body, err, us). Done (upload fileName body err))"

text \<open>
  Receiving an object: \<open>parts\<close> are the writes of the downloader with what the \<^verbatim>\<open>select\<close> of each one
  finds, \<open>dlErr\<close> the error the downloader ends with. The result is the error returned and the
  messages on the client and cache channels, both closed on return.
\<close>

definition SendFromS3 ::
  "(nat \<Rightarrow> nat \<Rightarrow> nat) \<Rightarrow> (returnSelect \<times> bytes) list \<Rightarrow> goError option \<Rightarrow> nat \<Rightarrow> bool \<Rightarrow>
   (goError option \<times> Message list \<times> Message list) outcome" where
  "SendFromS3 grow parts dlErr flushSize isFileCachable =
     (let fail = (\<lambda>ds e.
        (Some e, ClientChannel ds @ [errMessage (Wrapped ''download'' e)],
         CacheChannel ds @ (if isFileCachable then [errMessage (Wrapped ''download'' e)] else [])))
      in and_then
        (writeParts grow parts \<lparr>ClientChannel = [], CacheChannel = [], IsFileCacheable' = isFileCachable,
            DownloadBuffer = [], BufferCap = 0, FlushSize = flushSize\<rparr>)
        (\<lambda>(werr, ds).
          case (if werr \<noteq> None then werr else dlErr) of
            Some e \<Rightarrow> Done (fail ds e)
          | None \<Rightarrow>
              (case Flush ds of
                 (_, Some e, ds1) \<Rightarrow> Done (fail ds1 e)
               | (_, None, ds1) \<Rightarrow> Done (None, ClientChannel ds1, CacheChannel ds1))))"

text \<open>
  Deleting an object asks for its head first, and turns the service's \<^verbatim>\<open>NotFound\<close> into an error of its
  own. An error of the service that is not an \<^verbatim>\<open>awserr.Error\<close> fails the type assertion.
\<close>

datatype s3Error = AwsError string | OtherError

datatype deleteError = NotFoundError | S3Error s3Error

record s3Service =
  headObject :: "string \<Rightarrow> s3Error + int"
  deleteObject :: "string \<Rightarrow> s3Error option"
  waitUntilObjectNotExists :: "string \<Rightarrow> s3Error option"

definition getHeadObject :: "s3Service \<Rightarrow> string \<Rightarrow> s3Error + int" where
  "getHeadObject svc fileName = (case headObject svc fileName of Inl e \<Rightarrow> Inl e | Inr out \<Rightarrow> Inr out)"

definition s3GetFileSize :: "s3Service \<Rightarrow> string \<Rightarrow> int \<times> s3Error option" where
  "s3GetFileSize svc fileName =
     (case getHeadObject svc fileName of Inl e \<Rightarrow> (-1, Some e) | Inr contentLength \<Rightarrow> (contentLength, None))"

definition DeleteFromS3 :: "s3Service \<Rightarrow> string \<Rightarrow> deleteError option outcome" where
  "DeleteFromS3 svc fileName =
     (case getHeadObject svc fileName of
        Inl (AwsError code) \<Rightarrow>
          Done (Some (if code = ''NotFound'' then NotFoundError else S3Error (AwsError code)))
      | Inl OtherError \<Rightarrow> Panicked
      | Inr _ \<Rightarrow>
          (case deleteObject svc fileName of
             Some e \<Rightarrow> Done (Some (S3Error e))
           | None \<Rightarrow> Done (map_option S3Error (waitUntilObjectNotExists svc fileName))))"

section \<open>Properties\<close>

text \<open>Reading the upload stream hands on exactly the bytes of the messages, in their order and for
  any sizes of the destination: what was read and what is still pending always make up the whole, and
  a reader with non-empty destinations reaches the end of the file having read everything.\<close>

theorem UploadStream_delivers_all:
  assumes "data_only msgs"
  shows "\<exists>out e us. readMany ns \<lparr>ResidualChunk = [], Incoming = msgs, SenderCloses = True\<rparr> = Done (out, e, us) \<and>
    concat (map Body msgs) = out @ pending us \<and>
    (e = None \<or> e = Some EOF \<and> out = concat (map Body msgs)) \<and>
    (list_all (\<lambda>n. 0 < n) ns \<and> length (concat (map Body msgs)) + length msgs < length ns \<longrightarrow> e = Some EOF)"
  using readMany_step [of "\<lparr>ResidualChunk = [], Incoming = msgs, SenderCloses = True\<rparr>" ns] assms
  by (simp add: pending_def)

theorem UploadStream_delivers_all_witness:
  "\<exists>out e us. readMany (replicate 8 2) \<lparr>ResidualChunk = [],
      Incoming = [dataMessage [1, 2, 3], dataMessage [], dataMessage [4]], SenderCloses = True\<rparr> = Done (out, e, us) \<and>
    e = Some EOF \<and> out = [1, 2, 3, 4]"
proof -
  have "data_only [dataMessage [1, 2, 3], dataMessage [], dataMessage [4]]" by simp
  from UploadStream_delivers_all [OF this, of "replicate 8 2"]
  obtain out e us where "readMany (replicate 8 2) \<lparr>ResidualChunk = [],
      Incoming = [dataMessage [1, 2, 3], dataMessage [], dataMessage [4]], SenderCloses = True\<rparr> = Done (out, e, us)"
    and "e = None \<or> e = Some EOF \<and> out = [1, 2, 3, 4]" and "e = Some EOF"
    by (auto simp: list_all_length)
  then show ?thesis by blast
qed

lemma SendFromS3_delivered:
  assumes g: "grows grow"
    and parts: "list_all (\<lambda>(sel, source). sel = NothingReturned \<and> length source \<le> flushSize) parts"
  shows "returns (SendFromS3 grow parts None flushSize cacheable)
    (\<lambda>(err, client, cached). err = None \<and> data_only client \<and>
      concat (map Body client) = concat (map snd parts) \<and>
      cached = (if cacheable then client else []))"
proof -
  let ?ds = "\<lparr>ClientChannel = [], CacheChannel = [], IsFileCacheable' = cacheable,
            DownloadBuffer = [], BufferCap = 0, FlushSize = flushSize\<rparr>"
  have "ds_ok ?ds" by (simp add: ds_ok_def)
  from writeParts_quiet [OF this g, of parts] parts
  obtain ds where run: "writeParts grow parts ?ds = Done (None, ds)" and w: "wrote (concat (map snd parts)) ?ds ds"
    by (auto simp: returns_iff)
  obtain new where "ClientChannel ds = new" "data_only new" "CacheChannel ds = (if cacheable then new else [])"
    "IsFileCacheable' ds = cacheable" "concat (map Body new) @ DownloadBuffer ds = concat (map snd parts)"
    using w by (auto simp: wrote_def delivered_def data_only_def list.pred_mono_strong)
  then show ?thesis
    using run
    by (auto simp: SendFromS3_def Flush_def writeAndRedirectBuffer_def data_only_def Let_def)
qed

text \<open>A download that succeeds delivers to the client exactly the bytes the downloader wrote, in
  order and without error messages, and the cache, when the file is cacheable, the same messages.\<close>

theorem SendFromS3_delivers_all:
  assumes g: "grows grow"
    and parts: "list_all (\<lambda>(sel, source). sel = NothingReturned \<and> length source \<le> flushSize) parts"
  shows "returns (SendFromS3 grow parts None flushSize cacheable)
    (\<lambda>(err, client, cached). err = None \<and> data_only client \<and>
      concat (map Body client) = concat (map snd parts) \<and>
      cached = (if cacheable then client else []))"
  using SendFromS3_delivered [OF assms] .

theorem SendFromS3_delivers_all_witness:
  "returns (SendFromS3 (\<lambda>c n. max (2 * c) n) [(NothingReturned, [1, 2]), (NothingReturned, [3, 4])] None 3 True)
    (\<lambda>(err, client, cached). err = None \<and> concat (map Body client) = [1, 2, 3, 4] \<and> cached = client)"
proof -
  have "grows (\<lambda>c n. max (2 * c) n)" by (simp add: grows_def)
  from SendFromS3_delivers_all [OF this, of 3 "[(NothingReturned, [1, 2]), (NothingReturned, [3, 4])]" True]
  show ?thesis by (auto elim!: returns_mono)
qed

text \<open>When the downloader fails, the last message on the client channel carries the error, and so
  does the last one on the cache channel of a cacheable file: a reader that discards its file at an
  error never keeps a truncated copy.\<close>

theorem SendFromS3_failure_announced:
  assumes "SendFromS3 grow parts (Some e) flushSize cacheable = Done (err, client, cached)"
  shows "err \<noteq> None \<and> Err (last client) \<noteq> None \<and> (if cacheable then Err (last cached) \<noteq> None else True)"
proof -
  let ?ds = "\<lparr>ClientChannel = [], CacheChannel = [], IsFileCacheable' = cacheable,
            DownloadBuffer = [], BufferCap = 0, FlushSize = flushSize\<rparr>"
  obtain werr ds where w: "writeParts grow parts ?ds = Done (werr, ds)"
    using assms by (auto simp: SendFromS3_def Let_def and_then_Done_iff)
  obtain e' where "(if werr \<noteq> None then werr else Some e) = Some e'"
    by (cases werr) auto
  with assms w have "err = Some e'" "client = ClientChannel ds @ [errMessage (Wrapped ''download'' e')]"
    "cached = CacheChannel ds @ (if cacheable then [errMessage (Wrapped ''download'' e')] else [])"
    by (simp_all add: SendFromS3_def Let_def)
  then show ?thesis by simp
qed

theorem SendFromS3_failure_announced_witness:
  "SendFromS3 (\<lambda>c n. n) [(NothingReturned, [1, 2])] (Some EOF) 3 True =
     Done (Some EOF, [errMessage (Wrapped ''download'' EOF)], [errMessage (Wrapped ''download'' EOF)]) \<and>
   Err (last [errMessage (Wrapped ''download'' EOF)]) \<noteq> None"
proof -
  have run: "SendFromS3 (\<lambda>c n. n) [(NothingReturned, [1, 2])] (Some EOF) 3 True =
     Done (Some EOF, [errMessage (Wrapped ''download'' EOF)], [errMessage (Wrapped ''download'' EOF)])"
    by (simp add: SendFromS3_def WriteAt_def bufferSource_def appendBuffer_def Let_def)
  with SendFromS3_failure_announced [OF run] show ?thesis by simp
qed

text \<open>A single write longer than the free part of the buffer plus its capacity panics: the buffer is
  resliced beyond its capacity.\<close>

theorem WriteAt_oversized_panics:
  assumes "length (DownloadBuffer ds) \<le> FlushSize ds"
    and "FlushSize ds < length (DownloadBuffer ds) + length source"
    and "\<And>c n. grow c n = n" and "BufferCap ds \<le> FlushSize ds"
    and "2 * FlushSize ds < length (DownloadBuffer ds) + length source"
  shows "WriteAt grow NothingReturned source ds = Panicked"
  using assms
  by (auto simp: WriteAt_def bufferSource_def writeAndRedirectBuffer_def appendBuffer_def Let_def)

theorem WriteAt_oversized_panics_witness:
  "WriteAt (\<lambda>c n. n) NothingReturned [1, 2, 3, 4, 5] \<lparr>ClientChannel = [], CacheChannel = [],
     IsFileCacheable' = False, DownloadBuffer = [], BufferCap = 0, FlushSize = 2\<rparr> = Panicked"
  by (rule WriteAt_oversized_panics) simp_all

end
