(* ===== verification/Redirection.thy ===== *)
theory Redirection
  imports Channels
begin

text \<open>
  The data plane of an edge: receiving chunks and redirecting them to the main destination and to the
  cache (\<^verbatim>\<open>rcvAndRedirectChunks\<close>, \<^verbatim>\<open>redirectStreamToClient\<close> of \<^verbatim>\<open>edge/server/stream_redirection.go\<close>),
  and handing out a cached file (\<^verbatim>\<open>readFromLocalCache\<close> of \<^verbatim>\<open>edge/server/server_services.go\<close>,
  \<^verbatim>\<open>DownloadFromEdge\<close> of \<^verbatim>\<open>edge/peer/peer_services.go\<close>).
\<close>

section \<open>Receiving and redirecting\<close>

text \<open>
  An execution is a sequence of events: what one iteration of the loop finds in its \<^verbatim>\<open>select\<close> (a value
  on one of the two return channels, or else the result of the next \<^verbatim>\<open>Recv\<close>), and the goroutines at the
  other ends taking a message out of their channel. \<open>mainTaken\<close>, \<open>cacheTaken\<close> and \<open>received\<close> record
  the history.
\<close>

datatype recvResult = RecvChunk bytes | RecvEOF | RecvErr goError

datatype rcvEvent =
    MainReturned "goError option"
  | CacheReturned "goError option"
  | Received recvResult
  | MainTakes
  | CacheTakes

record rcvState =
  mainCh :: "Message chan"
  mainTaken :: "Message list"
  cacheCh :: "Message chan"
  cacheTaken :: "Message list"
  received :: "bytes list"
  cacheable :: bool
  endLoop :: bool
  mainChannelError :: "goError option"
  grpcError :: "goError option"

definition sendMain :: "Message \<Rightarrow> rcvState \<Rightarrow> rcvState outcome" where
  "sendMain m st = and_then (chan_send m (mainCh st)) (\<lambda>ch. Done (st\<lparr>mainCh := ch\<rparr>))"

definition sendCache :: "Message \<Rightarrow> rcvState \<Rightarrow> rcvState outcome" where
  "sendCache m st = and_then (chan_send m (cacheCh st)) (\<lambda>ch. Done (st\<lparr>cacheCh := ch\<rparr>))"

definition sendBoth :: "Message \<Rightarrow> rcvState \<Rightarrow> rcvState outcome" where
  "sendBoth m st = and_then (sendMain m st) (\<lambda>st1. if cacheable st1 then sendCache m st1 else Done st1)"

fun rcvStep :: "rcvEvent \<Rightarrow> rcvState \<Rightarrow> rcvState outcome" where
  "rcvStep (MainReturned None) st = Done (st\<lparr>mainChannelError := None\<rparr>)"
| "rcvStep (MainReturned (Some e)) st =
     and_then (sendCache (errMessage e) st) (\<lambda>st1. Done (st1\<lparr>mainChannelError := Some e, endLoop := True\<rparr>))"
| "rcvStep (CacheReturned err) st = Done (if err \<noteq> None then st\<lparr>cacheable := False\<rparr> else st)"
| "rcvStep (Received RecvEOF) st = Done (st\<lparr>endLoop := True\<rparr>)"
| "rcvStep (Received (RecvErr e)) st =
     and_then (sendBoth (errMessage (CustomError CHUNK_ERROR)) st)
       (\<lambda>st1. Done (st1\<lparr>endLoop := True, grpcError := Some e\<rparr>))"
| "rcvStep (Received (RecvChunk b)) st =
     and_then (sendBoth (dataMessage b) st) (\<lambda>st1. Done (st1\<lparr>received := received st1 @ [b]\<rparr>))"
| "rcvStep MainTakes st =
     Done (case buf (mainCh st) of
       [] \<Rightarrow> st
     | m # ms \<Rightarrow> st\<lparr>mainCh := (mainCh st)\<lparr>buf := ms\<rparr>, mainTaken := mainTaken st @ [m]\<rparr>)"
| "rcvStep CacheTakes st =
     Done (case buf (cacheCh st) of
       [] \<Rightarrow> st
     | m # ms \<Rightarrow> st\<lparr>cacheCh := (cacheCh st)\<lparr>buf := ms\<rparr>, cacheTaken := cacheTaken st @ [m]\<rparr>)"

fun rcvLoop :: "rcvEvent list \<Rightarrow> rcvState \<Rightarrow> rcvState outcome" where
  "rcvLoop [] st = (if endLoop st then Done st else Blocked)"
| "rcvLoop (ev # evs) st = (if endLoop st then Done st else and_then (rcvStep ev st) (rcvLoop evs))"

definition rcvStart :: "RedirectionChannel \<Rightarrow> RedirectionChannel \<Rightarrow> bool \<Rightarrow> rcvState" where
  "rcvStart mainRC cacheRC isFileCacheable =
     \<lparr>mainCh = MessageChannel mainRC, mainTaken = [], cacheCh = MessageChannel cacheRC, cacheTaken = [],
      received = [], cacheable = isFileCacheable, endLoop = False, mainChannelError = None, grpcError = None\<rparr>"

text \<open>After the loop both channels are closed, and the last value of the main return channel
  (\<open>finalMain\<close>) is waited for unless that channel has reported an error already.\<close>

definition rcvAndRedirectChunks ::
  "rcvEvent list \<Rightarrow> goError option \<Rightarrow> RedirectionChannel \<Rightarrow> RedirectionChannel \<Rightarrow> bool \<Rightarrow>
   (goError option \<times> rcvState) outcome" where
  "rcvAndRedirectChunks evs finalMain mainRC cacheRC isFileCacheable =
     and_then (rcvLoop evs (rcvStart mainRC cacheRC isFileCacheable)) (\<lambda>st.
     and_then (chan_close (mainCh st)) (\<lambda>mch.
     and_then (chan_close (cacheCh st)) (\<lambda>cch.
       let st1 = st\<lparr>mainCh := mch, cacheCh := cch\<rparr>;
           err = (if mainChannelError st = None then finalMain else None);
           mainErr = (if err \<noteq> None then err else mainChannelError st)
       in Done (case grpcError st of
                  Some e \<Rightarrow> Some (Wrapped ''GRPC_ERROR'' e)
                | None \<Rightarrow> map_option (Wrapped ''MAIN_CHANNEL_ERROR'') mainErr, st1))))"

text \<open>Everything put on a channel so far, taken or still buffered.\<close>

definition mainSent :: "rcvState \<Rightarrow> Message list" where
  "mainSent st = mainTaken st @ buf (mainCh st)"

definition cacheSent :: "rcvState \<Rightarrow> Message list" where
  "cacheSent st = cacheTaken st @ buf (cacheCh st)"

definition rcv_inv :: "rcvState \<Rightarrow> bool" where
  "rcv_inv st \<longleftrightarrow>
     (\<not> endLoop st \<longrightarrow> grpcError st = None \<and> mainChannelError st = None) \<and>
     mainSent st = map dataMessage (received st) @
       (if grpcError st = None then [] else [errMessage (CustomError CHUNK_ERROR)]) \<and>
     (cacheable st \<longrightarrow> cacheSent st = map dataMessage (received st) @
       (case mainChannelError st of
          Some e \<Rightarrow> [errMessage e]
        | None \<Rightarrow> if grpcError st = None then [] else [errMessage (CustomError CHUNK_ERROR)]))"

lemma sendMain_Done:
  "sendMain m st = Done st' \<longleftrightarrow> \<not> isClosed (mainCh st) \<and> length (buf (mainCh st)) < chanCap (mainCh st) \<and>
     st' = st\<lparr>mainCh := (mainCh st)\<lparr>buf := buf (mainCh st) @ [m]\<rparr>\<rparr>"
  by (auto simp: sendMain_def chan_send_def)

lemma sendCache_Done:
  "sendCache m st = Done st' \<longleftrightarrow> \<not> isClosed (cacheCh st) \<and> length (buf (cacheCh st)) < chanCap (cacheCh st) \<and>
     st' = st\<lparr>cacheCh := (cacheCh st)\<lparr>buf := buf (cacheCh st) @ [m]\<rparr>\<rparr>"
  by (auto simp: sendCache_def chan_send_def)

lemma rcvStep_inv:
  assumes "rcv_inv st" and "\<not> endLoop st" and "rcvStep ev st = Done st'"
  shows "rcv_inv st'"
proof (cases ev)
  case (MainReturned err)
  with assms show ?thesis
    by (cases err) (auto simp: rcv_inv_def mainSent_def cacheSent_def and_then_Done_iff sendCache_Done)
next
  case (CacheReturned err)
  with assms show ?thesis
    by (auto simp: rcv_inv_def mainSent_def cacheSent_def split: if_splits)
next
  case (Received r)
  with assms show ?thesis
    by (cases r) (auto simp: rcv_inv_def mainSent_def cacheSent_def and_then_Done_iff sendBoth_def
        sendMain_Done sendCache_Done split: if_splits)
next
  case MainTakes
  with assms show ?thesis
    by (auto simp: rcv_inv_def mainSent_def cacheSent_def split: list.splits)
next
  case CacheTakes
  with assms show ?thesis
    by (auto simp: rcv_inv_def mainSent_def cacheSent_def split: list.splits)
qed

lemma rcvLoop_inv: "rcv_inv st \<Longrightarrow> rcvLoop evs st = Done st' \<Longrightarrow> rcv_inv st' \<and> endLoop st'"
proof (induction evs arbitrary: st)
  case Nil
  then show ?case by (simp split: if_splits)
next
  case (Cons ev evs)
  show ?case
  proof (cases "endLoop st")
    case True
    with Cons.prems show ?thesis by simp
  next
    case False
    with Cons.prems(2) obtain st1 where "rcvStep ev st = Done st1" "rcvLoop evs st1 = Done st'"
      by (auto simp: and_then_Done_iff)
    with rcvStep_inv [OF Cons.prems(1) False] Cons.IH show ?thesis by blast
  qed
qed

lemma rcvStep_open:
  "rcvStep ev st = Done st' \<Longrightarrow> isClosed (mainCh st') = isClosed (mainCh st) \<and>
     isClosed (cacheCh st') = isClosed (cacheCh st)"
  by (induction ev st rule: rcvStep.induct)
    (auto simp: and_then_Done_iff sendBoth_def sendMain_Done sendCache_Done split: if_splits list.splits)

lemma rcvLoop_open:
  "rcvLoop evs st = Done st' \<Longrightarrow> isClosed (mainCh st') = isClosed (mainCh st) \<and>
     isClosed (cacheCh st') = isClosed (cacheCh st)"
proof (induction evs arbitrary: st)
  case Nil
  then show ?case by (simp split: if_splits)
next
  case (Cons ev evs)
  show ?case
  proof (cases "endLoop st")
    case True
    with Cons.prems show ?thesis by simp
  next
    case False
    with Cons.prems obtain st1 where "rcvStep ev st = Done st1" "rcvLoop evs st1 = Done st'"
      by (auto simp: and_then_Done_iff)
    with rcvStep_open Cons.IH show ?thesis by metis
  qed
qed

text \<open>A channel pair as the handlers create it.\<close>

lemma rcvStart_fresh:
  "rcv_inv (rcvStart (NewRedirectionChannel n) (NewRedirectionChannel m) b)"
  "isClosed (mainCh (rcvStart (NewRedirectionChannel n) (NewRedirectionChannel m) b)) = False"
  "isClosed (cacheCh (rcvStart (NewRedirectionChannel n) (NewRedirectionChannel m) b)) = False"
  by (simp_all add: rcv_inv_def rcvStart_def NewRedirectionChannel_def make_chan_def mainSent_def cacheSent_def)

text \<open>The result of a call whose loop ended, over the final state of the loop.\<close>

lemma rcvAndRedirectChunks_result:
  assumes "rcvAndRedirectChunks evs finalMain (NewRedirectionChannel n) (NewRedirectionChannel m) b = Done (err, st)"
  obtains st0 where "rcvLoop evs (rcvStart (NewRedirectionChannel n) (NewRedirectionChannel m) b) = Done st0"
    and "rcv_inv st0" and "endLoop st0"
    and "st = st0\<lparr>mainCh := (mainCh st0)\<lparr>isClosed := True\<rparr>, cacheCh := (cacheCh st0)\<lparr>isClosed := True\<rparr>\<rparr>"
    and "err = (case grpcError st0 of
        Some e \<Rightarrow> Some (Wrapped ''GRPC_ERROR'' e)
      | None \<Rightarrow> map_option (Wrapped ''MAIN_CHANNEL_ERROR'')
          (case mainChannelError st0 of Some e \<Rightarrow> Some e | None \<Rightarrow> finalMain))"
proof -
  let ?start = "rcvStart (NewRedirectionChannel n) (NewRedirectionChannel m) b"
  obtain st0 where run: "rcvLoop evs ?start = Done st0"
    and rest: "and_then (chan_close (mainCh st0)) (\<lambda>mch. and_then (chan_close (cacheCh st0)) (\<lambda>cch.
       let st1 = st0\<lparr>mainCh := mch, cacheCh := cch\<rparr>;
           err = (if mainChannelError st0 = None then finalMain else None);
           mainErr = (if err \<noteq> None then err else mainChannelError st0)
       in Done (case grpcError st0 of
                  Some e \<Rightarrow> Some (Wrapped ''GRPC_ERROR'' e)
                | None \<Rightarrow> map_option (Wrapped ''MAIN_CHANNEL_ERROR'') mainErr, st1))) = Done (err, st)"
    using assms unfolding rcvAndRedirectChunks_def and_then_Done_iff by blast
  have "\<not> isClosed (mainCh st0)" "\<not> isClosed (cacheCh st0)"
    using rcvLoop_open [OF run] rcvStart_fresh(2,3) by simp_all
  with rest have st: "st = st0\<lparr>mainCh := (mainCh st0)\<lparr>isClosed := True\<rparr>, cacheCh := (cacheCh st0)\<lparr>isClosed := True\<rparr>\<rparr>"
    and err: "err = (case grpcError st0 of
        Some e \<Rightarrow> Some (Wrapped ''GRPC_ERROR'' e)
      | None \<Rightarrow> map_option (Wrapped ''MAIN_CHANNEL_ERROR'')
          (case mainChannelError st0 of Some e \<Rightarrow> Some e | None \<Rightarrow> finalMain))"
    by (auto simp: chan_close_def Let_def split: option.splits)
  from rcvLoop_inv [OF rcvStart_fresh(1) run] run st err show ?thesis by (intro that) auto
qed

text \<open>A cache goroutine that has gone away without reading: the channel only fills up.\<close>

definition ignores_cache :: "rcvEvent \<Rightarrow> bool" where
  "ignores_cache ev \<longleftrightarrow> (case ev of CacheTakes \<Rightarrow> False | CacheReturned _ \<Rightarrow> False | _ \<Rightarrow> True)"

definition cache_filling :: "nat \<Rightarrow> rcvState \<Rightarrow> bool" where
  "cache_filling n st \<longleftrightarrow> cacheable st \<and> chanCap (cacheCh st) = n \<and> length (received st) \<le> length (buf (cacheCh st)) \<and>
     length (buf (cacheCh st)) \<le> n"

lemma rcvStep_filling:
  "rcvStep ev st = Done st' \<Longrightarrow> ignores_cache ev \<Longrightarrow> cache_filling n st \<Longrightarrow> cache_filling n st'"
  by (induction ev st rule: rcvStep.induct)
    (auto simp: ignores_cache_def cache_filling_def and_then_Done_iff sendBoth_def sendMain_Done
      sendCache_Done split: if_splits list.splits)

lemma rcvLoop_filling:
  "rcvLoop evs st = Done st' \<Longrightarrow> list_all ignores_cache evs \<Longrightarrow> cache_filling n st \<Longrightarrow> cache_filling n st'"
proof (induction evs arbitrary: st)
  case Nil
  then show ?case by (simp split: if_splits)
next
  case (Cons ev evs)
  show ?case
  proof (cases "endLoop st")
    case True
    with Cons.prems show ?thesis by simp
  next
    case False
    with Cons.prems obtain st1 where "rcvStep ev st = Done st1" "rcvLoop evs st1 = Done st'"
      by (auto simp: and_then_Done_iff)
    moreover have "cache_filling n st1"
      using rcvStep_filling [OF _ _ Cons.prems(3)] Cons.prems(2) calculation(1) by simp
    ultimately show ?thesis using Cons.IH Cons.prems(2) by simp
  qed
qed

section \<open>Downloading from another edge\<close>

text \<open>
  \<^verbatim>\<open>downloadFromOtherEdge\<close> fills the client and cache channels of \<^verbatim>\<open>sendFromOtherEdge\<close>. Its
  arguments are the answers of gRPC: the error of dialling, of starting the call and of closing it,
  and the events of the redirection.
\<close>

definition sendErr :: "goError \<Rightarrow> bool \<Rightarrow> rcvState \<Rightarrow> rcvState outcome" where
  "sendErr e isFileCacheable st =
     and_then (sendMain (errMessage e) st) (\<lambda>st1.
       if isFileCacheable then sendCache (errMessage e) st1 else Done st1)"

definition downloadFromOtherEdge ::
  "goError option \<Rightarrow> goError option \<Rightarrow> rcvEvent list \<Rightarrow> goError option \<Rightarrow> goError option \<Rightarrow>
   RedirectionChannel \<Rightarrow> RedirectionChannel \<Rightarrow> bool \<Rightarrow> rcvState outcome" where
  "downloadFromOtherEdge dialErr callErr evs finalMain closeErr clientRC cacheRC isFileCacheable =
     (if dialErr \<noteq> None \<or> callErr \<noteq> None
      then sendErr (CustomError REQUEST_FAILED) isFileCacheable (rcvStart clientRC cacheRC isFileCacheable)
      else and_then (rcvAndRedirectChunks evs finalMain clientRC cacheRC isFileCacheable) (\<lambda>(err, st).
        and_then (case err of Some e \<Rightarrow> sendErr e isFileCacheable st | None \<Rightarrow> Done st) (\<lambda>st1.
          if closeErr \<noteq> None then sendErr (CustomError STREAM_CLOSE_ERROR) isFileCacheable st1
          else Done st1)))"

section \<open>Sending a stream to the client\<close>

record FileChunk =
  Chunk :: bytes
  SeqNum :: int

text \<open>
  The loop over the client channel: \<open>sendResult n\<close> is the error of the n-th gRPC send. The result is
  the error returned, the chunks sent, and the values put on the return channel (which is closed on
  return).
\<close>

fun redirectLoop :: "(int \<Rightarrow> goError option) \<Rightarrow> bool \<Rightarrow> Message list \<Rightarrow> int \<Rightarrow>
    (goError option \<times> FileChunk list \<times> goError option list) outcome" where
  "redirectLoop sendResult closes [] n = (if closes then Done (None, [], []) else Blocked)"
| "redirectLoop sendResult closes (m # ms) n =
     (case Err m of
        Some e \<Rightarrow> Done (Some e, [], [])
      | None \<Rightarrow>
          (case sendResult n of
             Some e \<Rightarrow> Done (Some e, [], [Some e])
           | None \<Rightarrow> and_then (redirectLoop sendResult closes ms (wrap64 (n + 1)))
               (\<lambda>(err, sent, rets). Done (err, \<lparr>Chunk = Body m, SeqNum = n\<rparr> # sent, rets))))"

definition redirectStreamToClient :: "(int \<Rightarrow> goError option) \<Rightarrow> bool \<Rightarrow> Message list \<Rightarrow>
    (goError option \<times> FileChunk list \<times> goError option list) outcome" where
  "redirectStreamToClient sendResult closes msgs = redirectLoop sendResult closes msgs 0"

lemma redirectLoop_all:
  assumes "list_all (\<lambda>m. Err m = None) msgs"
    and "0 \<le> n" and "n + int (length msgs) < 2 ^ 63"
  shows "\<exists>sent. redirectLoop (\<lambda>_. None) True msgs n = Done (None, sent, []) \<and>
    map Chunk sent = map Body msgs \<and> map SeqNum sent = map (\<lambda>i. n + int i) [0..<length msgs]"
  using assms
proof (induction msgs arbitrary: n)
  case Nil
  then show ?case by simp
next
  case (Cons m ms)
  have w: "wrap64 (n + 1) = n + 1" using Cons.prems by (intro wrap64_id) auto
  obtain sent where s: "redirectLoop (\<lambda>_. None) True ms (n + 1) = Done (None, sent, [])"
    "map Chunk sent = map Body ms" "map SeqNum sent = map (\<lambda>i. (n + 1) + int i) [0..<length ms]"
    using Cons.IH [of "n + 1"] Cons.prems by (auto simp: add.assoc)
  have "map (\<lambda>i. n + int i) [0..<length (m # ms)] = n # map (\<lambda>i. (n + 1) + int i) [0..<length ms]"
    by (simp add: upt_conv_Cons map_Suc_upt [symmetric] del: upt_Suc)
  with s w Cons.prems show ?case by simp
qed

text \<open>Up to the first error message everything is sent, and that error is returned.\<close>

lemma redirectLoop_error:
  assumes "list_all (\<lambda>m. Err m = None) msgs"
  shows "\<exists>sent. redirectLoop (\<lambda>_. None) closes (msgs @ errMessage e # rest) n = Done (Some e, sent, []) \<and>
    map Chunk sent = map Body msgs"
  using assms
proof (induction msgs arbitrary: n)
  case Nil
  then show ?case by simp
next
  case (Cons m ms)
  then obtain sent where "redirectLoop (\<lambda>_. None) closes (ms @ errMessage e # rest) (wrap64 (n + 1)) =
      Done (Some e, sent, [])" "map Chunk sent = map Body ms"
    by fastforce
  with Cons.prems show ?case by simp
qed

section \<open>Serving a file to another edge\<close>

text \<open>
  The file is read into one buffer of \<open>chunkSize\<close> bytes; each message is serialised by gRPC before the
  next read. \<open>readFault n\<close> tells whether the n-th read fails; errors of the sends are ignored.
\<close>

function sendChunks :: "(nat \<Rightarrow> bool) \<Rightarrow> nat \<Rightarrow> nat \<Rightarrow> bytes \<Rightarrow> goError option \<times> FileChunk list" where
  "sendChunks readFault k n bs =
     (if readFault n then (Some (CustomError FILE_READ_ERROR), [])
      else if bs = [] \<or> k = 0 then (None, [])
      else let (err, sent) = sendChunks readFault k (Suc n) (drop k bs)
           in (err, \<lparr>Chunk = take k bs, SeqNum = int n\<rparr> # sent))"
  by pat_completeness auto
termination
  by (relation "measure (\<lambda>(f, k, n, bs). length bs)") auto

declare sendChunks.simps [simp del]

definition DownloadFromEdge :: "(nat \<Rightarrow> bool) \<Rightarrow> int \<Rightarrow> bytes option \<Rightarrow> (goError option \<times> FileChunk list) outcome" where
  "DownloadFromEdge readFault chunkSize file =
     (case file of
        None \<Rightarrow> Done (Some (CustomError FILE_NOT_FOUND_ERROR), [])
      | Some bs \<Rightarrow>
          if chunkSize < 0 then Panicked
          else if chunkSize = 0 then Blocked
          else Done (sendChunks readFault (nat chunkSize) 0 bs))"

lemma sendChunks_all:
  assumes "\<And>n. \<not> readFault n" and "0 < k"
  shows "\<exists>sent. sendChunks readFault k n bs = (None, sent) \<and> concat (map Chunk sent) = bs \<and>
    map SeqNum sent = map int [n..<n + length sent] \<and>
    list_all (\<lambda>c. 0 < length (Chunk c) \<and> length (Chunk c) \<le> k) sent"
proof (induction "length bs" arbitrary: n bs rule: less_induct)
  case less
  show ?case
  proof (cases "bs = []")
    case True
    with assms show ?thesis
      by (intro exI [of _ "[]"]) (simp add: sendChunks.simps [of readFault k n "[]"])
  next
    case False
    with assms(2) have "length (drop k bs) < length bs" by simp
    from less [OF this, of "Suc n"] obtain sent where
      s: "sendChunks readFault k (Suc n) (drop k bs) = (None, sent)" "concat (map Chunk sent) = drop k bs"
      "map SeqNum sent = map int [Suc n..<Suc n + length sent]"
      "list_all (\<lambda>c. 0 < length (Chunk c) \<and> length (Chunk c) \<le> k) sent" by auto
    have "map int [n..<n + Suc (length sent)] = int n # map int [Suc n..<Suc n + length sent]"
      by (simp add: upt_conv_Cons del: upt_Suc)
    with s assms False show ?thesis by (simp add: sendChunks.simps [of readFault k n bs])
  qed
qed

section \<open>Serving a file from the local cache\<close>

text \<open>
  \<^verbatim>\<open>readFromLocalCache\<close> reads the file into one buffer and puts \<^verbatim>\<open>buffer[:bytesRead]\<close> on the client
  channel: the message is a view on the buffer, not a copy, and is read when the client loop takes
  it. The reader and the client loop run concurrently; a step is one of them moving. The queue holds
  the lengths of the views that wait in the channel.
\<close>

record localReader =
  fileRest :: bytes
  readBuffer :: bytes
  pendingSend :: "nat option"
  clientQueue :: "nat list"
  clientGot :: "bytes list"
  readerDone :: bool

definition openReader :: "nat \<Rightarrow> bytes \<Rightarrow> localReader" where
  "openReader chunkSize bs = \<lparr>fileRest = bs, readBuffer = replicate chunkSize 0, pendingSend = None,
     clientQueue = [], clientGot = [], readerDone = False\<rparr>"

inductive readerStep :: "nat \<Rightarrow> nat \<Rightarrow> localReader \<Rightarrow> localReader \<Rightarrow> bool"
  for cap :: nat and chunkSize :: nat where
  fileRead: "\<not> readerDone s \<Longrightarrow> pendingSend s = None \<Longrightarrow> fileRest s \<noteq> [] \<Longrightarrow>
    n = min chunkSize (length (fileRest s)) \<Longrightarrow>
    readerStep cap chunkSize s (s\<lparr>readBuffer := take n (fileRest s) @ drop n (readBuffer s),
      fileRest := drop n (fileRest s), pendingSend := Some n\<rparr>)"
| chanSend: "pendingSend s = Some n \<Longrightarrow> length (clientQueue s) < cap \<Longrightarrow>
    readerStep cap chunkSize s (s\<lparr>pendingSend := None, clientQueue := clientQueue s @ [n]\<rparr>)"
| clientTake: "clientQueue s = n # q \<Longrightarrow>
    readerStep cap chunkSize s (s\<lparr>clientQueue := q, clientGot := clientGot s @ [take n (readBuffer s)]\<rparr>)"
| endOfFile: "\<not> readerDone s \<Longrightarrow> pendingSend s = None \<Longrightarrow> fileRest s = [] \<Longrightarrow>
    readerStep cap chunkSize s (s\<lparr>readerDone := True\<rparr>)"
| clientFailed: "\<not> readerDone s \<Longrightarrow> pendingSend s = None \<Longrightarrow>
    readerStep cap chunkSize s (s\<lparr>readerDone := True\<rparr>)"

inductive_cases readerStepE: "readerStep cap chunkSize s t"

inductive readerReach :: "nat \<Rightarrow> nat \<Rightarrow> bytes \<Rightarrow> localReader \<Rightarrow> bool"
  for cap :: nat and chunkSize :: nat and bs :: bytes where
  start: "readerReach cap chunkSize bs (openReader chunkSize bs)"
| step: "readerReach cap chunkSize bs s \<Longrightarrow> readerStep cap chunkSize s t \<Longrightarrow> readerReach cap chunkSize bs t"

text \<open>A file that fits in the buffer passes through four stages.\<close>

definition single_inv :: "bytes \<Rightarrow> localReader \<Rightarrow> bool" where
  "single_inv bs s \<longleftrightarrow>
     (fileRest s = bs \<and> bs \<noteq> [] \<and> pendingSend s = None \<and> clientQueue s = [] \<and> clientGot s = []) \<or>
     (fileRest s = [] \<and> take (length bs) (readBuffer s) = bs \<and>
       (pendingSend s = Some (length bs) \<and> clientQueue s = [] \<and> clientGot s = [] \<or>
        pendingSend s = None \<and> clientQueue s = [length bs] \<and> clientGot s = [] \<or>
        pendingSend s = None \<and> clientQueue s = [] \<and> clientGot s = [bs]))"

lemma single_inv_step:
  "readerStep cap k s t \<Longrightarrow> length bs \<le> k \<Longrightarrow> single_inv bs s \<Longrightarrow> single_inv bs t"
  by (erule readerStepE) (auto simp: single_inv_def)

lemma single_inv_reach:
  assumes "readerReach cap k bs s" and "length bs \<le> k" and "bs \<noteq> []"
  shows "single_inv bs s"
  using assms(1)
proof induction
  case start
  with assms(3) show ?case by (simp add: single_inv_def openReader_def)
next
  case (step s t)
  with assms(2) show ?case by (blast intro: single_inv_step)
qed

section \<open>Properties\<close>


definition quietRun :: "rcvEvent list" where
  "quietRun = [Received (RecvChunk [1]), MainTakes, CacheTakes, Received (RecvChunk [2]), Received RecvEOF]"


text \<open>A failure of the main destination that only shows when it finishes comes too late for the
  cache: the call reports the error, while the cache has been sent the complete file, without an
  error, on a channel that is closed.\<close>

theorem late_failure_not_announced:
  assumes run: "rcvAndRedirectChunks evs (Some e) (NewRedirectionChannel n) (NewRedirectionChannel m) b = Done (err, st)"
    and "grpcError st = None" and "mainChannelError st = None" and "cacheable st"
  shows "err = Some (Wrapped ''MAIN_CHANNEL_ERROR'' e) \<and> cacheSent st = map dataMessage (received st) \<and>
    isClosed (cacheCh st)"
proof -
  obtain st0 where inv: "rcv_inv st0"
    and st: "st = st0\<lparr>mainCh := (mainCh st0)\<lparr>isClosed := True\<rparr>, cacheCh := (cacheCh st0)\<lparr>isClosed := True\<rparr>\<rparr>"
    and err: "err = (case grpcError st0 of
        Some e \<Rightarrow> Some (Wrapped ''GRPC_ERROR'' e)
      | None \<Rightarrow> map_option (Wrapped ''MAIN_CHANNEL_ERROR'')
          (case mainChannelError st0 of Some e \<Rightarrow> Some e | None \<Rightarrow> Some e))"
    using rcvAndRedirectChunks_result [OF run] by blast
  from inv err assms(2-4) show ?thesis
    by (auto simp: st rcv_inv_def cacheSent_def)
qed

theorem late_failure_not_announced_witness:
  "\<exists>err st. rcvAndRedirectChunks quietRun (Some (External ''S3'')) (NewRedirectionChannel 5) (NewRedirectionChannel 5) True = Done (err, st) \<and>
     err \<noteq> None \<and> cacheSent st = [dataMessage [1], dataMessage [2]]"
proof -
  obtain err st where run: "rcvAndRedirectChunks quietRun (Some (External ''S3'')) (NewRedirectionChannel 5) (NewRedirectionChannel 5) True = Done (err, st)"
    and facts: "cacheable st" "grpcError st = None" "mainChannelError st = None" "received st = [[1], [2]]"
    by (simp add: rcvAndRedirectChunks_def quietRun_def rcvStart_def NewRedirectionChannel_def make_chan_def
        sendBoth_def sendMain_def sendCache_def chan_send_def chan_close_def Let_def)
  from late_failure_not_announced [OF run facts(2,3,1)] facts(4) run show ?thesis by auto
qed

text \<open>When the cache goroutine neither reads nor reports an error, the transfer of a cacheable file
  of more chunks than the cache channel holds never finishes.\<close>

theorem silent_cache_stalls_transfer:
  assumes "list_all ignores_cache evs"
    and run: "rcvAndRedirectChunks evs finalMain (NewRedirectionChannel n) (NewRedirectionChannel m) True = Done (err, st)"
  shows "length (received st) \<le> m"
proof -
  obtain st0 where loop: "rcvLoop evs (rcvStart (NewRedirectionChannel n) (NewRedirectionChannel m) True) = Done st0"
    and st: "st = st0\<lparr>mainCh := (mainCh st0)\<lparr>isClosed := True\<rparr>, cacheCh := (cacheCh st0)\<lparr>isClosed := True\<rparr>\<rparr>"
    using rcvAndRedirectChunks_result [OF run] by blast
  have "cache_filling m (rcvStart (NewRedirectionChannel n) (NewRedirectionChannel m) True)"
    by (simp add: cache_filling_def rcvStart_def NewRedirectionChannel_def make_chan_def)
  from rcvLoop_filling [OF loop assms(1) this] show ?thesis by (simp add: cache_filling_def st)
qed

theorem silent_cache_stalls_transfer_witness:
  "\<exists>err st. rcvAndRedirectChunks [Received (RecvChunk [1]), MainTakes, Received RecvEOF] None
      (NewRedirectionChannel 5) (NewRedirectionChannel 5) True = Done (err, st) \<and> length (received st) \<le> 5"
proof -
  have q: "list_all ignores_cache [Received (RecvChunk [1]), MainTakes, Received RecvEOF]"
    by (simp add: ignores_cache_def)
  obtain err st where run: "rcvAndRedirectChunks [Received (RecvChunk [1]), MainTakes, Received RecvEOF] None
      (NewRedirectionChannel 5) (NewRedirectionChannel 5) True = Done (err, st)"
    by (simp add: rcvAndRedirectChunks_def rcvStart_def NewRedirectionChannel_def make_chan_def
        sendBoth_def sendMain_def sendCache_def chan_send_def chan_close_def Let_def)
  from silent_cache_stalls_transfer [OF q run] run show ?thesis by blast
qed

text \<open>C31: every failed transfer from another edge ends in a panic: the redirection has closed the
  channels by the time its error is sent on them.\<close>

theorem downloadFromOtherEdge_panics:
  assumes run: "rcvAndRedirectChunks evs finalMain (NewRedirectionChannel n) (NewRedirectionChannel m) b = Done (Some e, st)"
  shows "downloadFromOtherEdge None None evs finalMain closeErr
    (NewRedirectionChannel n) (NewRedirectionChannel m) b = Panicked"
proof -
  obtain st0 where "st = st0\<lparr>mainCh := (mainCh st0)\<lparr>isClosed := True\<rparr>, cacheCh := (cacheCh st0)\<lparr>isClosed := True\<rparr>\<rparr>"
    using rcvAndRedirectChunks_result [OF run] by blast
  then have "isClosed (mainCh st)" by simp
  with run show ?thesis
    by (simp add: downloadFromOtherEdge_def sendErr_def sendMain_def chan_send_closed)
qed

theorem downloadFromOtherEdge_panics_witness:
  "downloadFromOtherEdge None None [Received (RecvErr EOF)] None None
    (NewRedirectionChannel 5) (NewRedirectionChannel 5) True = Panicked"
proof -
  obtain st where run: "rcvAndRedirectChunks [Received (RecvErr EOF)] None
      (NewRedirectionChannel 5) (NewRedirectionChannel 5) True = Done (Some (Wrapped ''GRPC_ERROR'' EOF), st)"
    by (simp add: rcvAndRedirectChunks_def rcvStart_def NewRedirectionChannel_def make_chan_def
        sendBoth_def sendMain_def sendCache_def chan_send_def chan_close_def Let_def)
  show ?thesis by (rule downloadFromOtherEdge_panics [OF run])
qed

text \<open>The client gets the bodies of the messages in order, numbered from zero, and the first error
  message ends the stream with that error.\<close>

theorem redirectStreamToClient_sends_all:
  assumes "list_all (\<lambda>m. Err m = None) msgs" and "length msgs < 2 ^ 63"
  shows "(\<exists>sent. redirectStreamToClient (\<lambda>_. None) True msgs = Done (None, sent, []) \<and>
      map Chunk sent = map Body msgs \<and> map SeqNum sent = map int [0..<length msgs]) \<and>
    (\<forall>e rest. \<exists>sent. redirectStreamToClient (\<lambda>_. None) True (msgs @ errMessage e # rest) = Done (Some e, sent, []) \<and>
      map Chunk sent = map Body msgs)"
  using redirectLoop_all [OF assms(1), of 0] redirectLoop_error [OF assms(1)] assms(2)
  by (simp add: redirectStreamToClient_def)

theorem redirectStreamToClient_sends_all_witness:
  "\<exists>sent. redirectStreamToClient (\<lambda>_. None) True [dataMessage [7], dataMessage [8]] = Done (None, sent, []) \<and>
     map Chunk sent = [[7], [8]] \<and> map SeqNum sent = [0, 1]"
  using redirectStreamToClient_sends_all [of "[dataMessage [7], dataMessage [8]]"] by simp

text \<open>An edge serves a cached file to another edge completely: the chunks put together are the file,
  they are numbered from zero, and none is empty or longer than the configured size.\<close>

theorem DownloadFromEdge_complete:
  assumes "0 < chunkSize"
  shows "\<exists>sent. DownloadFromEdge (\<lambda>_. False) chunkSize (Some bs) = Done (None, sent) \<and>
    concat (map Chunk sent) = bs \<and> map SeqNum sent = map int [0..<length sent] \<and>
    list_all (\<lambda>c. 0 < length (Chunk c) \<and> int (length (Chunk c)) \<le> chunkSize) sent"
proof -
  obtain sent where s: "sendChunks (\<lambda>_. False) (nat chunkSize) 0 bs = (None, sent)"
    "concat (map Chunk sent) = bs" "map SeqNum sent = map int [0..<0 + length sent]"
    "list_all (\<lambda>c. 0 < length (Chunk c) \<and> length (Chunk c) \<le> nat chunkSize) sent"
    using sendChunks_all [of "\<lambda>_. False" "nat chunkSize" 0 bs] assms by auto
  have "list_all (\<lambda>c. 0 < length (Chunk c) \<and> int (length (Chunk c)) \<le> chunkSize) sent"
    using s(4) assms by (auto simp: list_all_iff le_nat_iff)
  with s assms show ?thesis by (simp add: DownloadFromEdge_def)
qed

theorem DownloadFromEdge_complete_witness:
  "\<exists>sent. DownloadFromEdge (\<lambda>_. False) 2 (Some [1, 2, 3, 4, 5]) = Done (None, sent) \<and>
    concat (map Chunk sent) = [1, 2, 3, 4, 5]"
  using DownloadFromEdge_complete [of 2 "[1, 2, 3, 4, 5]"] by auto

text \<open>A cached file that fits in the read buffer reaches the client intact under every interleaving
  of the reader and the client loop: what the client has is nothing or the whole file, and it is the
  whole file once everything has been taken.\<close>

theorem local_file_intact:
  assumes reach: "readerReach cap chunkSize bs s" and "length bs \<le> chunkSize" and "bs \<noteq> []"
  shows "(clientGot s = [] \<or> clientGot s = [bs]) \<and>
    (fileRest s = [] \<and> pendingSend s = None \<and> clientQueue s = [] \<longrightarrow> clientGot s = [bs])"
  using single_inv_reach [OF assms] assms(3) by (auto simp: single_inv_def)

theorem local_file_intact_witness:
  "clientGot (openReader 4 [1, 2, 3]) = [] \<or> clientGot (openReader 4 [1, 2, 3]) = [[1, 2, 3]]"
  using local_file_intact [OF readerReach.start [of 5 4 "[1, 2, 3]"]] by simp

text \<open>A longer file can reach the client corrupted: the reader overwrites the buffer while an
  earlier message still waits, and the client gets the second chunk twice instead of the file.\<close>

theorem local_file_corrupted:
  assumes "length c1 = k" and "length c2 = k" and "0 < k" and "0 < cap"
  shows "\<exists>s. readerReach cap k (c1 @ c2) s \<and> readerDone s \<and> clientQueue s = [] \<and> clientGot s = [c2, c2]"
proof -
  from assms have ne: "c1 \<noteq> []" "c2 \<noteq> []" by auto
  let ?s0 = "openReader k (c1 @ c2)"
  let ?s1 = "?s0\<lparr>readBuffer := c1, fileRest := c2, pendingSend := Some k\<rparr>"
  let ?s2 = "?s1\<lparr>pendingSend := None, clientQueue := [k]\<rparr>"
  let ?s3 = "?s2\<lparr>readBuffer := c2, fileRest := [], pendingSend := Some k\<rparr>"
  let ?s4 = "?s3\<lparr>clientQueue := [], clientGot := [c2]\<rparr>"
  let ?s5 = "?s4\<lparr>pendingSend := None, clientQueue := [k]\<rparr>"
  let ?s6 = "?s5\<lparr>clientQueue := [], clientGot := [c2, c2]\<rparr>"
  let ?s7 = "?s6\<lparr>readerDone := True\<rparr>"
  have steps: "readerStep cap k ?s0 ?s1" "readerStep cap k ?s1 ?s2" "readerStep cap k ?s2 ?s3"
    "readerStep cap k ?s3 ?s4" "readerStep cap k ?s4 ?s5" "readerStep cap k ?s5 ?s6" "readerStep cap k ?s6 ?s7"
    using assms ne fileRead [of ?s0 k k cap] chanSend [of ?s1 k cap k] fileRead [of ?s2 k k cap]
      clientTake [of ?s3 k "[]" cap k] chanSend [of ?s4 k cap k] clientTake [of ?s5 k "[]" cap k]
      endOfFile [of ?s6 cap k]
    by (auto simp: openReader_def)
  then have "readerReach cap k (c1 @ c2) ?s7"
    by (meson readerReach.start readerReach.step)
  then show ?thesis by (intro exI [of _ ?s7]) simp
qed

theorem local_file_corrupted_witness:
  "\<exists>s. readerReach 5 2 [1, 2, 3, 4] s \<and> readerDone s \<and> clientGot s = [[3, 4], [3, 4]]"
  using local_file_corrupted [of "[1, 2]" 2 "[3, 4]" 5] by auto

end
