(* ===== verification/FileCache.thy ===== *)
theory FileCache
  imports Channels "HOL-Library.AList" "HOL-Library.List_Lexorder"
    "HOL-Library.Char_ord"
begin

text \<open>
  The file cache of an edge (\<^verbatim>\<open>edge/cache/cache.go\<close>): a queue of file descriptors, a map from names
  to the same descriptors, two mutexes, and the directory the cached files live in. Descriptors are
  shared between queue and map, so they live in an explicit heap and both hold pointers. The write
  mutexes are not reentrant, so the model keeps their state and a second \<^verbatim>\<open>Lock\<close> waits for ever.
  This theory holds the state, the lookups, insertion, recovery, removal and the periodic cleaning;
  \<open>CacheEviction\<close> adds eviction and the insertion of a whole file.
\<close>

section \<open>State\<close>

type_synonym ptr = nat

record File =
  fileName :: string
  fileSize :: int
  timestamp :: int
  popularity :: int

record Cache =
  heap :: "File list"
  cachingList :: "ptr slice"
  cachingMap :: "(string, ptr) gomap"
  cacheMutex :: bool
  fileInsertionMutex :: bool

definition selfCache :: Cache where
  "selfCache = \<lparr>heap = [], cachingList = slice_of [], cachingMap = fmempty,
     cacheMutex = False, fileInsertionMutex = False\<rparr>"

text \<open>
  The directory \<^verbatim>\<open>FILES_PATH\<close> as the code sees it through the system calls, with the calls that
  may fail made explicit: for each name whether opening, creating, locking, removing and unlocking
  fail, and whether the write of the n-th chunk does.
\<close>

datatype inode = Regular bytes | Directory

record filesystem =
  entries :: "(string \<times> inode) list"
  openFault :: "string \<Rightarrow> bool"
  createFault :: "string \<Rightarrow> bool"
  lockFault :: "string \<Rightarrow> bool"
  removeFault :: "string \<Rightarrow> bool"
  unlockFault :: "string \<Rightarrow> bool"
  writeFault :: "string \<Rightarrow> nat \<Rightarrow> bool"
  readDirFault :: bool

definition on_disk :: "filesystem \<Rightarrow> string \<Rightarrow> bool" where
  "on_disk fs name \<longleftrightarrow> (case map_of (entries fs) name of Some (Regular _) \<Rightarrow> True | _ \<Rightarrow> False)"

definition os_remove :: "string \<Rightarrow> filesystem \<Rightarrow> filesystem" where
  "os_remove name fs =
     (if removeFault fs name then fs else fs\<lparr>entries := AList.delete name (entries fs)\<rparr>)"

definition os_create :: "string \<Rightarrow> filesystem \<Rightarrow> filesystem option" where
  "os_create name fs =
     (if createFault fs name \<or> map_of (entries fs) name = Some Directory then None
      else Some (fs\<lparr>entries := AList.update name (Regular []) (entries fs)\<rparr>))"

definition os_write :: "string \<Rightarrow> bytes \<Rightarrow> filesystem \<Rightarrow> filesystem" where
  "os_write name body fs =
     (case map_of (entries fs) name of
        Some (Regular old) \<Rightarrow> fs\<lparr>entries := AList.update name (Regular (old @ body)) (entries fs)\<rparr>
      | _ \<Rightarrow> fs)"

definition content :: "filesystem \<Rightarrow> string \<Rightarrow> bytes option" where
  "content fs name = (case map_of (entries fs) name of Some (Regular b) \<Rightarrow> Some b | _ \<Rightarrow> None)"

text \<open>\<^verbatim>\<open>ioutil.ReadDir\<close> lists the entries sorted by name.\<close>

definition os_readDir :: "filesystem \<Rightarrow> (string \<times> inode) list option" where
  "os_readDir fs = (if readDirFault fs then None else Some (sort_key fst (entries fs)))"

section \<open>Lookups and popularity\<close>

definition file_at :: "Cache \<Rightarrow> ptr \<Rightarrow> File" where
  "file_at c p = heap c ! p"

definition bump_popularity :: "ptr \<Rightarrow> Cache \<Rightarrow> Cache" where
  "bump_popularity p c =
     c\<lparr>heap := (heap c)[p := (file_at c p)\<lparr>popularity := wrap64 (popularity (file_at c p) + 1)\<rparr>]\<rparr>"

definition incrementPopularity :: "string \<Rightarrow> Cache \<Rightarrow> (bool \<times> Cache) outcome" where
  "incrementPopularity name c =
     (case fmlookup (cachingMap c) name of
        Some p \<Rightarrow> if cacheMutex c then Blocked else Done (True, bump_popularity p c)
      | None \<Rightarrow> Done (False, c))"

definition IsFileInCache :: "string \<Rightarrow> Cache \<Rightarrow> (bool \<times> Cache) outcome" where
  "IsFileInCache name c =
     (if fmlookup (cachingMap c) name \<noteq> None
      then and_then (incrementPopularity name c) (\<lambda>(_, c'). Done (True, c'))
      else Done (False, c))"

definition GetFileSize :: "string \<Rightarrow> Cache \<Rightarrow> int" where
  "GetFileSize name c =
     (case find (\<lambda>p. fileName (file_at c p) = name) (elems (cachingList c)) of
        Some p \<Rightarrow> fileSize (file_at c p)
      | None \<Rightarrow> -1)"

definition IsFileCacheable :: "int \<Rightarrow> int \<Rightarrow> bool" where
  "IsFileCacheable maxSize sz \<longleftrightarrow> sz > 0 \<and> sz \<le> maxSize"

datatype indexError = Inconsistent

definition getIndex :: "string \<Rightarrow> Cache \<Rightarrow> indexError + int" where
  "getIndex name c =
     (if fmlookup (cachingMap c) name = None then Inr (-1)
      else case find_pos (\<lambda>p. fileName (file_at c p) = name) (elems (cachingList c)) of
             Some i \<Rightarrow> Inr (int i)
           | None \<Rightarrow> Inl Inconsistent)"

section \<open>Insertion into the queue, recovery from the directory\<close>

definition insertFileInQueue :: "int \<Rightarrow> string \<Rightarrow> int \<Rightarrow> int \<Rightarrow> Cache \<Rightarrow> Cache outcome" where
  "insertFileInQueue now name sz filePopularity c =
     (if cacheMutex c then Blocked
      else case fmlookup (cachingMap c) name of
        None \<Rightarrow>
          (let p = length (heap c) in
           Done (c\<lparr>heap := heap c @ [\<lparr>fileName = name, fileSize = sz, timestamp = now, popularity = 1\<rparr>],
                   cachingMap := fmupd name p (cachingMap c),
                   cachingList := slice_append p (cachingList c)\<rparr>))
      | Some p \<Rightarrow> Done (bump_popularity p c))"

fun recoveryLoop :: "int \<Rightarrow> (string \<times> inode) list \<Rightarrow> Cache \<Rightarrow> Cache outcome" where
  "recoveryLoop now [] c = Done c"
| "recoveryLoop now ((name, Directory) # files) c = recoveryLoop now files c"
| "recoveryLoop now ((name, Regular b) # files) c =
     and_then (insertFileInQueue now name (int (length b)) 0 c) (recoveryLoop now files)"

definition ActivateCacheRecovery :: "int \<Rightarrow> filesystem \<Rightarrow> Cache \<Rightarrow> Cache outcome" where
  "ActivateCacheRecovery now fs c =
     (case os_readDir fs of None \<Rightarrow> Done c | Some files \<Rightarrow> recoveryLoop now files c)"

section \<open>Removal\<close>

datatype removeError = OPEN_ERR | FILE_LOCK_ERR | FILE_DELETE_ERR | FILE_UNLOCK_ERR

definition removeWithLocks :: "string \<Rightarrow> filesystem \<Rightarrow> removeError option \<times> filesystem" where
  "removeWithLocks name fs =
     (if \<not> on_disk fs name \<or> openFault fs name then (Some OPEN_ERR, fs)
      else if lockFault fs name then (Some FILE_LOCK_ERR, fs)
      else if removeFault fs name then (Some FILE_DELETE_ERR, fs)
      else if unlockFault fs name then (Some FILE_UNLOCK_ERR, os_remove name fs)
      else (None, os_remove name fs))"

definition removeFileFromQueue :: "int \<Rightarrow> filesystem \<Rightarrow> string \<Rightarrow> Cache \<Rightarrow> Cache outcome" where
  "removeFileFromQueue now fs name c =
     (if cacheMutex c then Blocked
      else let c1 = c\<lparr>cacheMutex := True\<rparr> in
        case getIndex name c1 of
          Inl _ \<Rightarrow> and_then (ActivateCacheRecovery now fs c1) (\<lambda>c2. Done (c2\<lparr>cacheMutex := False\<rparr>))
        | Inr index \<Rightarrow>
            (if index < 0 then Panicked
             else Done (c1\<lparr>cachingMap := fmdrop name (cachingMap c1),
                           cachingList := slice_remove (nat index) (cachingList c1),
                           cacheMutex := False\<rparr>)))"

definition RemoveFileFromCache ::
  "int \<Rightarrow> string \<Rightarrow> Cache \<Rightarrow> filesystem \<Rightarrow> (Cache \<times> filesystem) outcome" where
  "RemoveFileFromCache now name c fs =
     (case removeWithLocks name fs of
        (Some _, fs') \<Rightarrow> Done (c, fs')
      | (None, fs') \<Rightarrow> and_then (removeFileFromQueue now fs' name c) (\<lambda>c'. Done (c', fs')))"

section \<open>Periodic cleaning\<close>

definition expired :: "int \<Rightarrow> int \<Rightarrow> File \<Rightarrow> bool" where
  "expired now ttl f \<longleftrightarrow> timestamp f + wrap64 (ttl * 10 ^ 9) < now"

text \<open>
  The loop ranges over the header the slice has at its start: the number of iterations is fixed then,
  while every iteration reads the current contents of the shared backing array.
\<close>

fun cleaningLoop :: "int \<Rightarrow> int \<Rightarrow> nat list \<Rightarrow> Cache \<Rightarrow> filesystem \<Rightarrow> (Cache \<times> filesystem) outcome" where
  "cleaningLoop now ttl [] c fs = Done (c, fs)"
| "cleaningLoop now ttl (i # is) c fs =
     (let file = file_at c (cells (cachingList c) ! i) in
      if expired now ttl file
      then and_then (RemoveFileFromCache now (fileName file) c fs)
             (\<lambda>(c', fs'). cleaningLoop now ttl is c' fs')
      else cleaningLoop now ttl is c fs)"

definition deleteExpiredFiles ::
  "int \<Rightarrow> int \<Rightarrow> Cache \<Rightarrow> filesystem \<Rightarrow> (Cache \<times> filesystem) outcome" where
  "deleteExpiredFiles now ttl c fs = cleaningLoop now ttl [0..<slen (cachingList c)] c fs"

section \<open>The Bloom filter of the cached names\<close>

text \<open>The filter package is not part of the repository: its constructor's result and \<^verbatim>\<open>Add\<close> are arguments.\<close>

definition ComputeBloomFilter :: "'f \<Rightarrow> (string \<Rightarrow> 'f \<Rightarrow> 'f) \<Rightarrow> Cache \<Rightarrow> 'f" where
  "ComputeBloomFilter newFilter add c =
     foldl (\<lambda>f p. add (fileName (file_at c p)) f) newFilter (elems (cachingList c))"

definition convertCachingMap :: "(string, ptr) gomap \<Rightarrow> Cache \<Rightarrow> (string, int) gomap" where
  \<comment> \<open>the table \<^verbatim>\<open>convertAndPrintCachingMap\<close> prints\<close>
  "convertCachingMap m c = fmmap (\<lambda>p. popularity (file_at c p)) m"

section \<open>The invariant\<close>

text \<open>
  Queue and map hold the same descriptors, each once, and every descriptor is stored in the map
  under its own name.
\<close>

definition cache_inv :: "Cache \<Rightarrow> bool" where
  "cache_inv c \<longleftrightarrow>
     slice_ok (cachingList c) \<and> distinct (elems (cachingList c)) \<and>
     (\<forall>p \<in> set (elems (cachingList c)). p < length (heap c)) \<and>
     (\<forall>name p. fmlookup (cachingMap c) name = Some p \<longleftrightarrow>
        p \<in> set (elems (cachingList c)) \<and> fileName (file_at c p) = name)"

text \<open>What a reader of the cache can see: the descriptor stored under each name.\<close>

definition cache_view :: "Cache \<Rightarrow> string \<Rightarrow> File option" where
  "cache_view c name = map_option (file_at c) (fmlookup (cachingMap c) name)"

lemma cache_inv_self: "cache_inv selfCache"
  by (simp add: cache_inv_def selfCache_def slice_ok_def elems_def slice_of_def)

lemma cache_inv_slice [dest]: "cache_inv c \<Longrightarrow> slice_ok (cachingList c)"
  by (simp add: cache_inv_def)

lemma cache_inv_mapped:
  "cache_inv c \<Longrightarrow> p \<in> set (elems (cachingList c)) \<Longrightarrow>
     fmlookup (cachingMap c) (fileName (file_at c p)) = Some p"
  by (simp add: cache_inv_def)

lemma cache_inv_lookup:
  "cache_inv c \<Longrightarrow> fmlookup (cachingMap c) name = Some p \<Longrightarrow>
     p \<in> set (elems (cachingList c)) \<and> fileName (file_at c p) = name \<and> p < length (heap c)"
  by (simp add: cache_inv_def)

lemma cache_inv_iff:
  "cache_inv c \<Longrightarrow> fmlookup (cachingMap c) name = Some p \<longleftrightarrow>
     p \<in> set (elems (cachingList c)) \<and> fileName (file_at c p) = name"
  by (simp add: cache_inv_def)

lemma cache_inv_unmapped:
  "cache_inv c \<Longrightarrow> fmlookup (cachingMap c) name = None \<Longrightarrow>
     p \<in> set (elems (cachingList c)) \<Longrightarrow> fileName (file_at c p) \<noteq> name"
  using cache_inv_mapped by fastforce

lemma cache_inv_names_inj:
  "cache_inv c \<Longrightarrow> p \<in> set (elems (cachingList c)) \<Longrightarrow> q \<in> set (elems (cachingList c)) \<Longrightarrow>
     fileName (file_at c p) = fileName (file_at c q) \<longleftrightarrow> p = q"
  by (metis cache_inv_mapped option.inject)

lemma file_at_simps [simp]:
  "file_at (c\<lparr>cacheMutex := b\<rparr>) = file_at c"
  "file_at (c\<lparr>fileInsertionMutex := b\<rparr>) = file_at c"
  "file_at (c\<lparr>cachingMap := m\<rparr>) = file_at c"
  "file_at (c\<lparr>cachingList := l\<rparr>) = file_at c"
  by (simp_all add: file_at_def fun_eq_iff)

lemma cache_inv_locks [simp]:
  "cache_inv (c\<lparr>cacheMutex := b\<rparr>) = cache_inv c"
  "cache_inv (c\<lparr>fileInsertionMutex := b\<rparr>) = cache_inv c"
  by (simp_all add: cache_inv_def)

lemma cache_view_locks [simp]:
  "cache_view (c\<lparr>cacheMutex := b\<rparr>) = cache_view c"
  "cache_view (c\<lparr>fileInsertionMutex := b\<rparr>) = cache_view c"
  by (simp_all add: cache_view_def fun_eq_iff)

section \<open>Popularity\<close>

lemma file_at_bump:
  "p < length (heap c) \<Longrightarrow> file_at (bump_popularity p c) q =
     (if q = p then (file_at c p)\<lparr>popularity := wrap64 (popularity (file_at c p) + 1)\<rparr> else file_at c q)"
  by (simp add: file_at_def bump_popularity_def)

lemma bump_fields [simp]:
  "cachingList (bump_popularity p c) = cachingList c"
  "cachingMap (bump_popularity p c) = cachingMap c"
  "cacheMutex (bump_popularity p c) = cacheMutex c"
  "fileInsertionMutex (bump_popularity p c) = fileInsertionMutex c"
  "length (heap (bump_popularity p c)) = length (heap c)"
  by (simp_all add: bump_popularity_def)

lemma cache_inv_bump: "cache_inv c \<Longrightarrow> p < length (heap c) \<Longrightarrow> cache_inv (bump_popularity p c)"
  by (auto simp: cache_inv_def file_at_bump)

lemma cache_view_bump:
  assumes "cache_inv c" and "fmlookup (cachingMap c) name = Some p"
  shows "cache_view (bump_popularity p c) =
    (cache_view c)(name \<mapsto> (file_at c p)\<lparr>popularity := wrap64 (popularity (file_at c p) + 1)\<rparr>)"
proof
  fix n
  have p: "p < length (heap c)" and nm: "fileName (file_at c p) = name"
    using cache_inv_lookup [OF assms] by auto
  show "cache_view (bump_popularity p c) n =
    ((cache_view c)(name \<mapsto> (file_at c p)\<lparr>popularity := wrap64 (popularity (file_at c p) + 1)\<rparr>)) n"
    using assms p nm cache_inv_lookup [OF assms(1), of n]
    by (cases "fmlookup (cachingMap c) n") (auto simp: cache_view_def file_at_bump)
qed

lemma IsFileInCache_hit:
  "\<not> cacheMutex c \<Longrightarrow> fmlookup (cachingMap c) name = Some p \<Longrightarrow>
     IsFileInCache name c = Done (True, bump_popularity p c)"
  by (simp add: IsFileInCache_def incrementPopularity_def)

lemma IsFileInCache_miss:
  "fmlookup (cachingMap c) name = None \<Longrightarrow> IsFileInCache name c = Done (False, c)"
  by (simp add: IsFileInCache_def)

section \<open>Insertion\<close>

definition newFile :: "int \<Rightarrow> string \<Rightarrow> int \<Rightarrow> File" where
  "newFile now name sz = \<lparr>fileName = name, fileSize = sz, timestamp = now, popularity = 1\<rparr>"

lemma insertFileInQueue_new:
  assumes inv: "cache_inv c" and "\<not> cacheMutex c" and new: "fmlookup (cachingMap c) name = None"
  shows "returns (insertFileInQueue now name sz pop c)
    (\<lambda>c'. cache_inv c' \<and> \<not> cacheMutex c' \<and> fileInsertionMutex c' = fileInsertionMutex c \<and>
      elems (cachingList c') = elems (cachingList c) @ [length (heap c)] \<and>
      heap c' = heap c @ [newFile now name sz] \<and>
      cache_view c' = (cache_view c)(name \<mapsto> newFile now name sz))"
proof -
  let ?p = "length (heap c)"
  let ?c = "c\<lparr>heap := heap c @ [newFile now name sz], cachingMap := fmupd name ?p (cachingMap c),
    cachingList := slice_append ?p (cachingList c)\<rparr>"
  have el: "elems (cachingList ?c) = elems (cachingList c) @ [?p]"
    using inv by (simp add: cache_inv_def elems_append)
  have old: "file_at ?c q = file_at c q" if "q < ?p" for q
    using that by (simp add: file_at_def nth_append)
  have at: "file_at ?c ?p = newFile now name sz"
    by (simp add: file_at_def)
  have lt: "\<forall>q\<in>set (elems (cachingList c)). q < ?p"
    using inv by (simp add: cache_inv_def)
  have "slice_ok (cachingList ?c)"
    using inv by (simp add: cache_inv_def slice_ok_append)
  moreover have "distinct (elems (cachingList ?c))"
    using inv lt el by (auto simp: cache_inv_def)
  moreover have "\<forall>q\<in>set (elems (cachingList ?c)). q < length (heap ?c)"
    using lt el by auto
  moreover have "fmlookup (cachingMap ?c) n = Some q \<longleftrightarrow>
      q \<in> set (elems (cachingList ?c)) \<and> fileName (file_at ?c q) = n" for n q
  proof (cases "q < ?p")
    case True
    with old [OF True] el cache_inv_iff [OF inv, of n q] cache_inv_unmapped [OF inv new, of q]
    show ?thesis by auto
  next
    case False
    with inv lt el at show ?thesis by (auto simp: cache_inv_def newFile_def)
  qed
  ultimately have "cache_inv ?c" unfolding cache_inv_def by blast
  moreover have "cache_view ?c = (cache_view c)(name \<mapsto> newFile now name sz)"
  proof
    fix n
    show "cache_view ?c n = ((cache_view c)(name \<mapsto> newFile now name sz)) n"
      using cache_inv_lookup [OF inv, of n] old at
      by (cases "fmlookup (cachingMap c) n") (auto simp: cache_view_def)
  qed
  ultimately show ?thesis
    using assms el by (simp add: insertFileInQueue_def Let_def newFile_def)
qed

lemma insertFileInQueue_old:
  assumes "cache_inv c" and "\<not> cacheMutex c" and "fmlookup (cachingMap c) name = Some p"
  shows "insertFileInQueue now name sz pop c = Done (bump_popularity p c)"
  using assms by (simp add: insertFileInQueue_def)

lemma insertFileInQueue_inv:
  assumes "cache_inv c" and "\<not> cacheMutex c"
  shows "returns (insertFileInQueue now name sz pop c)
    (\<lambda>c'. cache_inv c' \<and> \<not> cacheMutex c' \<and>
      fileInsertionMutex c' = fileInsertionMutex c \<and>
      dom (cache_view c') = insert name (dom (cache_view c)))"
proof (cases "fmlookup (cachingMap c) name")
  case None
  show ?thesis
    by (rule returns_mono [OF insertFileInQueue_new [OF assms None]]) auto
next
  case (Some p)
  with assms cache_inv_lookup [OF assms(1) Some] show ?thesis
    by (auto simp: insertFileInQueue_old cache_inv_bump cache_view_bump)
qed

section \<open>Removal\<close>

lemma getIndex_found:
  assumes "cache_inv c" and "fmlookup (cachingMap c) name = Some p"
  obtains i where "getIndex name c = Inr (int i)" and "i < slen (cachingList c)"
    and "elems (cachingList c) ! i = p"
proof -
  let ?P = "\<lambda>p. fileName (file_at c p) = name"
  have p: "p \<in> set (elems (cachingList c))" "?P p"
    using cache_inv_lookup [OF assms] by auto
  then have "find_pos ?P (elems (cachingList c)) \<noteq> None"
    by (auto simp: find_pos_None)
  then obtain i where i: "find_pos ?P (elems (cachingList c)) = Some i"
    by blast
  have "i < length (elems (cachingList c))" and "?P (elems (cachingList c) ! i)"
    using find_pos_Some [OF i] by auto
  then have "fmlookup (cachingMap c) name = Some (elems (cachingList c) ! i)"
    using cache_inv_mapped [OF assms(1), of "elems (cachingList c) ! i"] by simp
  with assms i \<open>i < length (elems (cachingList c))\<close> show ?thesis
    by (intro that [of i]) (auto simp: getIndex_def length_elems cache_inv_def)
qed

lemma removeFileFromQueue_found:
  assumes inv: "cache_inv c" and "\<not> cacheMutex c" and p: "fmlookup (cachingMap c) name = Some p"
  obtains i where
    "removeFileFromQueue now fs name c =
       Done (c\<lparr>cachingMap := fmdrop name (cachingMap c),
               cachingList := slice_remove i (cachingList c), cacheMutex := False\<rparr>)"
    and "i < slen (cachingList c)"
    and "elems (slice_remove i (cachingList c)) = filter (\<lambda>q. q \<noteq> p) (elems (cachingList c))"
proof -
  obtain i where i: "getIndex name (c\<lparr>cacheMutex := True\<rparr>) = Inr (int i)"
      "i < slen (cachingList c)" "elems (cachingList c) ! i = p"
    using getIndex_found [of "c\<lparr>cacheMutex := True\<rparr>" name p] inv p by auto
  have "elems (slice_remove i (cachingList c)) =
      take i (elems (cachingList c)) @ drop (Suc i) (elems (cachingList c))"
    using inv i(2) by (simp add: cache_inv_def elems_remove)
  also have "\<dots> = filter (\<lambda>q. q \<noteq> p) (elems (cachingList c))"
    using remove_at_filter [of "elems (cachingList c)" i] inv i(2,3)
    by (simp add: cache_inv_def length_elems)
  finally show ?thesis
    using assms i(1,2) by (intro that [of i]) (auto simp: removeFileFromQueue_def)
qed

text \<open>The cache without the entry of one name: the effect of a removal that goes through.\<close>

lemma removeFileFromQueue_ok:
  assumes inv: "cache_inv c" and "\<not> cacheMutex c" and p: "fmlookup (cachingMap c) name = Some p"
  shows "returns (removeFileFromQueue now fs name c)
    (\<lambda>c'. cache_inv c' \<and> \<not> cacheMutex c' \<and> fileInsertionMutex c' = fileInsertionMutex c \<and>
      heap c' = heap c \<and>
      elems (cachingList c') = filter (\<lambda>q. q \<noteq> p) (elems (cachingList c)) \<and>
      length (cells (cachingList c')) = length (cells (cachingList c)) \<and>
      set (cells (cachingList c')) \<subseteq> set (cells (cachingList c)) \<and>
      (\<forall>j<length (cells (cachingList c)). cells (cachingList c') ! j = cells (cachingList c) ! j \<or>
         cells (cachingList c') ! j \<in> set (elems (cachingList c))) \<and>
      cache_view c' = (cache_view c)(name := None))"
proof (rule removeFileFromQueue_found [OF assms, of now fs])
  fix i
  let ?l = "slice_remove i (cachingList c)"
  let ?c = "c\<lparr>cachingMap := fmdrop name (cachingMap c), cachingList := ?l, cacheMutex := False\<rparr>"
  assume run: "removeFileFromQueue now fs name c = Done ?c"
    and i: "i < slen (cachingList c)"
    and el: "elems ?l = filter (\<lambda>q. q \<noteq> p) (elems (cachingList c))"
  have ok: "slice_ok (cachingList c)" using inv by blast
  have nm: "fileName (file_at c p) = name" using cache_inv_lookup [OF inv p] by simp
  have len: "length (cells ?l) = length (cells (cachingList c))"
    using ok i by (rule length_cells_remove)
  have "slice_ok ?l" "distinct (elems ?l)" "\<forall>q\<in>set (elems ?l). q < length (heap c)"
    using inv i el by (auto simp: cache_inv_def slice_ok_remove)
  moreover have "fmlookup (fmdrop name (cachingMap c)) n = Some q \<longleftrightarrow>
      q \<in> set (elems ?l) \<and> fileName (file_at c q) = n" for n q
    using el nm cache_inv_iff [OF inv, of n q] cache_inv_lookup [OF inv p]
      cache_inv_names_inj [OF inv, of q p] by auto
  ultimately have "cache_inv ?c" by (simp add: cache_inv_def)
  moreover have moved: "cells ?l ! j = cells (cachingList c) ! j \<or> cells ?l ! j \<in> set (elems (cachingList c))"
    if "j < length (cells (cachingList c))" for j
  proof -
    have "cells (cachingList c) ! Suc j \<in> set (elems (cachingList c))" if "Suc j < slen (cachingList c)"
      using that ok by (metis elems_def length_elems nth_mem nth_take)
    with cells_remove_nth [OF ok i that] show ?thesis by simp
  qed
  moreover have "set (cells ?l) \<subseteq> set (cells (cachingList c))"
  proof
    fix q assume "q \<in> set (cells ?l)"
    then obtain j where "j < length (cells (cachingList c))" "q = cells ?l ! j"
      using len by (metis in_set_conv_nth)
    with moved [of j] show "q \<in> set (cells (cachingList c))"
      by (auto simp: elems_def dest: in_set_takeD)
  qed
  moreover have "cache_view ?c = (cache_view c)(name := None)"
    by (auto simp: cache_view_def fun_eq_iff)
  ultimately show ?thesis using run el len by simp
qed

subsection \<open>The directory\<close>

lemma content_on_disk: "on_disk fs n \<longleftrightarrow> content fs n \<noteq> None"
  by (auto simp: on_disk_def content_def split: option.splits inode.splits)

lemma content_os_remove:
  "content (os_remove name fs) = (if removeFault fs name then content fs else (content fs)(name := None))"
  by (auto simp: content_def os_remove_def delete_conv' fun_eq_iff)

lemma os_remove_faults [simp]:
  "openFault (os_remove name fs) = openFault fs"
  "createFault (os_remove name fs) = createFault fs"
  "lockFault (os_remove name fs) = lockFault fs"
  "removeFault (os_remove name fs) = removeFault fs"
  "unlockFault (os_remove name fs) = unlockFault fs"
  "writeFault (os_remove name fs) = writeFault fs"
  by (simp_all add: os_remove_def)

lemma on_disk_os_remove: "on_disk (os_remove name fs) n \<Longrightarrow> on_disk fs n"
  by (auto simp: content_on_disk content_os_remove split: if_splits)

text \<open>The removals that succeed: the file is there and no system call fails.\<close>

definition removable :: "filesystem \<Rightarrow> string \<Rightarrow> bool" where
  "removable fs name \<longleftrightarrow> on_disk fs name \<and> \<not> openFault fs name \<and> \<not> lockFault fs name \<and>
     \<not> removeFault fs name \<and> \<not> unlockFault fs name"

lemma removeWithLocks_ok:
  "removable fs name \<Longrightarrow> removeWithLocks name fs = (None, os_remove name fs)"
  by (simp add: removeWithLocks_def removable_def)

lemma removeWithLocks_err:
  "\<not> removable fs name \<Longrightarrow> \<exists>e fs'. removeWithLocks name fs = (Some e, fs') \<and> (fs' = fs \<or>
     fs' = os_remove name fs \<and> on_disk fs name)"
  by (auto simp: removeWithLocks_def removable_def)

lemma content_after_removal:
  "content (snd (removeWithLocks name fs)) n = (if n = name then content (snd (removeWithLocks name fs)) name
     else content fs n)"
  by (simp add: removeWithLocks_def content_os_remove)

lemma on_disk_after_removal: "on_disk (snd (removeWithLocks name fs)) n \<Longrightarrow> on_disk fs n"
  by (auto simp: removeWithLocks_def dest: on_disk_os_remove split: if_splits)

lemma gone_after_removal: "removable fs name \<Longrightarrow> \<not> on_disk (snd (removeWithLocks name fs)) name"
  by (simp add: removeWithLocks_ok content_on_disk content_os_remove removable_def)

subsection \<open>Removing a file from queue and directory\<close>

lemma RemoveFileFromCache_failed:
  "\<not> removable fs name \<Longrightarrow> RemoveFileFromCache now name c fs = Done (c, snd (removeWithLocks name fs))"
  using removeWithLocks_err [of fs name] by (auto simp: RemoveFileFromCache_def)

lemma RemoveFileFromCache_removed:
  "removable fs name \<Longrightarrow> RemoveFileFromCache now name c fs =
     and_then (removeFileFromQueue now (os_remove name fs) name c) (\<lambda>c'. Done (c', os_remove name fs))"
  by (simp add: RemoveFileFromCache_def removeWithLocks_ok)

lemma RemoveFileFromCache_ok:
  assumes inv: "cache_inv c" and unl: "\<not> cacheMutex c"
    and tracked: "removable fs name \<Longrightarrow> fmlookup (cachingMap c) name = Some p"
  shows "returns (RemoveFileFromCache now name c fs)
    (\<lambda>(c', fs'). cache_inv c' \<and> \<not> cacheMutex c' \<and> fileInsertionMutex c' = fileInsertionMutex c \<and>
      heap c' = heap c \<and> fs' = snd (removeWithLocks name fs) \<and>
      (if removable fs name
       then elems (cachingList c') = filter (\<lambda>q. q \<noteq> p) (elems (cachingList c)) \<and>
         length (cells (cachingList c')) = length (cells (cachingList c)) \<and>
         (\<forall>j<length (cells (cachingList c)). cells (cachingList c') ! j = cells (cachingList c) ! j \<or>
            cells (cachingList c') ! j \<in> set (elems (cachingList c))) \<and>
         cache_view c' = (cache_view c)(name := None)
       else c' = c))"
proof (cases "removable fs name")
  case True
  have "returns (removeFileFromQueue now (os_remove name fs) name c) (\<lambda>c'.
      returns (Done (c', os_remove name fs)) (\<lambda>(c', fs'). cache_inv c' \<and> \<not> cacheMutex c' \<and>
      fileInsertionMutex c' = fileInsertionMutex c \<and>
      heap c' = heap c \<and> fs' = os_remove name fs \<and>
      elems (cachingList c') = filter (\<lambda>q. q \<noteq> p) (elems (cachingList c)) \<and>
         length (cells (cachingList c')) = length (cells (cachingList c)) \<and>
         (\<forall>j<length (cells (cachingList c)). cells (cachingList c') ! j = cells (cachingList c) ! j \<or>
            cells (cachingList c') ! j \<in> set (elems (cachingList c))) \<and>
         cache_view c' = (cache_view c)(name := None)))"
    by (rule returns_mono [OF removeFileFromQueue_ok [OF inv unl tracked [OF True]]]) simp
  then show ?thesis
    using True by (auto simp: RemoveFileFromCache_removed removeWithLocks_ok returns_iff)
next
  case False
  with inv unl show ?thesis by (simp add: RemoveFileFromCache_failed)
qed

section \<open>Cleaning\<close>

lemma file_at_heap: "heap c' = heap c \<Longrightarrow> file_at c' = file_at c"
  by (simp add: file_at_def fun_eq_iff)

text \<open>
  What the loop relies on: a cell it will still read holds a descriptor of the queue, or a stale
  pointer to a file that has left the directory, for which the removal fails at its first call.
\<close>

definition cells_tracked :: "nat list \<Rightarrow> Cache \<Rightarrow> filesystem \<Rightarrow> bool" where
  "cells_tracked is c fs \<longleftrightarrow> (\<forall>i\<in>set is. i < length (cells (cachingList c)) \<and>
     (cells (cachingList c) ! i \<in> set (elems (cachingList c)) \<or>
      \<not> on_disk fs (fileName (file_at c (cells (cachingList c) ! i)))))"

definition cleaned :: "int \<Rightarrow> int \<Rightarrow> Cache \<Rightarrow> filesystem \<Rightarrow> Cache \<Rightarrow> filesystem \<Rightarrow> bool" where
  "cleaned now ttl c fs c' fs' \<longleftrightarrow>
     cache_inv c' \<and> \<not> cacheMutex c' \<and> fileInsertionMutex c' = fileInsertionMutex c \<and>
     heap c' = heap c \<and> set (elems (cachingList c')) \<subseteq> set (elems (cachingList c)) \<and>
     (\<forall>p\<in>set (elems (cachingList c)). \<not> expired now ttl (file_at c p) \<longrightarrow>
        p \<in> set (elems (cachingList c')) \<and>
        content fs' (fileName (file_at c p)) = content fs (fileName (file_at c p)))"

lemma cleaned_refl: "cache_inv c \<Longrightarrow> \<not> cacheMutex c \<Longrightarrow> cleaned now ttl c fs c fs"
  by (simp add: cleaned_def)

lemma cleaned_trans:
  "cleaned now ttl c fs c1 fs1 \<Longrightarrow> cleaned now ttl c1 fs1 c2 fs2 \<Longrightarrow> cleaned now ttl c fs c2 fs2"
  by (auto simp: cleaned_def dest!: file_at_heap)

text \<open>One removal, as \<open>RemoveFileFromCache_ok\<close> describes it.\<close>

definition taken_out :: "ptr \<Rightarrow> Cache \<Rightarrow> filesystem \<Rightarrow> Cache \<Rightarrow> filesystem \<Rightarrow> bool" where
  "taken_out q c fs c' fs' \<longleftrightarrow> (let name = fileName (file_at c q) in
     cache_inv c' \<and> \<not> cacheMutex c' \<and> fileInsertionMutex c' = fileInsertionMutex c \<and>
     heap c' = heap c \<and> fs' = snd (removeWithLocks name fs) \<and>
     (if removable fs name
      then elems (cachingList c') = filter (\<lambda>p. p \<noteq> q) (elems (cachingList c)) \<and>
        length (cells (cachingList c')) = length (cells (cachingList c)) \<and>
        (\<forall>j<length (cells (cachingList c)). cells (cachingList c') ! j = cells (cachingList c) ! j \<or>
           cells (cachingList c') ! j \<in> set (elems (cachingList c))) \<and>
        cache_view c' = (cache_view c)(name := None)
      else c' = c))"

lemma taken_out_cleaned:
  assumes inv: "cache_inv c" and out: "taken_out q c fs c' fs'" and ex: "expired now ttl (file_at c q)"
    and member: "on_disk fs (fileName (file_at c q)) \<Longrightarrow> q \<in> set (elems (cachingList c))"
  shows "cleaned now ttl c fs c' fs'"
proof -
  let ?n = "fileName (file_at c q)"
  have base: "cache_inv c'" "\<not> cacheMutex c'" "fileInsertionMutex c' = fileInsertionMutex c" "heap c' = heap c"
    and fs': "fs' = snd (removeWithLocks ?n fs)"
    using out by (simp_all add: taken_out_def Let_def)
  have el: "set (elems (cachingList c')) = set (elems (cachingList c)) - {q} \<or> c' = c"
    using out by (auto simp: taken_out_def Let_def split: if_splits)
  have "content fs' (fileName (file_at c p)) = content fs (fileName (file_at c p))"
    if "p \<in> set (elems (cachingList c))" "\<not> expired now ttl (file_at c p)" for p
  proof (cases "on_disk fs ?n")
    case True
    have "p \<noteq> q" using that ex by auto
    then have "fileName (file_at c p) \<noteq> ?n"
      using cache_inv_names_inj [OF inv that(1) member [OF True]] by blast
    then show ?thesis unfolding fs' by (subst content_after_removal) simp
  next
    case False
    then show ?thesis by (simp add: fs' removeWithLocks_def)
  qed
  then show ?thesis unfolding cleaned_def using base el ex by blast
qed

lemma taken_out_tracked:
  assumes out: "taken_out q c fs c' fs'" and tr: "cells_tracked is c fs"
  shows "cells_tracked is c' fs'"
  unfolding cells_tracked_def
proof (intro ballI conjI)
  let ?n = "fileName (file_at c q)"
  have fs': "fs' = snd (removeWithLocks ?n fs)" and at: "file_at c' = file_at c"
    using out by (auto simp: taken_out_def Let_def intro: file_at_heap)
  fix j assume j: "j \<in> set is"
  let ?p = "cells (cachingList c') ! j"
  from tr j have lt: "j < length (cells (cachingList c))"
    and old: "cells (cachingList c) ! j \<in> set (elems (cachingList c)) \<or>
      \<not> on_disk fs (fileName (file_at c (cells (cachingList c) ! j)))"
    by (simp_all add: cells_tracked_def)
  show "j < length (cells (cachingList c'))"
    using out lt by (auto simp: taken_out_def Let_def split: if_splits)
  have stale: "\<not> on_disk fs' (fileName (file_at c p))" if "\<not> on_disk fs (fileName (file_at c p))" for p
    using that on_disk_after_removal fs' by blast
  show "?p \<in> set (elems (cachingList c')) \<or> \<not> on_disk fs' (fileName (file_at c' ?p))"
  proof (cases "removable fs ?n")
    case True
    then have el: "set (elems (cachingList c')) = set (elems (cachingList c)) - {q}"
      and cell: "?p = cells (cachingList c) ! j \<or> ?p \<in> set (elems (cachingList c))"
      using out lt by (auto simp: taken_out_def Let_def)
    from cell old have "?p \<in> set (elems (cachingList c)) \<or> \<not> on_disk fs (fileName (file_at c ?p))" by metis
    with el gone_after_removal [OF True] stale fs' show ?thesis unfolding at by blast
  next
    case False
    then have "c' = c" using out by (simp add: taken_out_def Let_def)
    with old stale show ?thesis by blast
  qed
qed

lemma clean_step:
  assumes inv: "cache_inv c" and unl: "\<not> cacheMutex c"
    and tr: "cells_tracked (i # is) c fs"
    and q: "q = cells (cachingList c) ! i" and ex: "expired now ttl (file_at c q)"
  shows "returns (RemoveFileFromCache now (fileName (file_at c q)) c fs)
    (\<lambda>(c', fs'). cleaned now ttl c fs c' fs' \<and> cells_tracked is c' fs')"
proof -
  have member: "q \<in> set (elems (cachingList c))" if "on_disk fs (fileName (file_at c q))"
    using that tr q by (auto simp: cells_tracked_def)
  then have "removable fs (fileName (file_at c q)) \<Longrightarrow> q \<in> set (elems (cachingList c))"
    by (simp add: removable_def)
  note removal = RemoveFileFromCache_ok [where now = now, OF inv unl cache_inv_mapped [OF inv this]]
  have "returns (RemoveFileFromCache now (fileName (file_at c q)) c fs) (\<lambda>(c', fs'). taken_out q c fs c' fs')"
    by (rule returns_mono [OF removal]) (simp_all add: taken_out_def Let_def split: prod.splits)
  moreover have "cells_tracked is c fs" using tr by (simp add: cells_tracked_def)
  ultimately show ?thesis
    by (elim returns_mono) (auto intro: taken_out_cleaned [OF inv _ ex member] taken_out_tracked)
qed

lemma cleaningLoop_ok:
  assumes "cache_inv c" and "\<not> cacheMutex c" and "cells_tracked is c fs"
  shows "returns (cleaningLoop now ttl is c fs) (\<lambda>(c', fs'). cleaned now ttl c fs c' fs')"
  using assms
proof (induction "is" arbitrary: c fs)
  case Nil
  then show ?case by (simp add: cleaned_refl)
next
  case (Cons i "is")
  let ?q = "cells (cachingList c) ! i"
  show ?case
  proof (cases "expired now ttl (file_at c ?q)")
    case True
    have "returns (RemoveFileFromCache now (fileName (file_at c ?q)) c fs)
        (\<lambda>(c', fs'). cleaned now ttl c fs c' fs' \<and> cells_tracked is c' fs')"
      by (rule clean_step [OF Cons.prems refl True])
    then have "returns (and_then (RemoveFileFromCache now (fileName (file_at c ?q)) c fs)
        (\<lambda>(c', fs'). cleaningLoop now ttl is c' fs')) (\<lambda>(c', fs'). cleaned now ttl c fs c' fs')"
    proof (rule returns_and_then)
      fix r assume "case r of (c', fs') \<Rightarrow> cleaned now ttl c fs c' fs' \<and> cells_tracked is c' fs'"
      then obtain c1 fs1 where r: "r = (c1, fs1)" "cleaned now ttl c fs c1 fs1" "cells_tracked is c1 fs1"
        by (cases r) auto
      then have "returns (cleaningLoop now ttl is c1 fs1) (\<lambda>(c', fs'). cleaned now ttl c1 fs1 c' fs')"
        by (intro Cons.IH) (auto simp: cleaned_def)
      with r show "returns (case r of (c', fs') \<Rightarrow> cleaningLoop now ttl is c' fs')
          (\<lambda>(c', fs'). cleaned now ttl c fs c' fs')"
        by (auto elim!: returns_mono intro: cleaned_trans)
    qed
    with True show ?thesis by (simp add: Let_def)
  next
    case False
    with Cons show ?thesis by (simp add: Let_def cells_tracked_def)
  qed
qed

lemma cells_tracked_all:
  "slice_ok (cachingList c) \<Longrightarrow> cells_tracked [0..<slen (cachingList c)] c fs"
  by (auto simp: cells_tracked_def slice_ok_def elems_def in_set_conv_nth)

lemma deleteExpiredFiles_cleaned:
  "cache_inv c \<Longrightarrow> \<not> cacheMutex c \<Longrightarrow>
     returns (deleteExpiredFiles now ttl c fs) (\<lambda>(c', fs'). cleaned now ttl c fs c' fs')"
  unfolding deleteExpiredFiles_def
  by (rule cleaningLoop_ok) (auto intro: cells_tracked_all)

section \<open>Recovery\<close>

text \<open>The descriptors recovery creates for a listing: one per regular file, with its size on disk.\<close>

definition recovered :: "int \<Rightarrow> (string \<times> inode) list \<Rightarrow> string \<Rightarrow> File option" where
  "recovered now files n =
     (case map_of files n of Some (Regular b) \<Rightarrow> Some (newFile now n (int (length b))) | _ \<Rightarrow> None)"

lemma recovered_Cons:
  "recovered now ((n, Directory) # files) = (recovered now files)(n := None)"
  "recovered now ((n, Regular b) # files) =
     (recovered now files)(n \<mapsto> newFile now n (int (length b)))"
  by (auto simp: recovered_def fun_eq_iff)

lemma recoveryLoop_ok:
  assumes "cache_inv c" and "\<not> cacheMutex c" and "distinct (map fst files)"
    and "\<forall>n\<in>fst ` set files. cache_view c n = None"
  shows "returns (recoveryLoop now files c)
    (\<lambda>c'. cache_inv c' \<and> \<not> cacheMutex c' \<and> fileInsertionMutex c' = fileInsertionMutex c \<and>
      cache_view c' = cache_view c ++ recovered now files)"
  using assms
proof (induction now files c rule: recoveryLoop.induct)
  case (1 now c)
  then show ?case by (simp add: recovered_def map_add_def)
next
  case (2 now name files c)
  then have "recovered now ((name, Directory) # files) = recovered now files"
    by (auto simp: recovered_def fun_eq_iff map_of_eq_None_iff [symmetric] split: option.splits)
  with 2 show ?case by simp
next
  case (3 now name b files c)
  let ?f = "newFile now name (int (length b))"
  have new: "fmlookup (cachingMap c) name = None"
    using "3.prems"(4) by (simp add: cache_view_def)
  have fresh: "recovered now files name = None"
    using "3.prems"(3) by (simp add: recovered_def map_of_eq_None_iff [symmetric])
  have "returns (insertFileInQueue now name (int (length b)) 0 c) (\<lambda>c1.
      returns (recoveryLoop now files c1) (\<lambda>c'. cache_inv c' \<and> \<not> cacheMutex c' \<and>
        fileInsertionMutex c' = fileInsertionMutex c \<and>
        cache_view c' = (cache_view c)(name \<mapsto> ?f) ++ recovered now files))"
  proof (rule returns_mono [OF insertFileInQueue_new [OF "3.prems"(1,2) new]])
    fix c1
    assume c1: "cache_inv c1 \<and> \<not> cacheMutex c1 \<and> fileInsertionMutex c1 = fileInsertionMutex c \<and>
      elems (cachingList c1) = elems (cachingList c) @ [length (heap c)] \<and>
      heap c1 = heap c @ [?f] \<and> cache_view c1 = (cache_view c)(name \<mapsto> ?f)"
    then have view: "cache_view c1 = (cache_view c)(name \<mapsto> ?f)" and inv: "cache_inv c1"
      and unl: "\<not> cacheMutex c1" and fim: "fileInsertionMutex c1 = fileInsertionMutex c"
      by simp_all
    have free: "\<forall>n\<in>fst ` set files. cache_view c1 n = None"
      using "3.prems"(3,4) view by auto
    have d: "distinct (map fst files)" using "3.prems"(3) by simp
    show "returns (recoveryLoop now files c1) (\<lambda>c'. cache_inv c' \<and> \<not> cacheMutex c' \<and>
        fileInsertionMutex c' = fileInsertionMutex c \<and>
        cache_view c' = (cache_view c)(name \<mapsto> ?f) ++ recovered now files)"
      using "3.IH" [OF inv unl d free] by (simp only: view fim)
  qed
  moreover have "(cache_view c)(name \<mapsto> ?f) ++ recovered now files =
      cache_view c ++ recovered now ((name, Regular b) # files)"
    using fresh by (auto simp: recovered_Cons map_add_def fun_eq_iff split: option.split)
  ultimately show ?case by (auto simp: returns_iff)
qed

lemma recovered_sorted:
  assumes "distinct (map fst files)"
  shows "recovered now (sort_key fst files) = recovered now files"
    and "distinct (map fst (sort_key fst files))"
proof -
  show d: "distinct (map fst (sort_key fst files))"
    using assms by (simp add: distinct_map)
  have "map_of (sort_key fst files) = map_of files"
    using d assms by (simp add: map_of_inject_set)
  then show "recovered now (sort_key fst files) = recovered now files"
    by (simp add: recovered_def fun_eq_iff)
qed

section \<open>Cleaning, seen by name\<close>

lemma cleaned_view:
  assumes inv: "cache_inv c" and cl: "cleaned now ttl c fs c' fs'"
  shows "cache_view c' n = Some f \<Longrightarrow> cache_view c n = Some f"
    and "cache_view c n = Some f \<Longrightarrow> \<not> expired now ttl f \<Longrightarrow>
      cache_view c' n = Some f \<and> content fs' n = content fs n"
proof -
  have inv': "cache_inv c'" and at: "file_at c' = file_at c"
    and sub: "set (elems (cachingList c')) \<subseteq> set (elems (cachingList c))"
    using cl by (auto simp: cleaned_def dest: file_at_heap)
  show "cache_view c n = Some f" if v: "cache_view c' n = Some f"
  proof -
    obtain p where p: "fmlookup (cachingMap c') n = Some p" "file_at c p = f"
      using v at by (auto simp: cache_view_def)
    with cache_inv_lookup [OF inv' p(1)] sub at
    have "p \<in> set (elems (cachingList c))" "fileName (file_at c p) = n" by auto
    with cache_inv_mapped [OF inv, of p] p(2) show ?thesis by (simp add: cache_view_def)
  qed
  show "cache_view c' n = Some f \<and> content fs' n = content fs n"
    if v: "cache_view c n = Some f" "\<not> expired now ttl f"
  proof -
    obtain p where p: "fmlookup (cachingMap c) n = Some p" "file_at c p = f"
      using v by (auto simp: cache_view_def)
    note member = cache_inv_lookup [OF inv p(1)]
    with cl p(2) v(2) have "p \<in> set (elems (cachingList c'))" "content fs' n = content fs n"
      by (auto simp: cleaned_def)
    with cache_inv_mapped [OF inv', of p] at member p(2) show ?thesis
      by (simp add: cache_view_def)
  qed
qed

text \<open>The system calls keep failing as they did, and no directory appears.\<close>

definition same_faults :: "filesystem \<Rightarrow> filesystem \<Rightarrow> bool" where
  "same_faults fs fs' \<longleftrightarrow> createFault fs' = createFault fs \<and> lockFault fs' = lockFault fs \<and>
     removeFault fs' = removeFault fs \<and> writeFault fs' = writeFault fs \<and>
     openFault fs' = openFault fs \<and> unlockFault fs' = unlockFault fs \<and>
     (\<forall>n. map_of (entries fs') n = Some Directory \<longrightarrow> map_of (entries fs) n = Some Directory)"

lemma same_faults_refl [simp]: "same_faults fs fs"
  by (simp add: same_faults_def)

lemma same_faults_trans: "same_faults fs fs1 \<Longrightarrow> same_faults fs1 fs2 \<Longrightarrow> same_faults fs fs2"
  by (simp add: same_faults_def)

lemma same_faults_removal: "same_faults fs (snd (removeWithLocks name fs))"
  by (auto simp: same_faults_def removeWithLocks_def os_remove_def delete_conv' split: if_splits)

lemma RemoveFileFromCache_disk:
  "RemoveFileFromCache now name c fs = Done (c', fs') \<Longrightarrow> fs' = snd (removeWithLocks name fs)"
  by (auto simp: RemoveFileFromCache_def and_then_Done_iff split: prod.splits option.splits)

lemma cleaningLoop_faults:
  "cleaningLoop now ttl is c fs = Done (c', fs') \<Longrightarrow> same_faults fs fs'"
proof (induction "is" arbitrary: c fs)
  case Nil
  then show ?case by simp
next
  case (Cons i "is")
  show ?case
  proof (cases "expired now ttl (file_at c (cells (cachingList c) ! i))")
    case True
    with Cons.prems obtain c1 fs1 where
      rm: "RemoveFileFromCache now (fileName (file_at c (cells (cachingList c) ! i))) c fs = Done (c1, fs1)"
      and rest: "cleaningLoop now ttl is c1 fs1 = Done (c', fs')"
      by (auto simp: Let_def and_then_Done_iff)
    have "same_faults fs fs1"
      unfolding RemoveFileFromCache_disk [OF rm] by (rule same_faults_removal)
    then show ?thesis using Cons.IH [OF rest] by (rule same_faults_trans)
  next
    case False
    with Cons show ?thesis by (simp add: Let_def)
  qed
qed

lemma deleteExpiredFiles_faults:
  "deleteExpiredFiles now ttl c fs = Done (c', fs') \<Longrightarrow> same_faults fs fs'"
  unfolding deleteExpiredFiles_def by (rule cleaningLoop_faults)

section \<open>Properties\<close>

text \<open>A small cache and a directory without faults, to run the operations on.\<close>

definition plain_disk :: "(string \<times> inode) list \<Rightarrow> filesystem" where
  "plain_disk es = \<lparr>entries = es, openFault = \<lambda>_. False, createFault = \<lambda>_. False,
     lockFault = \<lambda>_. False, removeFault = \<lambda>_. False, unlockFault = \<lambda>_. False,
     writeFault = \<lambda>_ _. False, readDirFault = False\<rparr>"

definition cache_of :: "File list \<Rightarrow> Cache" where
  "cache_of files = \<lparr>heap = files, cachingList = slice_of [0..<length files],
     cachingMap = fmap_of_list (zip (map fileName files) [0..<length files]),
     cacheMutex = False, fileInsertionMutex = False\<rparr>"

lemma cache_inv_cache_of:
  assumes d: "distinct (map fileName files)"
  shows "cache_inv (cache_of files)"
proof -
  let ?n = "length files"
  have mem: "(name, p) \<in> set (zip (map fileName files) [0..<?n]) \<longleftrightarrow> p < ?n \<and> fileName (files ! p) = name"
    for name p by (auto simp: in_set_zip intro!: exI [of _ p])
  have keys: "distinct (map fst (zip (map fileName files) [0..<?n]))" using d by simp
  have "fmlookup (fmap_of_list (zip (map fileName files) [0..<?n])) name = Some p \<longleftrightarrow>
      p < ?n \<and> fileName (files ! p) = name" for name p
    using keys mem [of name p] by (simp add: fmlookup_of_list)
  then show ?thesis by (auto simp: cache_inv_def cache_of_def file_at_def)
qed

lemma cache_of_simps [simp]:
  "cacheMutex (cache_of files) = False"
  "fileInsertionMutex (cache_of files) = False"
  "elems (cachingList (cache_of files)) = [0..<length files]"
  "cells (cachingList (cache_of files)) = [0..<length files]"
  "slen (cachingList (cache_of files)) = length files"
  "heap (cache_of files) = files"
  by (simp_all add: cache_of_def slice_of_def elems_def)

lemma cache_view_cache_of:
  "cache_view (cache_of files) n =
     map_option (\<lambda>p. files ! p) (map_of (zip (map fileName files) [0..<length files]) n)"
  by (simp add: cache_view_def cache_of_def file_at_def [abs_def] fmlookup_of_list)

definition oldFile :: File where
  "oldFile = \<lparr>fileName = ''a'', fileSize = 6, timestamp = 0, popularity = 3\<rparr>"

definition freshFile :: File where
  "freshFile = \<lparr>fileName = ''b'', fileSize = 3, timestamp = 200 * 10 ^ 9, popularity = 1\<rparr>"

text \<open>Inserting a name in the queue keeps the invariant between queue and map; a new name gets a
  fresh descriptor of popularity 1, a name already present only gains one in popularity.\<close>

theorem insertFileInQueue_spec:
  assumes "cache_inv c" and "\<not> cacheMutex c"
  shows "returns (insertFileInQueue now name sz pop c)
    (\<lambda>c'. cache_inv c' \<and> \<not> cacheMutex c' \<and> cache_view c' = (cache_view c)(name \<mapsto>
       (case cache_view c name of
          None \<Rightarrow> newFile now name sz
        | Some f \<Rightarrow> f\<lparr>popularity := wrap64 (popularity f + 1)\<rparr>)))"
proof (cases "fmlookup (cachingMap c) name")
  case None
  show ?thesis
    by (rule returns_mono [OF insertFileInQueue_new [OF assms None]])
      (use None in \<open>simp add: cache_view_def\<close>)
next
  case (Some p)
  have "cache_view c name = Some (file_at c p)" using Some by (simp add: cache_view_def)
  with Some assms cache_inv_lookup [OF assms(1) Some] show ?thesis
    by (simp add: insertFileInQueue_old cache_inv_bump cache_view_bump)
qed

theorem insertFileInQueue_spec_witness:
  "returns (insertFileInQueue 7 ''x'' 42 0 (cache_of [oldFile, freshFile]))
    (\<lambda>c'. cache_inv c' \<and> cache_view c' ''x'' = Some (newFile 7 ''x'' 42))"
proof -
  have "cache_inv (cache_of [oldFile, freshFile])"
    by (rule cache_inv_cache_of) (simp add: oldFile_def freshFile_def)
  then show ?thesis
    by (rule returns_mono [OF insertFileInQueue_spec [where name = "''x''"]])
      (simp_all add: cache_view_cache_of oldFile_def freshFile_def)
qed

text \<open>Removing a cached file either takes it out of queue, map and directory together, or, when
  a system call fails, leaves queue and map untouched; it never panics and never waits.\<close>

theorem RemoveFileFromCache_spec:
  assumes inv: "cache_inv c" and unl: "\<not> cacheMutex c" and cached: "cache_view c name \<noteq> None"
  shows "returns (RemoveFileFromCache now name c fs)
    (\<lambda>(c', fs'). cache_inv c' \<and> \<not> cacheMutex c' \<and>
      (if removable fs name
       then cache_view c' = (cache_view c)(name := None) \<and> content fs' = (content fs)(name := None)
       else c' = c))"
proof -
  obtain p where p: "fmlookup (cachingMap c) name = Some p"
    using cached by (auto simp: cache_view_def)
  have gone: "content (snd (removeWithLocks name fs)) = (content fs)(name := None)"
    if "removable fs name"
    using that by (simp add: removeWithLocks_ok content_os_remove removable_def)
  show ?thesis
    by (rule returns_mono [OF RemoveFileFromCache_ok [OF inv unl p]])
      (use gone in \<open>simp split: prod.splits if_splits\<close>)
qed

theorem RemoveFileFromCache_spec_witness:
  "returns (RemoveFileFromCache 7 ''a'' (cache_of [oldFile, freshFile])
      (plain_disk [(''a'', Regular [1]), (''b'', Regular [2])]))
    (\<lambda>(c', fs'). cache_view c' ''a'' = None \<and> content fs' ''a'' = None)"
proof -
  have "cache_inv (cache_of [oldFile, freshFile])"
    by (rule cache_inv_cache_of) (simp add: oldFile_def freshFile_def)
  moreover have "cache_view (cache_of [oldFile, freshFile]) ''a'' \<noteq> None"
    by (simp add: cache_view_cache_of oldFile_def freshFile_def)
  moreover have "removable (plain_disk [(''a'', Regular [1]), (''b'', Regular [2])]) ''a''"
    by (simp add: removable_def plain_disk_def on_disk_def)
  ultimately show ?thesis
    using RemoveFileFromCache_spec [of "cache_of [oldFile, freshFile]" "''a''" 7
        "plain_disk [(''a'', Regular [1]), (''b'', Regular [2])]"]
    by (auto elim!: returns_mono)
qed

text \<open>Removing a file that is in the directory but not in the cache's map panics: the index
  search answers -1 without an error, and -1 is then used as a slice bound.\<close>

theorem RemoveFileFromCache_untracked:
  assumes "\<not> cacheMutex c" and "cache_view c name = None" and "removable fs name"
  shows "RemoveFileFromCache now name c fs = Panicked"
  using assms
  by (simp add: RemoveFileFromCache_removed removeFileFromQueue_def getIndex_def cache_view_def)

theorem RemoveFileFromCache_untracked_witness:
  "RemoveFileFromCache 7 ''z'' selfCache (plain_disk [(''z'', Regular [])]) = Panicked"
  by (rule RemoveFileFromCache_untracked)
    (simp_all add: selfCache_def cache_view_def removable_def plain_disk_def on_disk_def)

text \<open>The periodic cleaning returns, keeps the invariant, and loses no file that has not expired:
  its descriptor and its content on disk stay as they were, and nothing new enters the cache.\<close>

theorem deleteExpiredFiles_safe:
  assumes inv: "cache_inv c" and unl: "\<not> cacheMutex c"
  shows "returns (deleteExpiredFiles now ttl c fs)
    (\<lambda>(c', fs'). cache_inv c' \<and> \<not> cacheMutex c' \<and>
      (\<forall>n f. cache_view c' n = Some f \<longrightarrow> cache_view c n = Some f) \<and>
      (\<forall>n f. cache_view c n = Some f \<and> \<not> expired now ttl f \<longrightarrow>
         cache_view c' n = Some f \<and> content fs' n = content fs n))"
proof (rule returns_mono [OF deleteExpiredFiles_cleaned [OF inv unl]])
  fix r assume r: "case r of (c', fs') \<Rightarrow> cleaned now ttl c fs c' fs'"
  obtain c' fs' where [simp]: "r = (c', fs')" by (cases r)
  from r have cl: "cleaned now ttl c fs c' fs'" by simp
  from cl have "cache_inv c' \<and> \<not> cacheMutex c'" by (simp add: cleaned_def)
  with cleaned_view [OF inv cl] show "case r of (c', fs') \<Rightarrow> cache_inv c' \<and> \<not> cacheMutex c' \<and>
      (\<forall>n f. cache_view c' n = Some f \<longrightarrow> cache_view c n = Some f) \<and>
      (\<forall>n f. cache_view c n = Some f \<and> \<not> expired now ttl f \<longrightarrow>
         cache_view c' n = Some f \<and> content fs' n = content fs n)"
    unfolding \<open>r = (c', fs')\<close> prod.case by blast
qed

theorem deleteExpiredFiles_safe_witness:
  "returns (deleteExpiredFiles (300 * 10 ^ 9) 180 (cache_of [oldFile, freshFile])
      (plain_disk [(''a'', Regular [1]), (''b'', Regular [2])]))
    (\<lambda>(c', fs'). cache_view c' ''b'' = Some freshFile \<and> content fs' ''b'' = Some [2])"
proof -
  let ?c = "cache_of [oldFile, freshFile]"
  let ?fs = "plain_disk [(''a'', Regular [1]), (''b'', Regular [2])]"
  have inv: "cache_inv ?c"
    by (rule cache_inv_cache_of) (simp add: oldFile_def freshFile_def)
  have view: "cache_view ?c ''b'' = Some freshFile"
    by (simp add: cache_view_cache_of oldFile_def freshFile_def)
  have fresh: "\<not> expired (300 * 10 ^ 9) 180 freshFile"
    by (simp add: expired_def freshFile_def wrap64_def)
  have disk: "content ?fs ''b'' = Some [2]"
    by (simp add: content_def plain_disk_def)
  obtain c' fs' where run: "deleteExpiredFiles (300 * 10 ^ 9) 180 ?c ?fs = Done (c', fs')"
    and "\<forall>n f. cache_view ?c n = Some f \<and> \<not> expired (300 * 10 ^ 9) 180 f \<longrightarrow>
      cache_view c' n = Some f \<and> content fs' n = content ?fs n"
    using deleteExpiredFiles_safe [OF inv, of "300 * 10 ^ 9" 180 ?fs] by (auto simp: returns_iff)
  with view fresh disk have "cache_view c' ''b'' = Some freshFile \<and> content fs' ''b'' = Some [2]"
    by metis
  with run show ?thesis by simp
qed

text \<open>The cleaning loop deletes from the array it ranges over and so jumps over elements: of
  three expired files that can all be removed, the second survives the pass.\<close>

theorem deleteExpiredFiles_skips:
  "let files = map (\<lambda>n. \<lparr>fileName = n, fileSize = 1, timestamp = 0, popularity = 1\<rparr>) [''a'', ''b'', ''c''];
       disk = plain_disk [(''a'', Regular [1]), (''b'', Regular [2]), (''c'', Regular [3])]
   in list_all (\<lambda>f. expired (300 * 10 ^ 9) 180 f \<and> removable disk (fileName f)) files \<and>
      returns (deleteExpiredFiles (300 * 10 ^ 9) 180 (cache_of files) disk)
        (\<lambda>(c', fs'). map (fileName \<circ> file_at c') (elems (cachingList c')) = [''b''] \<and>
           removable fs' ''b'')"
  by (simp add: deleteExpiredFiles_def cache_of_def slice_of_def elems_def plain_disk_def
      removable_def on_disk_def expired_def wrap64_def file_at_def Let_def
      RemoveFileFromCache_def removeWithLocks_def os_remove_def removeFileFromQueue_def getIndex_def
      fmlookup_of_list slice_remove_def)

text \<open>Recovery at start-up rebuilds the cache from the directory: one entry for every regular
  file, with its size on disk, and none for the subdirectories.\<close>

theorem ActivateCacheRecovery_rebuilds:
  assumes "distinct (map fst (entries fs))" and "\<not> readDirFault fs"
  shows "returns (ActivateCacheRecovery now fs selfCache)
    (\<lambda>c'. cache_inv c' \<and> \<not> cacheMutex c' \<and>
      (\<forall>n. cache_view c' n = map_option (\<lambda>b. newFile now n (int (length b))) (content fs n)))"
proof -
  let ?files = "sort_key fst (entries fs)"
  have start: "cache_view selfCache = Map.empty" "\<not> cacheMutex selfCache"
    by (simp_all add: cache_view_def selfCache_def fun_eq_iff)
  have "returns (recoveryLoop now ?files selfCache)
    (\<lambda>c'. cache_inv c' \<and> \<not> cacheMutex c' \<and> fileInsertionMutex c' = fileInsertionMutex selfCache \<and>
      cache_view c' = cache_view selfCache ++ recovered now ?files)"
    by (rule recoveryLoop_ok [OF cache_inv_self start(2) recovered_sorted(2) [OF assms(1)]])
      (simp add: start)
  then show ?thesis
    using assms(2) start(1) recovered_sorted(1) [OF assms(1), of now]
    by (auto simp: ActivateCacheRecovery_def os_readDir_def recovered_def content_def returns_iff
        split: option.split inode.split)
qed

theorem ActivateCacheRecovery_rebuilds_witness:
  "returns (ActivateCacheRecovery 9 (plain_disk [(''f'', Regular [1, 2]), (''d'', Directory)]) selfCache)
    (\<lambda>c'. cache_view c' ''f'' = Some (newFile 9 ''f'' 2) \<and> cache_view c' ''d'' = None)"
  by (rule returns_mono [OF ActivateCacheRecovery_rebuilds]) (simp_all add: plain_disk_def content_def)

end
