(* ===== verification/CacheEviction.thy ===== *)
theory CacheEviction
  imports FileCache "HOL-Library.Multiset"
begin

text \<open>
  Eviction and the insertion of a whole file (\<^verbatim>\<open>freeSpaceForInsert\<close>, \<^verbatim>\<open>chooseAndDeleteFiles\<close>,
  \<^verbatim>\<open>writeChunksInCache\<close> and \<^verbatim>\<open>InsertFileInCache\<close> of \<^verbatim>\<open>edge/cache/cache.go\<close>).
\<close>

section \<open>Eviction\<close>

text \<open>\<^verbatim>\<open>statfs\<close> reports free blocks and block size; on an error the structure stays zero.\<close>

definition retrieveFreeMemorySize :: "(int \<times> int) option \<Rightarrow> int" where
  "retrieveFreeMemorySize stat = (case stat of None \<Rightarrow> 0 | Some (bfree, bsize) \<Rightarrow> wrap64 (bfree * bsize))"

fun selectLoop :: "(ptr \<Rightarrow> int) \<Rightarrow> int \<Rightarrow> ptr list \<Rightarrow> int \<Rightarrow> ptr list \<Rightarrow> int \<times> ptr list" where
  "selectLoop sz required [] cnt selected = (cnt, selected)"
| "selectLoop sz required (p # ps) cnt selected =
     (let cnt' = wrap64 (cnt + sz p) in
      if cnt' \<ge> required then (cnt', selected @ [p])
      else selectLoop sz required ps cnt' (selected @ [p]))"

fun spareLoop :: "(ptr \<Rightarrow> int) \<Rightarrow> int \<Rightarrow> int \<Rightarrow> ptr list \<Rightarrow> nat \<Rightarrow> ptr list \<Rightarrow> ptr list" where
  "spareLoop sz required cnt selected 0 final = final"
| "spareLoop sz required cnt selected (Suc i) final =
     spareLoop sz required cnt selected i
       (if wrap64 (cnt - sz (selected ! Suc i)) < required then final @ [selected ! Suc i] else final)"

fun deleteLoop :: "int \<Rightarrow> ptr list \<Rightarrow> Cache \<Rightarrow> filesystem \<Rightarrow> (Cache \<times> filesystem) outcome" where
  "deleteLoop now [] c fs = Done (c, fs)"
| "deleteLoop now (p # ps) c fs =
     and_then (RemoveFileFromCache now (fileName (file_at c p)) c fs)
       (\<lambda>(c', fs'). deleteLoop now ps c' fs')"

definition filesToDelete :: "(ptr \<Rightarrow> int) \<Rightarrow> int \<Rightarrow> ptr list \<Rightarrow> ptr list" where
  "filesToDelete sz required queue =
     (let (cnt, selected) = selectLoop sz required queue 0 []
      in spareLoop sz required cnt selected (length selected - 1) [])"

definition chooseAndDeleteFiles ::
  "int \<Rightarrow> int \<Rightarrow> Cache \<Rightarrow> filesystem \<Rightarrow> (goError option \<times> Cache \<times> filesystem) outcome" where
  "chooseAndDeleteFiles now memoryRequired c fs =
     (if cacheMutex c then Blocked
      else let c1 = c\<lparr>cacheMutex := True\<rparr>;
               sz = (\<lambda>p. fileSize (file_at c p));
               queue = elems (cachingList c);
               (cnt, selected) = selectLoop sz memoryRequired queue 0 []
           in if selected = [] then Done (Some (Errorf ''impossibile individuare file''), c, fs)
              else and_then (deleteLoop now (spareLoop sz memoryRequired cnt selected (length selected - 1) []) c1 fs)
                     (\<lambda>(c', fs'). Done (None, c'\<lparr>cacheMutex := False\<rparr>, fs')))"

text \<open>
  \<^verbatim>\<open>sort.Sort(ByPopularity(...))\<close> reorders the queue in place. The library promises a sorted
  permutation and nothing about equal elements, so the sorting routine is an argument here; the
  interface below states what is used of it.
\<close>

definition Less :: "Cache \<Rightarrow> ptr \<Rightarrow> ptr \<Rightarrow> bool" where
  "Less c p q \<longleftrightarrow> popularity (file_at c p) < popularity (file_at c q)"

definition sortQueue :: "((ptr \<Rightarrow> ptr \<Rightarrow> bool) \<Rightarrow> ptr list \<Rightarrow> ptr list) \<Rightarrow> Cache \<Rightarrow> Cache" where
  "sortQueue sorter c =
     c\<lparr>cachingList := (cachingList c)\<lparr>cells :=
        sorter (Less c) (elems (cachingList c)) @ drop (slen (cachingList c)) (cells (cachingList c))\<rparr>\<rparr>"

definition freeSpaceForInsert ::
  "((ptr \<Rightarrow> ptr \<Rightarrow> bool) \<Rightarrow> ptr list \<Rightarrow> ptr list) \<Rightarrow> (filesystem \<Rightarrow> (int \<times> int) option) \<Rightarrow>
   int \<Rightarrow> int \<Rightarrow> int \<Rightarrow> Cache \<Rightarrow> filesystem \<Rightarrow> (goError option \<times> Cache \<times> filesystem) outcome" where
  "freeSpaceForInsert sorter statfs now ttl sz c fs =
     and_then (deleteExpiredFiles now ttl c fs) (\<lambda>(c1, fs1).
       let freeMemory = retrieveFreeMemorySize (statfs fs1) in
       if freeMemory < sz
       then chooseAndDeleteFiles now (wrap64 (sz - freeMemory)) (sortQueue sorter c1) fs1
       else Done (None, c1, fs1))"

section \<open>Writing the chunks of a file\<close>

text \<open>
  The goroutine reads its message channel until it is closed; \<open>msgs\<close> are the messages the sender
  puts on it and \<open>closes\<close> tells whether the sender closes it afterwards. The result is the error
  returned, the values sent on the return channel and the directory.
\<close>

fun writeLoop :: "string \<Rightarrow> bool \<Rightarrow> Message list \<Rightarrow> nat \<Rightarrow> filesystem \<Rightarrow>
    (goError option \<times> goError option list \<times> filesystem) outcome" where
  "writeLoop name closes [] n fs = (if closes then Done (None, [None], fs) else Blocked)"
| "writeLoop name closes (m # ms) n fs =
     (case Err m of
        Some e \<Rightarrow> Done (Some e, [Some e], os_remove name fs)
      | None \<Rightarrow>
          if writeFault fs name n
          then Done (Some (External ''write''), [Some (External ''write'')], os_remove name fs)
          else writeLoop name closes ms (Suc n) (os_write name (Body m) fs))"

definition writeChunksInCache :: "string \<Rightarrow> bool \<Rightarrow> Message list \<Rightarrow> filesystem \<Rightarrow>
    (goError option \<times> goError option list \<times> filesystem) outcome" where
  "writeChunksInCache name closes msgs fs =
     (case msgs of
        [] \<Rightarrow> if closes then Done (Some (Errorf ''file non salvato in cache''), [], fs) else Blocked
      | _ \<Rightarrow>
          (case os_create name fs of
             None \<Rightarrow> Done (Some (External ''create''), [Some (External ''create'')], fs)
           | Some fs1 \<Rightarrow>
               if lockFault fs1 name
               then Done (Some (External ''flock''), [Some (External ''flock'')], fs1)
               else writeLoop name closes msgs 0 fs1))"

definition InsertFileInCache ::
  "((ptr \<Rightarrow> ptr \<Rightarrow> bool) \<Rightarrow> ptr list \<Rightarrow> ptr list) \<Rightarrow> (filesystem \<Rightarrow> (int \<times> int) option) \<Rightarrow> int \<Rightarrow> int \<Rightarrow>
   bool \<Rightarrow> Message list \<Rightarrow> string \<Rightarrow> int \<Rightarrow> Cache \<Rightarrow> filesystem \<Rightarrow>
   (goError option list \<times> Cache \<times> filesystem) outcome" where
  "InsertFileInCache sorter statfs now ttl closes msgs name sz c fs =
     (if fmlookup (cachingMap c) name \<noteq> None then Done ([], c, fs)
      else if fileInsertionMutex c then Blocked
      else and_then (freeSpaceForInsert sorter statfs now ttl sz (c\<lparr>fileInsertionMutex := True\<rparr>) fs)
        (\<lambda>(err, c1, fs1).
          if err \<noteq> None then Done ([], c1\<lparr>fileInsertionMutex := False\<rparr>, fs1)
          else and_then (writeChunksInCache name closes msgs fs1) (\<lambda>(err, rets, fs2).
            if err \<noteq> None then Done (rets, c1\<lparr>fileInsertionMutex := False\<rparr>, fs2)
            else and_then (insertFileInQueue now name sz 1 c1) (\<lambda>c2.
              Done (rets, c2\<lparr>fileInsertionMutex := False\<rparr>, fs2)))))"


section \<open>What eviction selects\<close>

lemma selectLoop_prefix:
  "\<exists>k \<le> length queue. snd (selectLoop sz required queue cnt sel) = sel @ take k queue \<and>
     (0 < length queue \<longrightarrow> 0 < k)"
proof (induction queue arbitrary: cnt sel)
  case Nil
  then show ?case by simp
next
  case (Cons p ps)
  show ?case
  proof (cases "wrap64 (cnt + sz p) \<ge> required")
    case True
    then show ?thesis by (intro exI [of _ 1]) (simp add: Let_def)
  next
    case False
    from Cons.IH [of "wrap64 (cnt + sz p)" "sel @ [p]"]
    obtain k where "k \<le> length ps"
      "snd (selectLoop sz required ps (wrap64 (cnt + sz p)) (sel @ [p])) = (sel @ [p]) @ take k ps"
      by blast
    with False show ?thesis by (intro exI [of _ "Suc k"]) (simp add: Let_def)
  qed
qed

text \<open>Sums that stay below \<open>2 ^ 63\<close> are exact.\<close>

lemma sum_list_nonneg_le:
  fixes f :: "'a \<Rightarrow> int"
  shows "\<forall>x\<in>set xs. 0 \<le> f x \<Longrightarrow> 0 \<le> sum_list (map f xs)"
  by (induction xs) auto

lemma selectLoop_count:
  assumes "\<forall>p\<in>set queue. 0 \<le> sz p" and "0 \<le> cnt" and "cnt + sum_list (map sz queue) < 2 ^ 63"
  shows "fst (selectLoop sz required queue cnt sel) =
      cnt + sum_list (map sz (drop (length sel) (snd (selectLoop sz required queue cnt sel))))"
    and "required \<le> fst (selectLoop sz required queue cnt sel) \<or>
      snd (selectLoop sz required queue cnt sel) = sel @ queue"
proof -
  have "fst (selectLoop sz required queue cnt sel) =
      cnt + sum_list (map sz (drop (length sel) (snd (selectLoop sz required queue cnt sel)))) \<and>
      (required \<le> fst (selectLoop sz required queue cnt sel) \<or>
       snd (selectLoop sz required queue cnt sel) = sel @ queue)"
    using assms
  proof (induction queue arbitrary: cnt sel)
    case Nil
    then show ?case by simp
  next
    case (Cons p ps)
    have nn: "0 \<le> sum_list (map sz ps)" using Cons.prems(1) by (intro sum_list_nonneg_le) simp
    have w: "wrap64 (cnt + sz p) = cnt + sz p"
      using Cons.prems nn by (intro wrap64_id) auto
    show ?case
    proof (cases "cnt + sz p \<ge> required")
      case True
      then show ?thesis by (simp add: Let_def w)
    next
      case False
      obtain k where "snd (selectLoop sz required ps (cnt + sz p) (sel @ [p])) = (sel @ [p]) @ take k ps"
        using selectLoop_prefix by blast
      with False Cons.IH [of "cnt + sz p" "sel @ [p]"] Cons.prems show ?thesis
        by (auto simp add: Let_def w)
    qed
  qed
  then show "fst (selectLoop sz required queue cnt sel) =
      cnt + sum_list (map sz (drop (length sel) (snd (selectLoop sz required queue cnt sel))))"
    and "required \<le> fst (selectLoop sz required queue cnt sel) \<or>
      snd (selectLoop sz required queue cnt sel) = sel @ queue"
    by blast+
qed

lemma spareLoop_set:
  "set (spareLoop sz required cnt sel k final) =
     set final \<union> {sel ! i | i. 0 < i \<and> i \<le> k \<and> wrap64 (cnt - sz (sel ! i)) < required}"
proof (induction k arbitrary: final)
  case 0
  then show ?case by auto
next
  case (Suc k)
  have "{sel ! i | i. 0 < i \<and> i \<le> Suc k \<and> wrap64 (cnt - sz (sel ! i)) < required} =
      {sel ! i | i. 0 < i \<and> i \<le> k \<and> wrap64 (cnt - sz (sel ! i)) < required} \<union>
      (if wrap64 (cnt - sz (sel ! Suc k)) < required then {sel ! Suc k} else {})"
    by (auto simp: le_Suc_eq)
  then show ?case by (simp add: Suc.IH)
qed

lemma filesToDelete_tail:
  "set (filesToDelete sz required queue) \<subseteq> set (tl queue)"
proof -
  obtain cnt sel where r: "selectLoop sz required queue 0 [] = (cnt, sel)"
    by (cases "selectLoop sz required queue 0 []")
  obtain k where k: "sel = take k queue"
    using selectLoop_prefix [of queue sz required 0 "[]"] r by auto
  have "sel ! i \<in> set (tl queue)" if "0 < i" "i \<le> length sel - 1" for i
  proof -
    have "i < length queue" and "sel ! i = queue ! i" using that k by auto
    with \<open>0 < i\<close> have "sel ! i = tl queue ! (i - 1)" by (simp add: nth_tl)
    moreover have "i - 1 < length (tl queue)" using \<open>0 < i\<close> \<open>i < length queue\<close> by simp
    ultimately show ?thesis by simp
  qed
  then show ?thesis
    by (auto simp: filesToDelete_def r spareLoop_set)
qed

section \<open>Eviction and the mutex\<close>

lemma removable_frame:
  "removable fs n \<Longrightarrow> \<not> removable fs m \<Longrightarrow> removable (snd (removeWithLocks m fs)) n"
  by (auto simp: removable_def removeWithLocks_def content_on_disk content_os_remove)

lemma not_removable_frame:
  "\<not> removable fs n \<Longrightarrow> \<not> removable (snd (removeWithLocks m fs)) n"
  by (auto simp: removable_def removeWithLocks_def content_on_disk content_os_remove
      split: if_splits)

lemma RemoveFileFromCache_locked:
  "cacheMutex c \<Longrightarrow> removable fs name \<Longrightarrow> RemoveFileFromCache now name c fs = Blocked"
  by (simp add: RemoveFileFromCache_removed removeFileFromQueue_def)

lemma deleteLoop_blocked:
  "cacheMutex c \<Longrightarrow> p \<in> set ps \<Longrightarrow> removable fs (fileName (file_at c p)) \<Longrightarrow>
     deleteLoop now ps c fs = Blocked"
proof (induction ps arbitrary: fs)
  case Nil
  then show ?case by simp
next
  case (Cons q ps)
  show ?case
  proof (cases "removable fs (fileName (file_at c q))")
    case True
    with Cons.prems show ?thesis by (simp add: RemoveFileFromCache_locked)
  next
    case False
    with Cons.prems have "p \<in> set ps" by auto
    with False Cons show ?thesis by (simp add: RemoveFileFromCache_failed removable_frame)
  qed
qed

lemma deleteLoop_idle:
  "\<forall>p\<in>set ps. \<not> removable fs (fileName (file_at c p)) \<Longrightarrow>
     \<exists>fs'. deleteLoop now ps c fs = Done (c, fs')"
  by (induction ps arbitrary: fs) (auto simp: RemoveFileFromCache_failed not_removable_frame)

lemma chooseAndDeleteFiles_alt:
  "\<not> cacheMutex c \<Longrightarrow> elems (cachingList c) \<noteq> [] \<Longrightarrow>
     chooseAndDeleteFiles now required c fs =
       and_then (deleteLoop now (filesToDelete (\<lambda>p. fileSize (file_at c p)) required (elems (cachingList c)))
                  (c\<lparr>cacheMutex := True\<rparr>) fs)
         (\<lambda>(c', fs'). Done (None, c'\<lparr>cacheMutex := False\<rparr>, fs'))"
proof -
  assume a: "\<not> cacheMutex c" "elems (cachingList c) \<noteq> []"
  obtain cnt sel where r:
    "selectLoop (\<lambda>p. fileSize (file_at c p)) required (elems (cachingList c)) 0 [] = (cnt, sel)"
    by (cases "selectLoop (\<lambda>p. fileSize (file_at c p)) required (elems (cachingList c)) 0 []")
  have "sel \<noteq> []"
    using selectLoop_prefix [of "elems (cachingList c)" "\<lambda>p. fileSize (file_at c p)" required 0 "[]"] r a(2)
    by auto
  with a r show ?thesis
    by (simp add: chooseAndDeleteFiles_def filesToDelete_def Let_def)
qed

lemma chooseAndDeleteFiles_empty:
  "\<not> cacheMutex c \<Longrightarrow> elems (cachingList c) = [] \<Longrightarrow>
     \<exists>e. chooseAndDeleteFiles now required c fs = Done (Some e, c, fs)"
  by (simp add: chooseAndDeleteFiles_def Let_def)

text \<open>Eviction waits for itself as soon as one chosen file can be removed, and is idle otherwise.\<close>

lemma chooseAndDeleteFiles_outcome:
  assumes "\<not> cacheMutex c"
  shows "if \<exists>p\<in>set (filesToDelete (\<lambda>p. fileSize (file_at c p)) required (elems (cachingList c))).
             removable fs (fileName (file_at c p))
         then chooseAndDeleteFiles now required c fs = Blocked
         else \<exists>e fs'. chooseAndDeleteFiles now required c fs = Done (e, c, fs')"
proof (cases "elems (cachingList c) = []")
  case True
  then have "filesToDelete (\<lambda>p. fileSize (file_at c p)) required (elems (cachingList c)) = []"
    by (simp add: filesToDelete_def)
  with chooseAndDeleteFiles_empty [OF assms True, of now required fs] show ?thesis by auto
next
  case False
  let ?ps = "filesToDelete (\<lambda>p. fileSize (file_at c p)) required (elems (cachingList c))"
  let ?c = "c\<lparr>cacheMutex := True\<rparr>"
  have same: "c\<lparr>cacheMutex := False\<rparr> = c" using assms by simp
  show ?thesis
  proof (cases "\<exists>p\<in>set ?ps. removable fs (fileName (file_at c p))")
    case True
    then obtain p where "p \<in> set ?ps" "removable fs (fileName (file_at ?c p))" by auto
    then have "deleteLoop now ?ps ?c fs = Blocked" by (intro deleteLoop_blocked) auto
    with True show ?thesis by (simp add: chooseAndDeleteFiles_alt [OF assms False])
  next
    case idle: False
    then obtain fs' where "deleteLoop now ?ps ?c fs = Done (?c, fs')"
      using deleteLoop_idle [of ?ps fs ?c now] by auto
    with idle show ?thesis by (simp add: chooseAndDeleteFiles_alt [OF assms False] same)
  qed
qed

section \<open>Sorting by popularity\<close>

text \<open>
  The contract of \<^verbatim>\<open>sort.Sort\<close> for \<^verbatim>\<open>ByPopularity\<close>: a permutation in which no element is less than
  one before it. What the cache needs of the sorted queue is proved from the contract alone.
\<close>

locale popularity_sort =
  fixes sorter :: "(ptr \<Rightarrow> ptr \<Rightarrow> bool) \<Rightarrow> ptr list \<Rightarrow> ptr list"
  assumes sorter_mset: "mset (sorter (Less c) xs) = mset xs"
    and sorter_sorted: "sorted_wrt (\<lambda>p q. \<not> Less c q p) (sorter (Less c) xs)"
begin

lemma elems_sortQueue:
  assumes "slice_ok (cachingList c)"
  shows "elems (cachingList (sortQueue sorter c)) = sorter (Less c) (elems (cachingList c))"
proof -
  have "length (sorter (Less c) (elems (cachingList c))) = slen (cachingList c)"
    using assms sorter_mset [of c "elems (cachingList c)"] mset_eq_length length_elems by metis
  then show ?thesis by (simp add: sortQueue_def elems_def)
qed

lemma sortQueue_inv:
  assumes inv: "cache_inv c"
  shows "cache_inv (sortQueue sorter c)"
proof -
  let ?xs = "elems (cachingList c)"
  have perm: "mset (sorter (Less c) ?xs) = mset ?xs" by (rule sorter_mset)
  have el: "elems (cachingList (sortQueue sorter c)) = sorter (Less c) ?xs"
    using inv by (auto intro: elems_sortQueue)
  have len: "length (sorter (Less c) ?xs) = length ?xs" using perm by (rule mset_eq_length)
  have "slice_ok (cachingList (sortQueue sorter c))"
    using inv len by (auto simp: sortQueue_def slice_ok_def length_elems cache_inv_def)
  moreover have "set (sorter (Less c) ?xs) = set ?xs" and "distinct (sorter (Less c) ?xs) = distinct ?xs"
    using perm by (metis set_mset_mset, metis mset_eq_imp_distinct_iff)
  ultimately show ?thesis
    using inv unfolding cache_inv_def el by (simp add: sortQueue_def)
qed

lemma sortQueue_fields:
  "cacheMutex (sortQueue sorter c) = cacheMutex c"
  "fileInsertionMutex (sortQueue sorter c) = fileInsertionMutex c"
  "cachingMap (sortQueue sorter c) = cachingMap c"
  "file_at (sortQueue sorter c) = file_at c"
  "cache_view (sortQueue sorter c) = cache_view c"
  by (simp_all add: sortQueue_def cache_view_def fun_eq_iff)

text \<open>The files eviction selects first are the least popular ones.\<close>

lemma least_popular_first:
  assumes "slice_ok (cachingList c)" and "i < j"
    and "j < length (elems (cachingList (sortQueue sorter c)))"
  shows "popularity (file_at c (elems (cachingList (sortQueue sorter c)) ! i)) \<le>
    popularity (file_at c (elems (cachingList (sortQueue sorter c)) ! j))"
  using sorted_wrt_nth_less [OF sorter_sorted, of i j c "elems (cachingList c)"] assms
  by (simp add: elems_sortQueue Less_def)

lemma freeSpaceForInsert_enough:
  assumes "cache_inv c" and "\<not> cacheMutex c"
    and room: "\<And>c' fs'. deleteExpiredFiles now ttl c fs = Done (c', fs') \<Longrightarrow>
      sz \<le> retrieveFreeMemorySize (statfs fs')"
  shows "returns (freeSpaceForInsert sorter statfs now ttl sz c fs)
    (\<lambda>(err, c', fs'). err = None \<and> cleaned now ttl c fs c' fs')"
proof -
  from deleteExpiredFiles_cleaned [OF assms(1,2), of now ttl fs]
  obtain c1 fs1 where run: "deleteExpiredFiles now ttl c fs = Done (c1, fs1)"
    and "cleaned now ttl c fs c1 fs1"
    by (auto simp: returns_iff)
  with room [OF run] show ?thesis by (simp add: freeSpaceForInsert_def Let_def)
qed

text \<open>When it returns at all, the queue has only lost expired files: eviction itself frees nothing.\<close>

lemma freeSpaceForInsert_cleaned:
  assumes "cache_inv c" and "\<not> cacheMutex c"
    and run: "freeSpaceForInsert sorter statfs now ttl sz c fs = Done (err, c', fs')"
  shows "\<exists>c1 fs1. deleteExpiredFiles now ttl c fs = Done (c1, fs1) \<and> cleaned now ttl c fs c1 fs1 \<and>
    (c' = c1 \<or> c' = sortQueue sorter c1)"
proof -
  from deleteExpiredFiles_cleaned [OF assms(1,2), of now ttl fs]
  obtain c1 fs1 where del: "deleteExpiredFiles now ttl c fs = Done (c1, fs1)"
    and cl: "cleaned now ttl c fs c1 fs1"
    by (auto simp: returns_iff)
  show ?thesis
  proof (cases "retrieveFreeMemorySize (statfs fs1) < sz")
    case True
    let ?c = "sortQueue sorter c1"
    have unl: "\<not> cacheMutex ?c" using cl by (simp add: cleaned_def sortQueue_fields)
    have "chooseAndDeleteFiles now (wrap64 (sz - retrieveFreeMemorySize (statfs fs1))) ?c fs1 =
        Done (err, c', fs')"
      using run del True by (simp add: freeSpaceForInsert_def Let_def)
    with chooseAndDeleteFiles_outcome [OF unl, of "wrap64 (sz - retrieveFreeMemorySize (statfs fs1))" fs1 now]
    have "c' = ?c" by (auto split: if_splits)
    with del cl show ?thesis by blast
  next
    case False
    with run del cl show ?thesis by (auto simp: freeSpaceForInsert_def Let_def)
  qed
qed

end

text \<open>
  Insertion sort, which \<^verbatim>\<open>sort.Sort\<close> runs on short slices: every element moves left past the
  elements it is less than. The sorted prefix is kept reversed.
\<close>

fun moveLeft :: "(ptr \<Rightarrow> ptr \<Rightarrow> bool) \<Rightarrow> ptr \<Rightarrow> ptr list \<Rightarrow> ptr list" where
  "moveLeft lt x [] = [x]"
| "moveLeft lt x (y # ys) = (if lt x y then y # moveLeft lt x ys else x # y # ys)"

definition insertionSort :: "(ptr \<Rightarrow> ptr \<Rightarrow> bool) \<Rightarrow> ptr list \<Rightarrow> ptr list" where
  "insertionSort lt xs = rev (foldl (\<lambda>acc x. moveLeft lt x acc) [] xs)"

lemma mset_moveLeft: "mset (moveLeft lt x ys) = add_mset x (mset ys)"
  by (induction ys) auto

lemma set_moveLeft: "set (moveLeft lt x ys) = insert x (set ys)"
  by (metis mset_moveLeft set_mset_add_mset_insert set_mset_mset)

lemma sorted_moveLeft:
  "sorted_wrt (\<lambda>p q. \<not> Less c p q) ys \<Longrightarrow> sorted_wrt (\<lambda>p q. \<not> Less c p q) (moveLeft (Less c) x ys)"
  by (induction ys) (auto simp: set_moveLeft Less_def)

lemma mset_foldl_moveLeft:
  "mset (foldl (\<lambda>acc x. moveLeft lt x acc) acc xs) = mset acc + mset xs"
  by (induction xs arbitrary: acc) (auto simp: mset_moveLeft)

lemma sorted_foldl_moveLeft:
  "sorted_wrt (\<lambda>p q. \<not> Less c p q) acc \<Longrightarrow>
     sorted_wrt (\<lambda>p q. \<not> Less c p q) (foldl (\<lambda>acc x. moveLeft (Less c) x acc) acc xs)"
  by (induction xs arbitrary: acc) (auto simp: sorted_moveLeft)

interpretation bypop: popularity_sort insertionSort
proof unfold_locales
  show "mset (insertionSort (Less c) xs) = mset xs" for c xs
    by (simp add: insertionSort_def mset_foldl_moveLeft)
  show "sorted_wrt (\<lambda>p q. \<not> Less c q p) (insertionSort (Less c) xs)" for c xs
    by (simp add: insertionSort_def sorted_wrt_rev sorted_foldl_moveLeft)
qed

section \<open>Writing a file\<close>

definition first_error :: "Message list \<Rightarrow> goError option" where
  "first_error msgs = (case find (\<lambda>m. Err m \<noteq> None) msgs of None \<Rightarrow> None | Some m \<Rightarrow> Err m)"

lemma first_error_simps [simp]:
  "first_error [] = None"
  "first_error (m # ms) = (case Err m of None \<Rightarrow> first_error ms | Some e \<Rightarrow> Some e)"
  by (auto simp: first_error_def split: option.splits)

lemma content_os_write:
  "content fs name = Some old \<Longrightarrow> content (os_write name b fs) = (content fs)(name \<mapsto> old @ b)"
  by (auto simp: content_def os_write_def update_conv' fun_eq_iff split: option.splits inode.splits)

lemma os_write_faults [simp]:
  "removeFault (os_write name b fs) = removeFault fs"
  "writeFault (os_write name b fs) = writeFault fs"
  by (simp_all add: os_write_def split: option.split inode.split)

lemma content_os_create:
  "os_create name fs = Some fs' \<Longrightarrow> content fs' = (content fs)(name \<mapsto> []) \<and>
     lockFault fs' = lockFault fs \<and> removeFault fs' = removeFault fs \<and> writeFault fs' = writeFault fs"
  by (auto simp: content_def os_create_def update_conv' fun_eq_iff split: if_splits)

lemma writeLoop_closed:
  assumes "content fs name = Some old" and "\<not> removeFault fs name" and "\<And>k. \<not> writeFault fs name k"
  shows "\<exists>fs'. writeLoop name True msgs n fs = Done (first_error msgs, [first_error msgs], fs') \<and>
    content fs' = (content fs)(name := (if first_error msgs = None
      then Some (old @ concat (map Body msgs)) else None))"
  using assms
proof (induction msgs arbitrary: n fs old)
  case Nil
  then show ?case by (auto simp: fun_eq_iff)
next
  case (Cons m ms)
  show ?case
  proof (cases "Err m")
    case (Some e)
    with Cons.prems show ?thesis by (simp add: content_os_remove fun_eq_iff)
  next
    case None
    let ?fs = "os_write name (Body m) fs"
    have w: "content ?fs = (content fs)(name \<mapsto> old @ Body m)"
      using Cons.prems(1) by (rule content_os_write)
    with Cons.IH [of ?fs "old @ Body m" "Suc n"] Cons.prems None show ?thesis
      by (auto simp: fun_eq_iff)
  qed
qed

lemma writeChunksInCache_closed:
  assumes "msgs \<noteq> []" and "os_create name fs \<noteq> None" and "\<not> lockFault fs name"
    and "\<not> removeFault fs name" and "\<And>k. \<not> writeFault fs name k"
  shows "\<exists>fs'. writeChunksInCache name True msgs fs = Done (first_error msgs, [first_error msgs], fs') \<and>
    content fs' = (content fs)(name := (if first_error msgs = None
      then Some (concat (map Body msgs)) else None))"
proof -
  obtain fs1 where c: "os_create name fs = Some fs1" using assms(2) by auto
  then have k: "content fs1 = (content fs)(name \<mapsto> [])" "\<not> lockFault fs1 name"
    "\<not> removeFault fs1 name" "\<And>k. \<not> writeFault fs1 name k"
    using content_os_create [OF c] assms by auto
  then have "content fs1 name = Some []" by simp
  from writeLoop_closed [OF this k(3,4), of msgs 0] obtain fs' where
    run: "writeLoop name True msgs 0 fs1 = Done (first_error msgs, [first_error msgs], fs')" and
    ct: "content fs' = (content fs1)(name := (if first_error msgs = None
      then Some ([] @ concat (map Body msgs)) else None))"
    by blast
  have "writeChunksInCache name True msgs fs = writeLoop name True msgs 0 fs1"
    using assms(1) c k(2) by (cases msgs) (simp_all add: writeChunksInCache_def del: writeLoop.simps)
  with run ct k(1) show ?thesis by (simp add: fun_eq_iff)
qed

section \<open>Inserting a whole file\<close>

lemma InsertFileInCache_stored:
  assumes inv: "cache_inv c" and unl: "\<not> cacheMutex c" "\<not> fileInsertionMutex c"
    and new: "cache_view c name = None" and msgs: "msgs \<noteq> []"
    and room: "\<And>fs'. sz \<le> retrieveFreeMemorySize (statfs fs')"
    and os: "\<not> createFault fs name" "map_of (entries fs) name \<noteq> Some Directory"
      "\<not> lockFault fs name" "\<not> removeFault fs name" "\<And>k. \<not> writeFault fs name k"
  shows "returns (InsertFileInCache insertionSort statfs now ttl True msgs name sz c fs)
    (\<lambda>(rets, c', fs'). rets = [first_error msgs] \<and>
      cache_inv c' \<and> \<not> cacheMutex c' \<and> \<not> fileInsertionMutex c' \<and>
      cache_view c' name = (if first_error msgs = None then Some (newFile now name sz) else None) \<and>
      content fs' name = (if first_error msgs = None then Some (concat (map Body msgs)) else None) \<and>
      (\<forall>n f. cache_view c n = Some f \<longrightarrow> \<not> expired now ttl f \<longrightarrow>
         cache_view c' n = Some f \<and> content fs' n = content fs n))"
proof -
  let ?c = "c\<lparr>fileInsertionMutex := True\<rparr>"
  from deleteExpiredFiles_cleaned [of ?c now ttl fs] inv unl
  obtain c1 fs1 where del: "deleteExpiredFiles now ttl ?c fs = Done (c1, fs1)"
    and cl: "cleaned now ttl ?c fs c1 fs1"
    by (auto simp: returns_iff)
  have free: "freeSpaceForInsert insertionSort statfs now ttl sz ?c fs = Done (None, c1, fs1)"
    using del room [of fs1] by (simp add: freeSpaceForInsert_def Let_def)
  have faults: "same_faults fs fs1" using del by (rule deleteExpiredFiles_faults)
  have c1: "cache_inv c1" "\<not> cacheMutex c1" using cl by (simp_all add: cleaned_def)
  have none: "cache_view c1 name = None"
    using cleaned_view(1) [OF _ cl, of name] inv new by (cases "cache_view c1 name") auto
  then have none': "fmlookup (cachingMap c1) name = None" by (simp add: cache_view_def)
  have absent: "fmlookup (cachingMap c) name = None" using new by (simp add: cache_view_def)
  have fresh: "cache_view c1 n = Some f \<and> content fs1 n = content fs n \<and> n \<noteq> name"
    if "cache_view c n = Some f" "\<not> expired now ttl f" for n f
    using cleaned_view(2) [OF _ cl, of n f] inv that new by auto
  have ok: "os_create name fs1 \<noteq> None" "\<not> lockFault fs1 name" "\<not> removeFault fs1 name"
    "\<And>k. \<not> writeFault fs1 name k"
    using faults os by (auto simp: same_faults_def os_create_def split: if_splits)
  obtain fs2 where wr: "writeChunksInCache name True msgs fs1 = Done (first_error msgs, [first_error msgs], fs2)"
    and ct: "content fs2 = (content fs1)(name := (if first_error msgs = None
      then Some (concat (map Body msgs)) else None))"
    using writeChunksInCache_closed [OF msgs ok] by blast
  show ?thesis
  proof (cases "first_error msgs")
    case None
    obtain c2 where ins: "insertFileInQueue now name sz 1 c1 = Done c2"
      and c2: "cache_inv c2" "\<not> cacheMutex c2"
        "cache_view c2 = (cache_view c1)(name \<mapsto> newFile now name sz)"
      using insertFileInQueue_new [OF c1 none', of now sz 1] by (auto simp: returns_iff)
    have "InsertFileInCache insertionSort statfs now ttl True msgs name sz c fs =
        Done ([None], c2\<lparr>fileInsertionMutex := False\<rparr>, fs2)"
      using absent unl free wr ins None by (simp add: InsertFileInCache_def)
    with c2 ct None fresh show ?thesis by auto
  next
    case (Some e)
    have "InsertFileInCache insertionSort statfs now ttl True msgs name sz c fs =
        Done ([Some e], c1\<lparr>fileInsertionMutex := False\<rparr>, fs2)"
      using absent unl free wr Some by (simp add: InsertFileInCache_def)
    with c1 none ct Some fresh show ?thesis by auto
  qed
qed

text \<open>C7: inserting a file that fits stores exactly the bytes the sender wrote under its name, with
  the announced size, and reports success; an error announced by the sender leaves neither an entry
  nor a file behind and is reported back; files that have not expired stay as they were.\<close>

theorem InsertFileInCache_stores:
  assumes inv: "cache_inv c" and unl: "\<not> cacheMutex c" "\<not> fileInsertionMutex c"
    and new: "cache_view c name = None" and msgs: "msgs \<noteq> []"
    and room: "\<And>fs'. sz \<le> retrieveFreeMemorySize (statfs fs')"
    and os: "\<not> createFault fs name" "map_of (entries fs) name \<noteq> Some Directory"
      "\<not> lockFault fs name" "\<not> removeFault fs name" "\<And>k. \<not> writeFault fs name k"
  shows "returns (InsertFileInCache insertionSort statfs now ttl True msgs name sz c fs)
    (\<lambda>(rets, c', fs'). rets = [first_error msgs] \<and>
      cache_inv c' \<and> \<not> cacheMutex c' \<and> \<not> fileInsertionMutex c' \<and>
      cache_view c' name = (if first_error msgs = None then Some (newFile now name sz) else None) \<and>
      content fs' name = (if first_error msgs = None then Some (concat (map Body msgs)) else None) \<and>
      (\<forall>n f. cache_view c n = Some f \<longrightarrow> \<not> expired now ttl f \<longrightarrow>
         cache_view c' n = Some f \<and> content fs' n = content fs n))"
  using InsertFileInCache_stored [OF assms] .

theorem InsertFileInCache_stores_witness:
  "returns (InsertFileInCache insertionSort (\<lambda>_. Some (10, 4096)) 0 180 True
      [dataMessage [1, 2], dataMessage [3]] ''x'' 3 selfCache (plain_disk []))
    (\<lambda>(rets, c', fs'). rets = [None] \<and> cache_view c' ''x'' = Some (newFile 0 ''x'' 3) \<and>
      content fs' ''x'' = Some [1, 2, 3])"
proof -
  have room: "3 \<le> retrieveFreeMemorySize (Some (10, 4096))"
    by (simp add: retrieveFreeMemorySize_def wrap64_def)
  have "cache_view selfCache ''x'' = None" by (simp add: selfCache_def cache_view_def)
  then have "returns (InsertFileInCache insertionSort (\<lambda>_. Some (10, 4096)) 0 180 True
      [dataMessage [1, 2], dataMessage [3]] ''x'' 3 selfCache (plain_disk []))
    (\<lambda>(rets, c', fs'). rets = [first_error [dataMessage [1, 2], dataMessage [3]]] \<and>
      cache_inv c' \<and> \<not> cacheMutex c' \<and> \<not> fileInsertionMutex c' \<and>
      cache_view c' ''x'' = (if first_error [dataMessage [1, 2], dataMessage [3]] = None
        then Some (newFile 0 ''x'' 3) else None) \<and>
      content fs' ''x'' = (if first_error [dataMessage [1, 2], dataMessage [3]] = None
        then Some (concat (map Body [dataMessage [1, 2], dataMessage [3]])) else None) \<and>
      (\<forall>n f. cache_view selfCache n = Some f \<longrightarrow> \<not> expired 0 180 f \<longrightarrow>
         cache_view c' n = Some f \<and> content fs' n = content (plain_disk []) n))"
    using room
      cache_inv_self
    by (intro InsertFileInCache_stores) (simp_all add: selfCache_def plain_disk_def)
  then show ?thesis by (auto simp: returns_iff)
qed

section \<open>Properties of eviction\<close>

lemma selectLoop_below:
  assumes "\<forall>p\<in>set queue. 0 \<le> sz p" and "0 \<le> cnt" and "cnt + sum_list (map sz queue) < 2 ^ 63"
    and "snd (selectLoop sz required queue cnt sel) = sel @ take k queue" and "k \<le> length queue"
    and "0 < j" and "j < k"
  shows "cnt + sum_list (map sz (take j queue)) < required"
  using assms
proof (induction queue arbitrary: cnt sel k j)
  case Nil
  then show ?case by simp
next
  case (Cons p ps)
  have "0 \<le> sum_list (map sz ps)" using Cons.prems(1) by (intro sum_list_nonneg_le) simp
  then have w: "wrap64 (cnt + sz p) = cnt + sz p"
    using Cons.prems(1-3) by (intro wrap64_id) auto
  have less: "cnt + sz p < required"
  proof (rule ccontr)
    assume "\<not> cnt + sz p < required"
    then have "sel @ [p] = sel @ take k (p # ps)" using Cons.prems(4) by (simp add: Let_def w)
    then have "length (take k (p # ps)) = length [p]" by (metis same_append_eq)
    with Cons.prems(5-7) show False by simp
  qed
  obtain k' where k': "k = Suc k'" using Cons.prems(7) by (cases k) auto
  have step: "snd (selectLoop sz required ps (cnt + sz p) (sel @ [p])) = (sel @ [p]) @ take k' ps"
    using Cons.prems(4) less k' by (simp add: Let_def w)
  show ?case
  proof (cases "j = 1")
    case True
    with less show ?thesis by simp
  next
    case False
    obtain j' where j': "j = Suc j'" using Cons.prems(6) by (cases j) auto
    have "cnt + sz p + sum_list (map sz (take j' ps)) < required"
      using Cons.IH [OF _ _ _ step, of j'] Cons.prems k' j' False by simp
    then show ?thesis by (simp add: j')
  qed
qed

text \<open>The first selection of the eviction is the shortest non-empty prefix of the queue whose
  total size reaches the space required, or the whole queue when nothing reaches it, and its size
  is counted without overflow.\<close>

theorem selectLoop_shortest_prefix:
  assumes "\<forall>p\<in>set queue. 0 \<le> sz p" and "sum_list (map sz queue) < 2 ^ 63"
  shows "\<exists>k \<le> length queue. selectLoop sz required queue 0 [] = (sum_list (map sz (take k queue)), take k queue) \<and>
    (k < length queue \<longrightarrow> required \<le> sum_list (map sz (take k queue))) \<and>
    (\<forall>j. 0 < j \<and> j < k \<longrightarrow> sum_list (map sz (take j queue)) < required)"
proof -
  obtain k where k: "k \<le> length queue" "snd (selectLoop sz required queue 0 []) = [] @ take k queue"
    using selectLoop_prefix [of queue sz required 0 "[]"] by auto
  have cnt: "fst (selectLoop sz required queue 0 []) = sum_list (map sz (take k queue))"
    and full: "required \<le> fst (selectLoop sz required queue 0 []) \<or> take k queue = queue"
    using selectLoop_count [of queue sz 0 required "[]"] assms k by auto
  have "\<forall>j. 0 < j \<and> j < k \<longrightarrow> sum_list (map sz (take j queue)) < required"
    using selectLoop_below [OF assms(1) _ _ k(2) k(1)] assms(2) by simp
  with k cnt full show ?thesis
    by (intro exI [of _ k]) (auto simp: prod_eq_iff dest: arg_cong [of _ _ length])
qed

theorem selectLoop_shortest_prefix_witness:
  "\<exists>k \<le> 3. selectLoop (\<lambda>p. [6, 3, 5] ! p) 8 [0, 1, 2] 0 [] =
    (sum_list (map (\<lambda>p. [6, 3, 5] ! p) (take k [0, 1, 2])), take k [0, 1, 2])"
  using selectLoop_shortest_prefix [of "[0, 1, 2]" "\<lambda>p. [6, 3, 5] ! p" 8]
  by (fastforce simp: numeral_3_eq_3)

text \<open>The second pass of the eviction never takes the first file of the queue, so the least
  popular file always stays; when that file alone is large enough nothing is deleted at all.\<close>

theorem filesToDelete_spares_head:
  assumes "distinct (p # ps)"
  shows "p \<notin> set (filesToDelete sz required (p # ps)) \<and>
    (required \<le> wrap64 (sz p) \<longrightarrow> filesToDelete sz required (p # ps) = [])"
proof -
  have "p \<notin> set (filesToDelete sz required (p # ps))"
    using assms filesToDelete_tail [of sz required "p # ps"] by auto
  moreover have "filesToDelete sz required (p # ps) = []" if "required \<le> wrap64 (sz p)"
    using that by (simp add: filesToDelete_def)
  ultimately show ?thesis by blast
qed

theorem filesToDelete_spares_head_witness:
  "0 \<notin> set (filesToDelete (\<lambda>p. [6, 3, 5] ! p) 10 [0, 1, 2])"
  using filesToDelete_spares_head [of 0 "[1, 2]" "\<lambda>p. [6, 3, 5] ! p" 10] by simp

text \<open>The files chosen for deletion need not free the space that was asked for, even when the
  queue holds more than enough.\<close>

theorem filesToDelete_shortfall:
  "let sz = (\<lambda>p. [6, 3, 5] ! p); queue = [0, 1, 2]
   in 10 \<le> sum_list (map sz queue) \<and> filesToDelete sz 10 queue = [2] \<and>
      sum_list (map sz (filesToDelete sz 10 queue)) < 10"
  by (simp add: filesToDelete_def Let_def wrap64_def)

text \<open>C6: eviction holds the cache mutex while it removes files and the removal takes the same mutex
  again: it waits for ever exactly when one of the chosen files can be removed, and when it does
  return the queue and the map are unchanged.\<close>

theorem chooseAndDeleteFiles_self_deadlock:
  assumes "\<not> cacheMutex c"
  shows "(chooseAndDeleteFiles now required c fs = Blocked \<longleftrightarrow>
      (\<exists>p\<in>set (filesToDelete (\<lambda>p. fileSize (file_at c p)) required (elems (cachingList c))).
         removable fs (fileName (file_at c p)))) \<and>
    (\<forall>e c' fs'. chooseAndDeleteFiles now required c fs = Done (e, c', fs') \<longrightarrow> c' = c)"
  using chooseAndDeleteFiles_outcome [OF assms, of required fs now] by (auto split: if_splits)

definition threeFiles :: "File list" where
  "threeFiles = map (\<lambda>(n, s). \<lparr>fileName = n, fileSize = s, timestamp = 0, popularity = 1\<rparr>)
     [(''a'', 6), (''b'', 3), (''c'', 5)]"

theorem chooseAndDeleteFiles_self_deadlock_witness:
  "chooseAndDeleteFiles 0 10 (cache_of threeFiles)
     (plain_disk [(''a'', Regular []), (''b'', Regular []), (''c'', Regular [])]) = Blocked"
proof -
  let ?sz = "\<lambda>p. fileSize (file_at (cache_of threeFiles) p)"
  have "filesToDelete ?sz 10 (elems (cachingList (cache_of threeFiles))) = [2]"
    by (simp add: filesToDelete_def Let_def file_at_def threeFiles_def wrap64_def numeral_2_eq_2)
  moreover have "fileName (file_at (cache_of threeFiles) 2) = ''c''"
    by (simp add: file_at_def threeFiles_def)
  moreover have "removable (plain_disk [(''a'', Regular []), (''b'', Regular []), (''c'', Regular [])]) ''c''"
    by (simp add: removable_def plain_disk_def on_disk_def)
  ultimately show ?thesis
    using chooseAndDeleteFiles_self_deadlock [of "cache_of threeFiles" 0 10
        "plain_disk [(''a'', Regular []), (''b'', Regular []), (''c'', Regular [])]"]
    by simp
qed

text \<open>Whenever making room returns, the cache has lost nothing but expired files, whatever space
  was asked for.\<close>

theorem freeSpaceForInsert_only_expired:
  assumes inv: "cache_inv c" and unl: "\<not> cacheMutex c"
    and run: "freeSpaceForInsert insertionSort statfs now ttl sz c fs = Done (err, c', fs')"
  shows "cache_inv c' \<and> \<not> cacheMutex c' \<and>
    (\<forall>n f. cache_view c n = Some f \<and> \<not> expired now ttl f \<longrightarrow> cache_view c' n = Some f)"
proof -
  obtain c1 fs1 where cl: "cleaned now ttl c fs c1 fs1" and c': "c' = c1 \<or> c' = sortQueue insertionSort c1"
    using bypop.freeSpaceForInsert_cleaned [OF inv unl run] by blast
  have "cache_inv c1" "\<not> cacheMutex c1" using cl by (simp_all add: cleaned_def)
  with c' have "cache_inv c'" "\<not> cacheMutex c'" "cache_view c' = cache_view c1"
    using bypop.sortQueue_inv bypop.sortQueue_fields by auto
  with cleaned_view(2) [OF inv cl] show ?thesis by metis
qed

theorem freeSpaceForInsert_only_expired_witness:
  "freeSpaceForInsert insertionSort (\<lambda>_. Some (1, 4096)) 0 180 10 (cache_of threeFiles) (plain_disk []) =
     Done (None, cache_of threeFiles, plain_disk []) \<and>
   cache_view (cache_of threeFiles) ''b'' \<noteq> None"
proof -
  have inv: "cache_inv (cache_of threeFiles)"
    by (rule cache_inv_cache_of) (simp add: threeFiles_def)
  have unl: "\<not> cacheMutex (cache_of threeFiles)" by simp
  have run: "freeSpaceForInsert insertionSort (\<lambda>_. Some (1, 4096)) 0 180 10 (cache_of threeFiles) (plain_disk []) =
     Done (None, cache_of threeFiles, plain_disk [])"
    by (simp add: freeSpaceForInsert_def deleteExpiredFiles_def expired_def file_at_def threeFiles_def
        retrieveFreeMemorySize_def wrap64_def Let_def)
  have "cache_view (cache_of threeFiles) ''b'' = Some (threeFiles ! 1) \<and> \<not> expired 0 180 (threeFiles ! 1)"
    by (simp add: cache_view_cache_of threeFiles_def expired_def wrap64_def)
  with freeSpaceForInsert_only_expired [OF inv unl run] run show ?thesis by auto
qed

text \<open>Sorting the queue keeps the invariant and puts the descriptors in the order of their
  popularity, so that eviction starts from the least popular file.\<close>

theorem sortQueue_least_popular_first:
  assumes inv: "cache_inv c" and "i < j" and "j < length (elems (cachingList c))"
  shows "cache_inv (sortQueue insertionSort c) \<and>
    popularity (file_at c (elems (cachingList (sortQueue insertionSort c)) ! i)) \<le>
    popularity (file_at c (elems (cachingList (sortQueue insertionSort c)) ! j))"
proof -
  have ok: "slice_ok (cachingList c)" using inv by blast
  have "length (elems (cachingList (sortQueue insertionSort c))) = length (elems (cachingList c))"
    using bypop.elems_sortQueue [OF ok] bypop.sorter_mset by (metis mset_eq_length)
  with assms(2,3) bypop.least_popular_first [OF ok] bypop.sortQueue_inv [OF inv] show ?thesis by simp
qed

theorem sortQueue_least_popular_first_witness:
  "popularity (file_at (cache_of [oldFile, freshFile])
      (elems (cachingList (sortQueue insertionSort (cache_of [oldFile, freshFile]))) ! 0)) \<le>
   popularity (file_at (cache_of [oldFile, freshFile])
      (elems (cachingList (sortQueue insertionSort (cache_of [oldFile, freshFile]))) ! 1))"
proof -
  have "cache_inv (cache_of [oldFile, freshFile])"
    by (rule cache_inv_cache_of) (simp add: oldFile_def freshFile_def)
  from sortQueue_least_popular_first [OF this, of 0 1] show ?thesis by simp
qed

end
