(* ===== verification/FileStore.thy ===== *)
theory FileStore
  imports CacheEviction
begin

text \<open>
  What the handlers of an edge use of its cache, as an interface: a store of files by name with an
  insertion that takes the messages of a channel and a removal. The cache of
  \<^verbatim>\<open>edge/cache/cache.go\<close> together with its directory provides it, as long as there is room, no cached
  file has expired and the system calls succeed.
\<close>

section \<open>The interface\<close>

datatype storeOp = Put string int "Message list" | Remove string

text \<open>The abstract store: a map from names to contents.\<close>

fun specOp :: "storeOp \<Rightarrow> (string \<rightharpoonup> bytes) \<Rightarrow> (string \<rightharpoonup> bytes)" where
  "specOp (Put n sz msgs) m =
     (if m n = None \<and> first_error msgs = None then m(n \<mapsto> concat (map Body msgs)) else m)"
| "specOp (Remove n) m = m(n := None)"

definition specRun :: "storeOp list \<Rightarrow> (string \<rightharpoonup> bytes) \<Rightarrow> (string \<rightharpoonup> bytes)" where
  "specRun ops m = fold specOp ops m"

text \<open>An operation the store promises something about: a file that fits, of at least one message.\<close>

fun admissible :: "(int \<Rightarrow> bool) \<Rightarrow> storeOp \<Rightarrow> bool" where
  "admissible fits (Put n sz msgs) \<longleftrightarrow> fits sz \<and> msgs \<noteq> []"
| "admissible fits (Remove n) \<longleftrightarrow> True"

fun opName :: "storeOp \<Rightarrow> string" where
  "opName (Put n sz msgs) = n"
| "opName (Remove n) = n"

text \<open>Operations on a state, one after the other, each of which may block or panic.\<close>

fun runOp :: "(string \<Rightarrow> int \<Rightarrow> Message list \<Rightarrow> 's \<Rightarrow> 's outcome) \<Rightarrow> (string \<Rightarrow> 's \<Rightarrow> 's outcome) \<Rightarrow>
    storeOp \<Rightarrow> 's \<Rightarrow> 's outcome" where
  "runOp put remove (Put n sz msgs) s = put n sz msgs s"
| "runOp put remove (Remove n) s = remove n s"

fun runOps :: "(string \<Rightarrow> int \<Rightarrow> Message list \<Rightarrow> 's \<Rightarrow> 's outcome) \<Rightarrow> (string \<Rightarrow> 's \<Rightarrow> 's outcome) \<Rightarrow>
    storeOp list \<Rightarrow> 's \<Rightarrow> 's outcome" where
  "runOps put remove [] s = Done s"
| "runOps put remove (x # xs) s = and_then (runOp put remove x s) (runOps put remove xs)"

lemma specRun_simps [simp]:
  "specRun [] m = m"
  "specRun (x # xs) m = specRun xs (specOp x m)"
  by (simp_all add: specRun_def)

lemma specOp_other: "opName x \<noteq> n \<Longrightarrow> specOp x m n = m n"
  by (cases x) auto

lemma specRun_other: "list_all (\<lambda>x. opName x \<noteq> n) xs \<Longrightarrow> specRun xs m n = m n"
  by (induction xs arbitrary: m) (simp_all add: specOp_other)

locale file_store =
  fixes inv :: "'s \<Rightarrow> bool"
    and view :: "'s \<Rightarrow> string \<Rightarrow> bytes option"
    and fits :: "int \<Rightarrow> bool"
    and put :: "string \<Rightarrow> int \<Rightarrow> Message list \<Rightarrow> 's \<Rightarrow> 's outcome"
    and remove :: "string \<Rightarrow> 's \<Rightarrow> 's outcome"
  assumes put_new: "inv s \<Longrightarrow> view s n = None \<Longrightarrow> fits sz \<Longrightarrow> msgs \<noteq> [] \<Longrightarrow>
      returns (put n sz msgs s) (\<lambda>s'. inv s' \<and> view s' = (view s)(n :=
        if first_error msgs = None then Some (concat (map Body msgs)) else None))"
    and put_old: "inv s \<Longrightarrow> view s n \<noteq> None \<Longrightarrow> put n sz msgs s = Done s"
    and remove: "inv s \<Longrightarrow> returns (remove n s) (\<lambda>s'. inv s' \<and> view s' = (view s)(n := None))"
begin

lemma runOp_refines:
  assumes "inv s" and "admissible fits x"
  shows "returns (runOp put remove x s) (\<lambda>s'. inv s' \<and> view s' = specOp x (view s))"
proof (cases x)
  case (Put n sz msgs)
  show ?thesis
  proof (cases "view s n")
    case None
    then have "(view s)(n := None) = view s" by auto
    with None assms Put show ?thesis
      by (auto intro!: returns_mono [OF put_new])
  next
    case (Some b)
    with assms Put show ?thesis by (simp add: put_old)
  qed
next
  case (Remove n)
  with assms remove show ?thesis by simp
qed

lemma runOps_refine:
  "inv s \<Longrightarrow> list_all (admissible fits) xs \<Longrightarrow>
     returns (runOps put remove xs s) (\<lambda>s'. inv s' \<and> view s' = specRun xs (view s))"
proof (induction xs arbitrary: s)
  case Nil
  then show ?case by simp
next
  case (Cons x xs)
  have step: "returns (runOp put remove x s) (\<lambda>s'. inv s' \<and> view s' = specOp x (view s))"
    using runOp_refines Cons.prems by simp
  show ?case unfolding runOps.simps specRun_simps
  proof (rule returns_and_then [OF step])
    fix s1
    assume s1: "inv s1 \<and> view s1 = specOp x (view s)"
    then show "returns (runOps put remove xs s1) (\<lambda>s'. inv s' \<and> view s' = specRun xs (specOp x (view s)))"
      using Cons.IH [of s1] Cons.prems(2) by simp
  qed
qed

text \<open>What was put is there until it is removed, whatever happens to other names.\<close>

lemma put_persists:
  assumes "inv s" and "view s n = None" and "fits sz" and "msgs \<noteq> []" and "first_error msgs = None"
    and "list_all (admissible fits) xs" and "list_all (\<lambda>x. opName x \<noteq> n) xs"
  shows "returns (runOps put remove (Put n sz msgs # xs) s)
    (\<lambda>s'. inv s' \<and> view s' n = Some (concat (map Body msgs)))"
proof -
  have "list_all (admissible fits) (Put n sz msgs # xs)" using assms(3,4,6) by simp
  from runOps_refine [OF assms(1) this] show ?thesis
    by (rule returns_mono) (simp add: specRun_other [OF assms(7)] assms(2,5))
qed

end

section \<open>The cache as a store\<close>

definition cachePut ::
  "((ptr \<Rightarrow> ptr \<Rightarrow> bool) \<Rightarrow> ptr list \<Rightarrow> ptr list) \<Rightarrow> (filesystem \<Rightarrow> (int \<times> int) option) \<Rightarrow> int \<Rightarrow> int \<Rightarrow>
   bool \<Rightarrow> string \<Rightarrow> int \<Rightarrow> Message list \<Rightarrow> Cache \<times> filesystem \<Rightarrow> (Cache \<times> filesystem) outcome" where
  "cachePut sorter statfs now ttl closes name sz msgs s =
     and_then (InsertFileInCache sorter statfs now ttl closes msgs name sz (fst s) (snd s))
       (\<lambda>(rets, c, fs). Done (c, fs))"

definition cacheRemove :: "int \<Rightarrow> string \<Rightarrow> Cache \<times> filesystem \<Rightarrow> (Cache \<times> filesystem) outcome" where
  "cacheRemove now name s =
     and_then (IsFileInCache name (fst s)) (\<lambda>(found, c).
       if found then RemoveFileFromCache now name c (snd s) else Done (c, snd s))"

definition storeView :: "Cache \<times> filesystem \<Rightarrow> string \<Rightarrow> bytes option" where
  "storeView s n = (if cache_view (fst s) n = None then None else content (snd s) n)"

definition faultless :: "filesystem \<Rightarrow> bool" where
  "faultless fs \<longleftrightarrow> (\<forall>n. \<not> openFault fs n \<and> \<not> createFault fs n \<and> \<not> lockFault fs n \<and> \<not> removeFault fs n \<and>
     \<not> unlockFault fs n \<and> (\<forall>k. \<not> writeFault fs n k) \<and> map_of (entries fs) n \<noteq> Some Directory)"

definition storeInv :: "int \<Rightarrow> int \<Rightarrow> Cache \<times> filesystem \<Rightarrow> bool" where
  "storeInv now ttl s \<longleftrightarrow> 0 \<le> ttl \<and> ttl * 10 ^ 9 < 2 ^ 63 \<and>
     cache_inv (fst s) \<and> \<not> cacheMutex (fst s) \<and> \<not> fileInsertionMutex (fst s) \<and> faultless (snd s) \<and>
     (\<forall>n f. cache_view (fst s) n = Some f \<longrightarrow> \<not> expired now ttl f \<and> content (snd s) n \<noteq> None)"

definition storeFits :: "(filesystem \<Rightarrow> (int \<times> int) option) \<Rightarrow> int \<Rightarrow> bool" where
  "storeFits statfs sz \<longleftrightarrow> (\<forall>fs. sz \<le> retrieveFreeMemorySize (statfs fs))"

lemma faultless_same: "faultless fs \<Longrightarrow> same_faults fs fs' \<Longrightarrow> faultless fs'"
  unfolding faultless_def same_faults_def by metis

lemma same_faults_write: "same_faults fs (os_write name b fs)"
  by (auto simp: same_faults_def os_write_def update_conv' split: option.splits inode.splits if_splits)

lemma same_faults_os_remove: "same_faults fs (os_remove name fs)"
  by (auto simp: same_faults_def os_remove_def delete_conv' split: if_splits)

lemma same_faults_create: "os_create name fs = Some fs' \<Longrightarrow> same_faults fs fs'"
  by (auto simp: same_faults_def os_create_def update_conv' split: if_splits)

lemma writeLoop_faults: "writeLoop name closes msgs n fs = Done (err, rets, fs') \<Longrightarrow> same_faults fs fs'"
proof (induction msgs arbitrary: n fs)
  case Nil
  then show ?case by (simp split: if_splits)
next
  case (Cons m ms)
  show ?case
  proof (cases "Err m = None \<and> \<not> writeFault fs name n")
    case True
    with Cons.prems have "writeLoop name closes ms (Suc n) (os_write name (Body m) fs) = Done (err, rets, fs')" by simp
    from same_faults_trans [OF same_faults_write Cons.IH [OF this]] show ?thesis .
  next
    case False
    with Cons.prems have "fs' = os_remove name fs" by (auto split: option.splits if_splits)
    then show ?thesis by (simp add: same_faults_os_remove)
  qed
qed

lemma writeChunksInCache_faults:
  assumes "writeChunksInCache name closes msgs fs = Done (err, rets, fs')"
  shows "same_faults fs fs'"
proof (cases "msgs = [] \<or> os_create name fs = None")
  case True
  with assms show ?thesis by (auto simp: writeChunksInCache_def split: list.splits if_splits)
next
  case False
  then obtain fs1 where fs1: "os_create name fs = Some fs1" by auto
  have "same_faults fs1 fs'"
  proof (cases "lockFault fs1 name")
    case True
    with assms False fs1 show ?thesis by (cases msgs) (auto simp: writeChunksInCache_def)
  next
    case unlocked: False
    with assms False fs1 have "writeLoop name closes msgs 0 fs1 = Done (err, rets, fs')"
      by (cases msgs) (simp_all add: writeChunksInCache_def del: writeLoop.simps)
    then show ?thesis by (rule writeLoop_faults)
  qed
  with same_faults_create [OF fs1] show ?thesis by (rule same_faults_trans)
qed

lemma cleaningLoop_idle:
  "list_all (\<lambda>i. \<not> expired now ttl (file_at c (cells (cachingList c) ! i))) js \<Longrightarrow>
     cleaningLoop now ttl js c fs = Done (c, fs)"
  by (induction js) (simp_all add: Let_def)

lemma deleteExpiredFiles_idle:
  assumes inv: "cache_inv c" and "\<And>n f. cache_view c n = Some f \<Longrightarrow> \<not> expired now ttl f"
  shows "deleteExpiredFiles now ttl c fs = Done (c, fs)"
proof -
  have "\<not> expired now ttl (file_at c (cells (cachingList c) ! i))" if "i < slen (cachingList c)" for i
  proof -
    have "slice_ok (cachingList c)" using inv by (rule cache_inv_slice)
    with that have "cells (cachingList c) ! i \<in> set (elems (cachingList c))"
      by (auto simp: elems_def slice_ok_def in_set_conv_nth intro!: exI [of _ i])
    from cache_inv_mapped [OF inv this] assms(2) show ?thesis by (auto simp: cache_view_def)
  qed
  then show ?thesis by (simp add: deleteExpiredFiles_def cleaningLoop_idle list_all_iff)
qed

lemma storeView_None:
  assumes "storeInv now ttl s"
  shows "storeView s n = None \<longleftrightarrow> fmlookup (cachingMap (fst s)) n = None"
proof (cases "fmlookup (cachingMap (fst s)) n")
  case None
  then show ?thesis by (simp add: storeView_def cache_view_def)
next
  case (Some p)
  then have "cache_view (fst s) n = Some (file_at (fst s) p)" by (simp add: cache_view_def)
  with assms Some show ?thesis unfolding storeInv_def storeView_def by auto
qed

lemma cachePut_old:
  "storeInv now ttl s \<Longrightarrow> storeView s n \<noteq> None \<Longrightarrow> cachePut sorter statfs now ttl closes n sz msgs s = Done s"
  by (simp add: storeView_None cachePut_def InsertFileInCache_def)

lemma newFile_fresh: "0 \<le> ttl \<Longrightarrow> ttl * 10 ^ 9 < 2 ^ 63 \<Longrightarrow> \<not> expired now ttl (newFile now n sz)"
  by (simp add: expired_def newFile_def wrap64_id)

lemma cachePut_new:
  assumes inv: "storeInv now ttl s" and new: "storeView s n = None" and fits: "storeFits statfs sz" and msgs: "msgs \<noteq> []"
  shows "returns (cachePut sorter statfs now ttl True n sz msgs s) (\<lambda>s'. storeInv now ttl s' \<and>
    storeView s' = (storeView s)(n := if first_error msgs = None then Some (concat (map Body msgs)) else None))"
proof -
  obtain c fs where s: "s = (c, fs)" by (cases s)
  let ?c = "c\<lparr>fileInsertionMutex := True\<rparr>"
  have c: "cache_inv c" "\<not> cacheMutex c" "\<not> fileInsertionMutex c" and ok: "faultless fs"
    and ttl: "0 \<le> ttl" "ttl * 10 ^ 9 < 2 ^ 63"
    and files: "\<And>m f. cache_view c m = Some f \<Longrightarrow> \<not> expired now ttl f \<and> content fs m \<noteq> None"
    using inv by (auto simp: storeInv_def s)
  have absent: "fmlookup (cachingMap c) n = None" using storeView_None [OF inv] new by (simp add: s)
  have "deleteExpiredFiles now ttl ?c fs = Done (?c, fs)"
    using files by (intro deleteExpiredFiles_idle) (simp_all add: c)
  then have free: "freeSpaceForInsert sorter statfs now ttl sz ?c fs = Done (None, ?c, fs)"
    using fits [unfolded storeFits_def, rule_format, of fs] by (simp add: freeSpaceForInsert_def Let_def)
  have io: "os_create n fs \<noteq> None" "\<not> lockFault fs n" "\<not> removeFault fs n" "\<And>k. \<not> writeFault fs n k"
    using ok by (simp_all add: faultless_def os_create_def)
  obtain fs2 where wr: "writeChunksInCache n True msgs fs = Done (first_error msgs, [first_error msgs], fs2)"
    and ct: "content fs2 = (content fs)(n := (if first_error msgs = None then Some (concat (map Body msgs)) else None))"
    using writeChunksInCache_closed [OF msgs io] by blast
  have ok2: "faultless fs2" using ok writeChunksInCache_faults [OF wr] by (rule faultless_same)
  have run: "cachePut sorter statfs now ttl True n sz msgs s =
      (if first_error msgs \<noteq> None then Done (?c\<lparr>fileInsertionMutex := False\<rparr>, fs2)
       else and_then (insertFileInQueue now n sz 1 ?c) (\<lambda>c2. Done (c2\<lparr>fileInsertionMutex := False\<rparr>, fs2)))"
    using absent c(3) free wr by (simp add: s cachePut_def InsertFileInCache_def and_then_assoc)
  show ?thesis
  proof (cases "first_error msgs = None")
    case False
    with run c ok2 ttl files ct absent show ?thesis
      by (auto simp: s storeInv_def storeView_def cache_view_def fun_eq_iff)
  next
    case True
    obtain c2 where ins: "insertFileInQueue now n sz 1 ?c = Done c2"
      and c2: "cache_inv c2" "\<not> cacheMutex c2" "cache_view c2 = (cache_view c)(n \<mapsto> newFile now n sz)"
      using insertFileInQueue_new [of ?c n now sz 1] c absent by (auto simp: returns_iff)
    with run True ok2 ttl files ct newFile_fresh [OF ttl, of now n sz] show ?thesis
      by (auto simp: s storeInv_def storeView_def fun_eq_iff)
  qed
qed

lemma cacheRemove_effect:
  assumes inv: "storeInv now ttl s"
  shows "returns (cacheRemove now' n s) (\<lambda>s'. storeInv now ttl s' \<and> storeView s' = (storeView s)(n := None))"
proof -
  obtain c fs where s: "s = (c, fs)" by (cases s)
  have c: "cache_inv c" "\<not> cacheMutex c" "\<not> fileInsertionMutex c" and ok: "faultless fs"
    and ttl: "0 \<le> ttl" "ttl * 10 ^ 9 < 2 ^ 63"
    and files: "\<And>m f. cache_view c m = Some f \<Longrightarrow> \<not> expired now ttl f \<and> content fs m \<noteq> None"
    using inv by (auto simp: storeInv_def s)
  show ?thesis
  proof (cases "fmlookup (cachingMap c) n")
    case None
    then have "storeView s n = None" using storeView_None [OF inv] by (simp add: s)
    then have "(storeView s)(n := None) = storeView s" by auto
    with None inv show ?thesis by (simp add: cacheRemove_def s IsFileInCache_miss)
  next
    case (Some p)
    let ?c = "bump_popularity p c"
    have p: "p < length (heap c)" using cache_inv_lookup [OF c(1) Some] by simp
    have hit: "IsFileInCache n c = Done (True, ?c)" using c(2) Some by (rule IsFileInCache_hit)
    have "content fs n \<noteq> None" using files [of n] Some by (auto simp: cache_view_def)
    then have rm: "removable fs n" using ok by (auto simp: removable_def faultless_def content_on_disk)
    have some: "fmlookup (cachingMap ?c) n = Some p" by (simp add: Some)
    obtain c' fs' where run: "RemoveFileFromCache now' n ?c fs = Done (c', fs')"
      and c': "cache_inv c'" "\<not> cacheMutex c'" "\<not> fileInsertionMutex c'" "cache_view c' = (cache_view ?c)(n := None)"
      using RemoveFileFromCache_ok [of ?c fs n p now'] cache_inv_bump [OF c(1) p] c(2,3) some rm
      by (auto simp: returns_iff split: prod.splits if_splits)
    have fs': "fs' = os_remove n fs"
      using RemoveFileFromCache_disk [OF run] rm by (simp add: removeWithLocks_ok)
    have ct: "content fs' = (content fs)(n := None)" using rm by (simp add: fs' content_os_remove removable_def)
    have out: "cacheRemove now' n s = Done (c', fs')" using hit run by (simp add: cacheRemove_def s)
    have view: "cache_view c' m = (if m = n then None else cache_view c m)" for m
      by (auto simp: c'(4) cache_view_bump [OF c(1) Some])
    have "faultless fs'" unfolding fs' using faultless_same [OF ok same_faults_os_remove] .
    moreover have "\<not> expired now ttl f \<and> content fs' m \<noteq> None" if "cache_view c' m = Some f" for m f
      using that files [of m f] by (simp add: view ct split: if_splits)
    ultimately have "storeInv now ttl (c', fs')"
      using c'(1-3) ttl by (simp add: storeInv_def)
    moreover have "storeView (c', fs') = (storeView s)(n := None)"
      by (auto simp: storeView_def view ct s fun_eq_iff)
    ultimately show ?thesis by (simp add: out)
  qed
qed

interpretation cacheStore: file_store "storeInv now ttl" storeView "storeFits statfs"
    "cachePut sorter statfs now ttl True" "cacheRemove now"
  for now ttl statfs sorter
  by unfold_locales (simp_all add: cachePut_new cachePut_old cacheRemove_effect)

section \<open>Properties\<close>


lemma storeInv_empty: "0 \<le> ttl \<Longrightarrow> ttl * 10 ^ 9 < 2 ^ 63 \<Longrightarrow> storeInv now ttl (selfCache, plain_disk [])"
  using cache_inv_self by (simp add: storeInv_def faultless_def plain_disk_def cache_view_def selfCache_def)


end
