(* ===== verification/PeerNet.thy ===== *)
theory PeerNet
  imports Peers
begin

text \<open>
  An edge's view of its neighbours, \<^verbatim>\<open>edge/peer/network.go\<close>, \<^verbatim>\<open>peer_utils.go\<close> and the handlers of
  \<^verbatim>\<open>peer_services.go\<close> and \<^verbatim>\<open>peer.go\<close> that maintain it: the connections with their missed pings, the
  Bloom filters the neighbours sent, and the connection to the registry. An \<^verbatim>\<open>*rpc.Client\<close> is a
  reference into a list of open flags, so that a client that is closed is closed for every holder.
  Bloom filters are a type parameter \<open>'f\<close>.
\<close>

section \<open>State\<close>

type_synonym client = nat

record AdjConnection =
  peerConnection :: client
  missedPing :: int

record 'f AdjacentPeers =
  peerConns :: "(EdgePeer, AdjConnection) gomap"
  filterMap :: "(EdgePeer, 'f) gomap"
  clients :: "bool list"
  registryClient :: "client option"

definition adjacentsMap :: "'f AdjacentPeers" where
  "adjacentsMap = \<lparr>peerConns = fmempty, filterMap = fmempty, clients = [], registryClient = None\<rparr>"

definition isOpen :: "'f AdjacentPeers \<Rightarrow> client \<Rightarrow> bool" where
  "isOpen s c \<longleftrightarrow> c < length (clients s) \<and> clients s ! c"

definition closeClient :: "client \<Rightarrow> 'f AdjacentPeers \<Rightarrow> 'f AdjacentPeers" where
  "closeClient c s = s\<lparr>clients := (clients s)[c := False]\<rparr>"

text \<open>The outcome of waiting for a call: a reply, an error (also when the client is closed), or neither
  before the timeout.\<close>

datatype callResult = Replied | Failed | Expired

definition rpcCall :: "'f AdjacentPeers \<Rightarrow> client \<Rightarrow> callResult \<Rightarrow> callResult" where
  "rpcCall s c answer = (if isOpen s c then answer else Failed)"

definition ConnectToNode :: "(string \<Rightarrow> bool) \<Rightarrow> string \<Rightarrow> 'f AdjacentPeers \<Rightarrow> client option \<times> 'f AdjacentPeers" where
  "ConnectToNode dial addr s =
     (if dial addr then (Some (length (clients s)), s\<lparr>clients := clients s @ [True]\<rparr>) else (None, s))"

section \<open>Adding neighbours\<close>

definition connectAndAddNeighbour :: "(string \<Rightarrow> bool) \<Rightarrow> EdgePeer \<Rightarrow> 'f AdjacentPeers \<Rightarrow>
    client option \<times> 'f AdjacentPeers" where
  "connectAndAddNeighbour dial peer s =
     (case ConnectToNode dial (PeerAddr peer) s of
        (None, s1) \<Rightarrow> (None, s1)
      | (Some c, s1) \<Rightarrow>
          (Some c, s1\<lparr>peerConns := fmupd peer \<lparr>peerConnection = c, missedPing = 0\<rparr> (peerConns s1)\<rparr>))"

definition AddNeighbour :: "(string \<Rightarrow> bool) \<Rightarrow> EdgePeer \<Rightarrow> 'f AdjacentPeers \<Rightarrow> bool \<times> 'f AdjacentPeers" where
  "AddNeighbour dial peer s =
     (case connectAndAddNeighbour dial peer s of (c, s1) \<Rightarrow> (c \<noteq> None, s1))"

definition CallAdjAddNeighbour :: "callResult \<Rightarrow> client \<Rightarrow> 'f AdjacentPeers \<Rightarrow> bool" where
  "CallAdjAddNeighbour answer c s \<longleftrightarrow> rpcCall s c answer = Replied"

fun connectAndNotifyYourAdjacent :: "(string \<Rightarrow> bool) \<Rightarrow> (EdgePeer \<Rightarrow> callResult) \<Rightarrow> EdgePeer list \<Rightarrow>
    'f AdjacentPeers \<Rightarrow> 'f AdjacentPeers" where
  "connectAndNotifyYourAdjacent dial answer [] s = s"
| "connectAndNotifyYourAdjacent dial answer (adjPeer # adjs) s =
     (case connectAndAddNeighbour dial adjPeer s of
        (None, s1) \<Rightarrow> connectAndNotifyYourAdjacent dial answer adjs s1
      | (Some c, s1) \<Rightarrow>
          if CallAdjAddNeighbour (answer adjPeer) c s1
          then connectAndNotifyYourAdjacent dial answer adjs s1
          else connectAndNotifyYourAdjacent dial answer adjs (closeClient c s1))"

definition GetNeighbours :: "'f AdjacentPeers \<Rightarrow> EdgePeer fset" where
  "GetNeighbours s = fmdom (peerConns s)"

section \<open>Pings\<close>

definition removeBloomFilter :: "EdgePeer \<Rightarrow> 'f AdjacentPeers \<Rightarrow> 'f AdjacentPeers" where
  "removeBloomFilter adjPeer s = s\<lparr>filterMap := fmdrop adjPeer (filterMap s)\<rparr>"

definition timeoutAction :: "int \<Rightarrow> EdgePeer \<Rightarrow> 'f AdjacentPeers \<Rightarrow> 'f AdjacentPeers" where
  "timeoutAction maxMissedPing adjPeer s =
     (case fmlookup (peerConns s) adjPeer of
        None \<Rightarrow> s
      | Some conn \<Rightarrow>
          let connection = conn\<lparr>missedPing := wrap64 (missedPing conn + 1)\<rparr>;
              s1 = s\<lparr>peerConns := fmupd adjPeer connection (peerConns s)\<rparr>
          in if maxMissedPing \<le> missedPing connection
             then let s2 = closeClient (peerConnection connection) s1;
                      s3 = s2\<lparr>peerConns := fmdrop adjPeer (peerConns s2)\<rparr>
                  in removeBloomFilter adjPeer s3
             else s1)"

text \<open>One neighbour of the copied map: its connection as it was when the copy was made.\<close>

definition pingOne :: "int \<Rightarrow> (EdgePeer \<Rightarrow> callResult) \<Rightarrow> EdgePeer \<Rightarrow> AdjConnection \<Rightarrow>
    'f AdjacentPeers \<Rightarrow> 'f AdjacentPeers" where
  "pingOne maxMissedPing answer adjPeer adjConn s =
     (if rpcCall s (peerConnection adjConn) (answer adjPeer) = Replied
      then (case fmlookup (peerConns s) adjPeer of
          None \<Rightarrow> s
        | Some connection \<Rightarrow> s\<lparr>peerConns := fmupd adjPeer (connection\<lparr>missedPing := 0\<rparr>) (peerConns s)\<rparr>)
      else timeoutAction maxMissedPing adjPeer s)"

fun pingLoop :: "int \<Rightarrow> (EdgePeer \<Rightarrow> callResult) \<Rightarrow> (EdgePeer, AdjConnection) gomap \<Rightarrow> EdgePeer list \<Rightarrow>
    'f AdjacentPeers \<Rightarrow> 'f AdjacentPeers" where
  "pingLoop maxMissedPing answer copied [] s = s"
| "pingLoop maxMissedPing answer copied (p # ps) s =
     (case fmlookup copied p of
        None \<Rightarrow> pingLoop maxMissedPing answer copied ps s
      | Some adjConn \<Rightarrow> pingLoop maxMissedPing answer copied ps (pingOne maxMissedPing answer p adjConn s))"

definition pingFunction :: "int \<Rightarrow> (EdgePeer \<Rightarrow> callResult) \<Rightarrow> EdgePeer list \<Rightarrow> 'f AdjacentPeers \<Rightarrow> 'f AdjacentPeers" where
  "pingFunction maxMissedPing answer ks s = pingLoop maxMissedPing answer (peerConns s) ks s"

text \<open>The handler of a received ping.\<close>

definition Ping :: "(string \<Rightarrow> bool) \<Rightarrow> EdgePeer \<Rightarrow> 'f AdjacentPeers \<Rightarrow> bool \<times> 'f AdjacentPeers" where
  "Ping dial edgePeer s =
     (if fmlookup (peerConns s) edgePeer = None
      then (case ConnectToNode dial (PeerAddr edgePeer) s of
          (None, s1) \<Rightarrow> (False, s1)
        | (Some c, s1) \<Rightarrow>
            (True, s1\<lparr>peerConns := fmupd edgePeer \<lparr>peerConnection = c, missedPing = 0\<rparr> (peerConns s1)\<rparr>))
      else (True, s))"

section \<open>Bloom filters\<close>

definition NotifyBloomFilter :: "('b \<Rightarrow> 'f option) \<Rightarrow> EdgePeer \<Rightarrow> 'b \<Rightarrow> 'f AdjacentPeers \<Rightarrow> bool \<times> 'f AdjacentPeers" where
  "NotifyBloomFilter GobDecode edgePeer bloomFilter s =
     (case GobDecode bloomFilter of
        None \<Rightarrow> (False, s)
      | Some edgeFilter \<Rightarrow> (True, s\<lparr>filterMap := fmupd edgePeer edgeFilter (filterMap s)\<rparr>))"

text \<open>The peers the filter was sent to, and whether the loop came to its end.\<close>

fun notifyLoop :: "(EdgePeer \<Rightarrow> callResult) \<Rightarrow> EdgePeer list \<Rightarrow> 'f AdjacentPeers \<Rightarrow> bool \<times> EdgePeer list" where
  "notifyLoop answer [] s = (True, [])"
| "notifyLoop answer (p # ps) s =
     (case fmlookup (peerConns s) p of
        None \<Rightarrow> notifyLoop answer ps s
      | Some adjConn \<Rightarrow>
          if rpcCall s (peerConnection adjConn) (answer p) = Replied
          then (let (ok, sent) = notifyLoop answer ps s in (ok, p # sent))
          else (False, [p]))"

definition notifyBloomFiltersToAdjacents :: "('f \<Rightarrow> 'b option) \<Rightarrow> 'f \<Rightarrow> (EdgePeer \<Rightarrow> callResult) \<Rightarrow>
    EdgePeer list \<Rightarrow> 'f AdjacentPeers \<Rightarrow> bool \<times> EdgePeer list" where
  "notifyBloomFiltersToAdjacents GobEncode bloomFilter answer ks s =
     (if GobEncode bloomFilter = None then (False, []) else notifyLoop answer ks s)"

section \<open>The registry\<close>

text \<open>When the wait for the reply times out, the code prints the error of a call that has none yet:
  a method call on a nil error.\<close>

definition heartbeatFunction :: "(string \<Rightarrow> bool) \<Rightarrow> callResult \<Rightarrow> 'f AdjacentPeers \<Rightarrow> 'f AdjacentPeers outcome" where
  "heartbeatFunction dial answer s =
     (let (rc, s1) = (case registryClient s of
          Some c \<Rightarrow> (Some c, s)
        | None \<Rightarrow> (case ConnectToNode dial ''registry:1234'' s of
              (None, s1) \<Rightarrow> (None, s1)
            | (Some c, s1) \<Rightarrow> (Some c, s1\<lparr>registryClient := Some c\<rparr>)))
      in case rc of
        None \<Rightarrow> Done s1
      | Some c \<Rightarrow>
          (case rpcCall s1 c answer of
             Replied \<Rightarrow> Done s1
           | Failed \<Rightarrow> Done ((closeClient c s1)\<lparr>registryClient := None\<rparr>)
           | Expired \<Rightarrow> Panicked))"

text \<open>The loop retries the connection until it succeeds; the list holds the outcomes of the attempts.\<close>

fun EnsureConnectionToTarget :: "bool list \<Rightarrow> 'f AdjacentPeers \<Rightarrow> (client \<times> 'f AdjacentPeers) outcome" where
  "EnsureConnectionToTarget [] s = Blocked"
| "EnsureConnectionToTarget (ok # attempts) s =
     (case ConnectToNode (\<lambda>_. ok) [] s of
        (Some c, s1) \<Rightarrow> Done (c, s1)
      | (None, s1) \<Rightarrow> EnsureConnectionToTarget attempts s1)"

definition registerToRegistry :: "bool list \<Rightarrow> callResult \<Rightarrow> 'f AdjacentPeers \<Rightarrow> (client option \<times> 'f AdjacentPeers) outcome" where
  "registerToRegistry attempts answer s =
     and_then (EnsureConnectionToTarget attempts s) (\<lambda>(c, s1).
       Done (if rpcCall s1 c answer = Replied then Some c else None, s1))"

text \<open>Start-up: an error of the registration ends the program.\<close>

definition enterNetwork :: "bool list \<Rightarrow> callResult \<Rightarrow> (string \<Rightarrow> bool) \<Rightarrow> (EdgePeer \<Rightarrow> callResult) \<Rightarrow> EdgePeer list \<Rightarrow>
    'f AdjacentPeers \<Rightarrow> 'f AdjacentPeers outcome" where
  "enterNetwork attempts answer dial adjAnswer adj s =
     and_then (registerToRegistry attempts answer s) (\<lambda>(registryClientPtr, s1).
       case registryClientPtr of
         None \<Rightarrow> Panicked
       | Some c \<Rightarrow> Done (connectAndNotifyYourAdjacent dial adjAnswer adj (s1\<lparr>registryClient := Some c\<rparr>)))"

section \<open>Clients belong to one neighbour each\<close>

definition net_inv :: "'f AdjacentPeers \<Rightarrow> bool" where
  "net_inv s \<longleftrightarrow> (\<forall>p c. fmlookup (peerConns s) p = Some c \<longrightarrow> peerConnection c < length (clients s)) \<and>
     (\<forall>p q c d. fmlookup (peerConns s) p = Some c \<and> fmlookup (peerConns s) q = Some d \<and>
       peerConnection c = peerConnection d \<longrightarrow> p = q)"

lemma net_inv_init: "net_inv adjacentsMap"
  by (simp add: net_inv_def adjacentsMap_def)

lemma net_inv_bound: "net_inv s \<Longrightarrow> fmlookup (peerConns s) p = Some c \<Longrightarrow> peerConnection c < length (clients s)"
  by (auto simp: net_inv_def)

lemma net_inv_inj:
  "net_inv s \<Longrightarrow> fmlookup (peerConns s) p = Some c \<Longrightarrow> fmlookup (peerConns s) q = Some d \<Longrightarrow>
     peerConnection c = peerConnection d \<longleftrightarrow> p = q"
  by (auto simp: net_inv_def)

lemma isOpen_close: "isOpen (closeClient c s) d \<longleftrightarrow> d \<noteq> c \<and> isOpen s d"
  by (cases "c < length (clients s)") (auto simp: isOpen_def closeClient_def nth_list_update)

lemma closeClient_fields [simp]:
  "peerConns (closeClient c s) = peerConns s" "filterMap (closeClient c s) = filterMap s"
  "length (clients (closeClient c s)) = length (clients s)"
  by (simp_all add: closeClient_def)

lemma isOpen_fields [simp]:
  "isOpen (s\<lparr>peerConns := m\<rparr>) = isOpen s" "isOpen (s\<lparr>filterMap := f\<rparr>) = isOpen s"
  "isOpen (s\<lparr>registryClient := r\<rparr>) = isOpen s"
  by (simp_all add: isOpen_def fun_eq_iff)

lemma rpcCall_fields [simp]:
  "rpcCall (s\<lparr>peerConns := m\<rparr>) = rpcCall s" "rpcCall (s\<lparr>filterMap := f\<rparr>) = rpcCall s"
  by (simp_all add: rpcCall_def fun_eq_iff)

text \<open>What one ping does to the connection of a neighbour.\<close>

definition afterPing :: "int \<Rightarrow> callResult \<Rightarrow> AdjConnection \<Rightarrow> AdjConnection option" where
  "afterPing maxMissedPing result c =
     (if result = Replied then Some (c\<lparr>missedPing := 0\<rparr>)
      else if maxMissedPing \<le> wrap64 (missedPing c + 1) then None
      else Some (c\<lparr>missedPing := wrap64 (missedPing c + 1)\<rparr>))"

lemma pingOne_result:
  assumes "fmlookup (peerConns s) p = Some c" and "r = rpcCall s (peerConnection c) (answer p)"
  shows "fmlookup (peerConns (pingOne mx answer p c s)) q =
      (if q = p then afterPing mx r c else fmlookup (peerConns s) q)"
    and "fmlookup (filterMap (pingOne mx answer p c s)) q =
      (if q = p \<and> afterPing mx r c = None then None else fmlookup (filterMap s) q)"
    and "isOpen (pingOne mx answer p c s) d \<longleftrightarrow> isOpen s d \<and> \<not> (afterPing mx r c = None \<and> d = peerConnection c)"
    and "length (clients (pingOne mx answer p c s)) = length (clients s)"
  using assms
  by (auto simp: pingOne_def timeoutAction_def afterPing_def Let_def removeBloomFilter_def isOpen_close)

lemma pingLoop_result:
  assumes "distinct ks" and "net_inv s"
    and copied: "\<And>p. p \<in> set ks \<Longrightarrow> fmlookup copied p = fmlookup (peerConns s) p"
    and after: "after = (\<lambda>p c. afterPing mx (rpcCall s (peerConnection c) (answer p)) c)"
  shows "net_inv (pingLoop mx answer copied ks s) \<and>
    (\<forall>p. fmlookup (peerConns (pingLoop mx answer copied ks s)) p =
      (if p \<in> set ks then Option.bind (fmlookup (peerConns s) p) (after p) else fmlookup (peerConns s) p)) \<and>
    (\<forall>p. fmlookup (filterMap (pingLoop mx answer copied ks s)) p =
      (if p \<in> set ks \<and> (\<exists>c. fmlookup (peerConns s) p = Some c \<and> after p c = None) then None
       else fmlookup (filterMap s) p))"
  using assms(1-3) unfolding after
proof (induction ks arbitrary: s)
  case Nil
  then show ?case by simp
next
  case (Cons k ks)
  show ?case
  proof (cases "fmlookup (peerConns s) k")
    case None
    with Cons.IH [of s] Cons.prems show ?thesis by auto
  next
    case (Some c)
    let ?s = "pingOne mx answer k c s"
    let ?a = "afterPing mx (rpcCall s (peerConnection c) (answer k)) c"
    note one = pingOne_result [OF Some refl, where mx = mx and answer = answer]
    have conn: "peerConnection c' = peerConnection c" if "?a = Some c'" for c'
      using that by (auto simp: afterPing_def split: if_splits)
    have prior: "\<exists>d'. fmlookup (peerConns s) q = Some d' \<and> peerConnection d' = peerConnection d"
      if "fmlookup (peerConns ?s) q = Some d" for q d
      using that conn Some by (auto simp: one(1) split: if_splits)
    have inv: "net_inv ?s"
      unfolding net_inv_def one(4)
    proof (intro conjI allI impI)
      fix q d assume "fmlookup (peerConns ?s) q = Some d"
      with prior net_inv_bound [OF Cons.prems(2)] show "peerConnection d < length (clients s)" by metis
    next
      fix q q' d d'
      assume a: "fmlookup (peerConns ?s) q = Some d \<and> fmlookup (peerConns ?s) q' = Some d' \<and>
        peerConnection d = peerConnection d'"
      with prior [of q d] prior [of q' d'] net_inv_inj [OF Cons.prems(2)] show "q = q'" by metis
    qed
    have k: "k \<notin> set ks" and ks: "distinct ks" using Cons.prems(1) by auto
    have same: "fmlookup (peerConns ?s) q = fmlookup (peerConns s) q" if "q \<in> set ks" for q
      using that k by (auto simp: one(1))
    have "fmlookup copied q = fmlookup (peerConns ?s) q" if "q \<in> set ks" for q
      using Cons.prems(3) that same by simp
    note IH = Cons.IH [OF ks inv this]
    have calls: "rpcCall ?s (peerConnection d) (answer q) = rpcCall s (peerConnection d) (answer q)"
      if "fmlookup (peerConns s) q = Some d" "q \<in> set ks" for q d
    proof -
      have "peerConnection d \<noteq> peerConnection c"
        using net_inv_inj [OF Cons.prems(2) that(1) Some] that(2) k by auto
      then show ?thesis by (simp add: rpcCall_def one(3))
    qed
    have step: "pingLoop mx answer copied (k # ks) s = pingLoop mx answer copied ks ?s"
      using Cons.prems(3) [of k] Some by simp
    show ?thesis
      unfolding step
    proof (intro conjI allI)
      show "net_inv (pingLoop mx answer copied ks ?s)" using IH by blast
      fix p
      show "fmlookup (peerConns (pingLoop mx answer copied ks ?s)) p =
        (if p \<in> set (k # ks) then Option.bind (fmlookup (peerConns s) p)
           (\<lambda>c. afterPing mx (rpcCall s (peerConnection c) (answer p)) c) else fmlookup (peerConns s) p)"
        using IH k Some same calls
        by (cases "p = k"; cases "fmlookup (peerConns s) p") (auto simp: one(1))
      show "fmlookup (filterMap (pingLoop mx answer copied ks ?s)) p =
        (if p \<in> set (k # ks) \<and> (\<exists>c. fmlookup (peerConns s) p = Some c \<and>
             afterPing mx (rpcCall s (peerConnection c) (answer p)) c = None) then None
         else fmlookup (filterMap s) p)"
        using IH k Some same calls
        by (cases "p = k"; cases "fmlookup (peerConns s) p") (auto simp: one(2))
    qed
  qed
qed

lemma ConnectToNode_inv:
  assumes "net_inv s" and "ConnectToNode dial addr s = (Some c, s1)"
  shows "net_inv (s1\<lparr>peerConns := fmupd p \<lparr>peerConnection = c, missedPing = m\<rparr> (peerConns s1)\<rparr>) \<and>
    c = length (clients s) \<and> isOpen s1 c \<and> peerConns s1 = peerConns s \<and> filterMap s1 = filterMap s \<and>
    (\<forall>d. d < length (clients s) \<longrightarrow> isOpen s1 d = isOpen s d) \<and> length (clients s1) = Suc (length (clients s))"
  using assms net_inv_bound [OF assms(1)]
  by (auto simp: ConnectToNode_def net_inv_def isOpen_def nth_append less_Suc_eq split: if_splits)
     (metis less_irrefl)+

lemma net_inv_close: "net_inv s \<Longrightarrow> net_inv (closeClient c s)"
  by (simp add: net_inv_def)

text \<open>A neighbour whose callback fails stays in the map, with a connection that is closed.\<close>

lemma connectAndNotify_result:
  assumes "distinct adjs" and "net_inv s"
  shows "net_inv (connectAndNotifyYourAdjacent dial answer adjs s) \<and>
    (\<forall>p. p \<notin> set adjs \<or> \<not> dial (PeerAddr p) \<longrightarrow>
      fmlookup (peerConns (connectAndNotifyYourAdjacent dial answer adjs s)) p = fmlookup (peerConns s) p) \<and>
    (\<forall>d. d < length (clients s) \<longrightarrow> isOpen (connectAndNotifyYourAdjacent dial answer adjs s) d = isOpen s d) \<and>
    (\<forall>p. p \<in> set adjs \<and> dial (PeerAddr p) \<longrightarrow>
      (\<exists>c. fmlookup (peerConns (connectAndNotifyYourAdjacent dial answer adjs s)) p = Some c \<and> missedPing c = 0 \<and>
        (isOpen (connectAndNotifyYourAdjacent dial answer adjs s) (peerConnection c) \<longleftrightarrow> answer p = Replied)))"
  using assms
proof (induction adjs arbitrary: s)
  case Nil
  then show ?case by simp
next
  case (Cons a adjs)
  show ?case
  proof (cases "dial (PeerAddr a)")
    case False
    then have "connectAndAddNeighbour dial a s = (None, s)"
      by (simp add: connectAndAddNeighbour_def ConnectToNode_def)
    with False Cons.IH [of s] Cons.prems show ?thesis by auto
  next
    case True
    then obtain c s0 where cn: "ConnectToNode dial (PeerAddr a) s = (Some c, s0)"
      by (simp add: ConnectToNode_def)
    let ?conn = "\<lparr>peerConnection = c, missedPing = 0\<rparr>"
    let ?s1 = "s0\<lparr>peerConns := fmupd a ?conn (peerConns s0)\<rparr>"
    note n = ConnectToNode_inv [OF Cons.prems(2) cn, of a 0]
    have add: "connectAndAddNeighbour dial a s = (Some c, ?s1)" by (simp add: connectAndAddNeighbour_def cn)
    let ?s2 = "if answer a = Replied then ?s1 else closeClient c ?s1"
    have call: "CallAdjAddNeighbour (answer a) c ?s1 \<longleftrightarrow> answer a = Replied"
    proof -
      have "isOpen s0 c" using n by blast
      then show ?thesis by (simp add: CallAdjAddNeighbour_def rpcCall_def)
    qed
    then have step: "connectAndNotifyYourAdjacent dial answer (a # adjs) s = connectAndNotifyYourAdjacent dial answer adjs ?s2"
      using add by simp
    have inv: "net_inv ?s2" using n net_inv_close by auto
    have conns: "peerConns ?s2 = fmupd a ?conn (peerConns s)" using n by simp
    have len: "length (clients ?s2) = Suc (length (clients s))" using n by simp
    have opened: "isOpen ?s2 d = isOpen s d" if "d < length (clients s)" for d
      using n that by (auto simp: isOpen_close)
    have self: "isOpen ?s2 c \<longleftrightarrow> answer a = Replied" 
    proof -
      have "isOpen s0 c" using n by blast
      then show ?thesis by (simp add: isOpen_close)
    qed
    from Cons.prems(1) have a: "a \<notin> set adjs" and d: "distinct adjs" by auto
    note IH = Cons.IH [OF d inv]
    let ?t = "connectAndNotifyYourAdjacent dial answer adjs ?s2"
    have "fmlookup (peerConns ?t) a = Some ?conn" using IH a conns by simp
    moreover have "isOpen ?t c \<longleftrightarrow> answer a = Replied" using IH self len n by simp
    ultimately show ?thesis
      unfolding step using IH conns opened len True by auto
  qed
qed

definition repliesTo :: "(EdgePeer \<Rightarrow> callResult) \<Rightarrow> 'f AdjacentPeers \<Rightarrow> EdgePeer \<Rightarrow> bool" where
  "repliesTo answer s p \<longleftrightarrow> (\<exists>c. fmlookup (peerConns s) p = Some c \<and> rpcCall s (peerConnection c) (answer p) = Replied)"

section \<open>Properties\<close>

text \<open>A round of pings resets the counter of a neighbour that replies and increments that of one that
  does not; at the configured number of missed pings the neighbour goes, with its filter, and nothing
  happens to the others.\<close>

theorem pingFunction_effect:
  assumes "net_inv s" and "enumerates ks (peerConns s)"
  shows "fmlookup (peerConns (pingFunction mx answer ks s)) p =
      Option.bind (fmlookup (peerConns s) p) (\<lambda>c. afterPing mx (rpcCall s (peerConnection c) (answer p)) c) \<and>
    fmlookup (filterMap (pingFunction mx answer ks s)) p =
      (if fmlookup (peerConns s) p \<noteq> None \<and> fmlookup (peerConns (pingFunction mx answer ks s)) p = None then None
       else fmlookup (filterMap s) p)"
proof -
  have "distinct ks" using assms(2) by (simp add: enumerates_def)
  note res = pingLoop_result [OF this assms(1) refl refl, where mx = mx and answer = answer]
  have "p \<in> set ks" if "fmlookup (peerConns s) p = Some c" for c using enumerates_mem [OF assms(2) that] .
  with res show ?thesis
    by (cases "fmlookup (peerConns s) p") (auto simp: pingFunction_def)
qed

definition demoNet :: "unit AdjacentPeers" where
  "demoNet = \<lparr>peerConns = fmupd (EdgePeer ''b'') \<lparr>peerConnection = 1, missedPing = 2\<rparr>
      (fmupd (EdgePeer ''a'') \<lparr>peerConnection = 0, missedPing = 2\<rparr> fmempty),
     filterMap = fmempty, clients = [True, True], registryClient = None\<rparr>"

lemma demoNet_facts:
  "net_inv demoNet" "enumerates [EdgePeer ''a'', EdgePeer ''b''] (peerConns demoNet)"
  by (auto simp: net_inv_def demoNet_def enumerates_def split: if_splits)

theorem pingFunction_effect_witness:
  "fmlookup (peerConns (pingFunction 3 (\<lambda>p. if p = EdgePeer ''a'' then Replied else Expired)
      [EdgePeer ''a'', EdgePeer ''b''] demoNet)) (EdgePeer ''b'') = None"
  using pingFunction_effect [OF demoNet_facts, of 3 "\<lambda>p. if p = EdgePeer ''a'' then Replied else Expired" "EdgePeer ''b''"]
  by (simp add: demoNet_def rpcCall_def isOpen_def afterPing_def wrap64_id)

text \<open>When an edge joins, every neighbour it could dial is in its map; the connection is usable exactly
  if the neighbour added it in return. A neighbour that did not stays, behind a closed connection.\<close>

theorem connectAndNotify_effect:
  assumes "distinct adjs" and "net_inv s" and "p \<in> set adjs" and "dial (PeerAddr p)"
  shows "\<exists>c. fmlookup (peerConns (connectAndNotifyYourAdjacent dial answer adjs s)) p = Some c \<and>
    (isOpen (connectAndNotifyYourAdjacent dial answer adjs s) (peerConnection c) \<longleftrightarrow> answer p = Replied)"
  using connectAndNotify_result [OF assms(1,2), of dial answer] assms(3,4) by blast

theorem connectAndNotify_effect_witness:
  "\<exists>c. fmlookup (peerConns (connectAndNotifyYourAdjacent (\<lambda>_. True) (\<lambda>_. Expired) [EdgePeer ''c''] demoNet)) (EdgePeer ''c'') = Some c \<and>
    \<not> isOpen (connectAndNotifyYourAdjacent (\<lambda>_. True) (\<lambda>_. Expired) [EdgePeer ''c''] demoNet) (peerConnection c)"
  using connectAndNotify_effect [of "[EdgePeer ''c'']" demoNet "EdgePeer ''c''" "\<lambda>_. True" "\<lambda>_. Expired"] demoNet_facts(1)
  by simp

text \<open>A heartbeat to a registry that is connected but does not answer in time ends the edge with a
  nil dereference; every other outcome is handled.\<close>

theorem heartbeatFunction_timeout:
  "heartbeatFunction dial answer s = Panicked \<longleftrightarrow> answer = Expired \<and>
    (case registryClient s of Some c \<Rightarrow> isOpen s c | None \<Rightarrow> dial ''registry:1234'')"
  by (cases answer; cases "registryClient s")
     (auto simp: heartbeatFunction_def ConnectToNode_def rpcCall_def isOpen_def nth_append)

text \<open>The filter reaches the neighbours in the order of the loop up to the first one that does not
  reply, and the neighbours behind that one are not notified.\<close>

theorem notifyLoop_stops:
  assumes "enumerates ks (peerConns s)"
  shows "notifyLoop answer ks s = (list_all (repliesTo answer s) ks,
    takeWhile (repliesTo answer s) ks @ take 1 (dropWhile (repliesTo answer s) ks))"
proof -
  let ?r = "repliesTo answer s"
  have "notifyLoop answer ks' s = (list_all ?r ks', takeWhile ?r ks' @ take 1 (dropWhile ?r ks'))"
    if "set ks' \<subseteq> set ks" for ks'
    using that
  proof (induction ks')
    case Nil
    then show ?case by simp
  next
    case (Cons k ks')
    then obtain c where "fmlookup (peerConns s) k = Some c" using enumeratesD [OF assms(1), of k] by auto
    with Cons show ?case by (auto simp: repliesTo_def)
  qed
  then show ?thesis by simp
qed

theorem notifyLoop_stops_witness:
  "notifyLoop (\<lambda>_. Expired) [EdgePeer ''a'', EdgePeer ''b''] demoNet = (False, [EdgePeer ''a''])"
  using notifyLoop_stops [OF demoNet_facts(2), of "\<lambda>_. Expired"] by (simp add: rpcCall_def repliesTo_def)

end
