(* ===== verification/Lookup.thy ===== *)
theory Lookup
  imports FileCache PeerNet Strconv
begin

text \<open>
  The search for a file in the network and the announcement of deletions: the cache of the requests
  already served (\<^verbatim>\<open>edge/peer/file_request_cache.go\<close>), the choice of the neighbours that are asked
  (\<^verbatim>\<open>edge/peer/peer.go\<close>), the handlers \<^verbatim>\<open>FileLookup\<close> and \<^verbatim>\<open>DeleteFile\<close> (\<^verbatim>\<open>edge/peer/peer_services.go\<close>).
  A call that is issued and
  not waited for is an element of the list of calls a handler returns.
\<close>

section \<open>Requests\<close>

record FileRequest =
  FileName :: string
  RequestId :: string
  ForwarderPeer :: EdgePeer

record FileLookupMessage =
  lookupRequest :: FileRequest
  TTL :: int
  CallbackServer :: string

type_synonym FileDeleteMessage = FileRequest

record PeerFileServer =
  IpAddr :: string

record FileLookupResponse =
  OwnerEdge :: PeerFileServer
  FileSize :: int

section \<open>The request cache\<close>

type_synonym RequestCache = "(FileRequest, int) gomap"

definition AddRequestInCache :: "int \<Rightarrow> FileRequest \<Rightarrow> RequestCache \<Rightarrow> RequestCache" where
  "AddRequestInCache now request m = fmupd request now m"

definition requestExpired :: "int \<Rightarrow> int \<Rightarrow> int \<Rightarrow> bool" where
  "requestExpired requestCacheTTL now t \<longleftrightarrow> t + wrap64 (requestCacheTTL * 10 ^ 9) < now"

fun servedLoop :: "int \<Rightarrow> int \<Rightarrow> FileRequest \<Rightarrow> RequestCache \<Rightarrow> FileRequest list \<Rightarrow> FileRequest list \<Rightarrow> bool \<Rightarrow>
    FileRequest list \<times> bool" where
  "servedLoop ttl now fileRequest m [] requestToDelete success = (requestToDelete, success)"
| "servedLoop ttl now fileRequest m (request # ks) requestToDelete success =
     (case fmlookup m request of
        None \<Rightarrow> servedLoop ttl now fileRequest m ks requestToDelete success
      | Some t \<Rightarrow>
          if requestExpired ttl now t
          then servedLoop ttl now fileRequest m ks (requestToDelete @ [request]) success
          else if RequestId request = RequestId fileRequest \<and> FileName request = FileName fileRequest
          then servedLoop ttl now fileRequest m ks requestToDelete True
          else servedLoop ttl now fileRequest m ks requestToDelete success)"

definition IsRequestAlreadyServed :: "int \<Rightarrow> int \<Rightarrow> FileRequest list \<Rightarrow> FileRequest \<Rightarrow> RequestCache \<Rightarrow> bool \<times> RequestCache" where
  "IsRequestAlreadyServed ttl now ks fileRequest m =
     (let (requestToDelete, success) = servedLoop ttl now fileRequest m ks [] False
      in (success, fold fmdrop requestToDelete (fmupd fileRequest now m)))"

section \<open>Asking the neighbours\<close>

type_synonym lookupCalls = "(EdgePeer \<times> FileLookupMessage) list"

text \<open>A neighbour without a connection is a nil client, and the call on it panics.\<close>

definition contactNeighbourForFileDownload :: "EdgePeer \<Rightarrow> 'f AdjacentPeers \<Rightarrow> FileLookupMessage \<Rightarrow> EdgePeer \<Rightarrow>
    (bool \<times> lookupCalls) outcome" where
  "contactNeighbourForFileDownload self s msg adj =
     (if adj \<noteq> ForwarderPeer (lookupRequest msg)
      then (case fmlookup (peerConns s) adj of
          None \<Rightarrow> Panicked
        | Some adjConn \<Rightarrow> Done (True, [(adj, msg\<lparr>lookupRequest := (lookupRequest msg)\<lparr>ForwarderPeer := self\<rparr>\<rparr>)]))
      else Done (False, []))"

definition filterSays :: "('f \<Rightarrow> string \<Rightarrow> bool) \<Rightarrow> 'f AdjacentPeers \<Rightarrow> string \<Rightarrow> EdgePeer \<Rightarrow> bool option" where
  "filterSays test s name adj = map_option (\<lambda>f. test f name) (fmlookup (filterMap s) adj)"

fun positiveLoop :: "('f \<Rightarrow> string \<Rightarrow> bool) \<Rightarrow> EdgePeer \<Rightarrow> 'f AdjacentPeers \<Rightarrow> int \<Rightarrow> FileLookupMessage \<Rightarrow>
    EdgePeer list \<Rightarrow> int \<Rightarrow> (int \<times> lookupCalls) outcome" where
  "positiveLoop test self s maxContactable msg [] contactedNum = Done (contactedNum, [])"
| "positiveLoop test self s maxContactable msg (adj # ks) contactedNum =
     (if filterSays test s (FileName (lookupRequest msg)) adj = Some True
      then and_then (contactNeighbourForFileDownload self s msg adj) (\<lambda>(contacted, calls).
        let num = (if contacted then wrap64 (contactedNum + 1) else contactedNum) in
        if contacted \<and> num = maxContactable then Done (num, calls)
        else and_then (positiveLoop test self s maxContactable msg ks num) (\<lambda>(n, calls').
          Done (n, calls @ calls')))
      else positiveLoop test self s maxContactable msg ks contactedNum)"

definition findFalseAdjacentsFilter :: "('f \<Rightarrow> string \<Rightarrow> bool) \<Rightarrow> 'f AdjacentPeers \<Rightarrow> EdgePeer list \<Rightarrow> string \<Rightarrow> EdgePeer list" where
  "findFalseAdjacentsFilter test s ks name = filter (\<lambda>adj. filterSays test s name adj = Some False) ks"

lemma remaining_shorter:
  "xs \<noteq> [] \<Longrightarrow> k mod length xs + (length xs - Suc (k mod length xs)) < length xs"
  using mod_less_divisor [of "length xs" k] by (cases "length xs") (auto simp: not_less_eq_eq)

text \<open>\<open>rnd i\<close> is the random number of the i-th draw, which \<^verbatim>\<open>rand.Intn\<close> brings into its range.\<close>

function complementLoop :: "(int \<Rightarrow> nat) \<Rightarrow> EdgePeer \<Rightarrow> 'f AdjacentPeers \<Rightarrow> int \<Rightarrow> FileLookupMessage \<Rightarrow>
    int \<Rightarrow> EdgePeer list \<Rightarrow> int \<Rightarrow> (int \<times> lookupCalls) outcome" where
  "complementLoop rnd self s maxContactable msg i falseFiltersNeighbours contactedNum =
     (if i < wrap64 (maxContactable - contactedNum) \<and> falseFiltersNeighbours \<noteq> []
      then let randomInt = rnd i mod length falseFiltersNeighbours;
               randomNeigh = falseFiltersNeighbours ! randomInt
           in and_then (contactNeighbourForFileDownload self s msg randomNeigh) (\<lambda>(contacted, calls).
             let num = (if contacted then wrap64 (contactedNum + 1) else contactedNum);
                 remaining = take randomInt falseFiltersNeighbours @ drop (randomInt + 1) falseFiltersNeighbours
             in and_then (complementLoop rnd self s maxContactable msg (wrap64 (i + 1)) remaining num) (\<lambda>(n, calls').
               Done (n, calls @ calls')))
      else Done (contactedNum, []))"
  by pat_completeness auto

termination
  by (relation "measure (\<lambda>(rnd, self, s, mx, msg, i, falses, num). length falses)")
     (auto simp: remaining_shorter)

declare complementLoop.simps [simp del]

record lookupOrders =
  connsOrder :: "EdgePeer list"
  filtersOrder :: "EdgePeer list"
  draws :: "int \<Rightarrow> nat"

definition neighboursFileLookup :: "('f \<Rightarrow> string \<Rightarrow> bool) \<Rightarrow> int \<Rightarrow> EdgePeer \<Rightarrow> lookupOrders \<Rightarrow> int \<Rightarrow> FileLookupMessage \<Rightarrow>
    'f AdjacentPeers \<Rightarrow> RequestCache \<Rightarrow> (RequestCache \<times> lookupCalls) outcome" where
  "neighboursFileLookup test maxContactable self ord now msg s m =
     and_then (positiveLoop test self s maxContactable msg (connsOrder ord) 0) (\<lambda>(contactedNum, calls).
       if contactedNum < maxContactable
       then and_then (complementLoop (draws ord) self s maxContactable msg 0
              (findFalseAdjacentsFilter test s (filtersOrder ord) (FileName (lookupRequest msg))) contactedNum)
            (\<lambda>(n, calls'). Done (AddRequestInCache now (lookupRequest msg) m, calls @ calls'))
       else Done (AddRequestInCache now (lookupRequest msg) m, calls))"

definition NeighboursFileLookup :: "('f \<Rightarrow> string \<Rightarrow> bool) \<Rightarrow> int \<Rightarrow> EdgePeer \<Rightarrow> lookupOrders \<Rightarrow> int \<Rightarrow> string \<Rightarrow> int \<Rightarrow>
    string \<Rightarrow> string \<Rightarrow> string \<Rightarrow> 'f AdjacentPeers \<Rightarrow> RequestCache \<Rightarrow> (RequestCache \<times> lookupCalls) outcome" where
  "NeighboursFileLookup test maxContactable self ord now name ttl requestID forwarderPeer callbackServer =
     neighboursFileLookup test maxContactable self ord now
       \<lparr>lookupRequest = \<lparr>FileName = name, RequestId = requestID, ForwarderPeer = EdgePeer forwarderPeer\<rparr>,
         TTL = ttl, CallbackServer = callbackServer\<rparr>"

section \<open>Answering a lookup\<close>

datatype lookupReply =
    LOOKUP_ABORT
  | LOOKUP_END
  | Forwarded
  | Answered FileLookupResponse
  | CallbackFailed

record 'f Edge =
  SelfPeer :: EdgePeer
  peerFileServer :: PeerFileServer
  edgeCache :: Cache
  requestMap :: RequestCache
  adjacents :: "'f AdjacentPeers"

record lookupEnv =
  requestCacheTTL :: int
  maxContactable :: int
  timeNow :: int
  requestsOrder :: "FileRequest list"
  orders :: lookupOrders
  callbackConnects :: bool
  callbackSends :: bool

definition FileLookup :: "('f \<Rightarrow> string \<Rightarrow> bool) \<Rightarrow> lookupEnv \<Rightarrow> FileLookupMessage \<Rightarrow> 'f Edge \<Rightarrow>
    (lookupReply \<times> lookupCalls \<times> 'f Edge) outcome" where
  "FileLookup test env msg0 e =
     (let (served, m1) = IsRequestAlreadyServed (requestCacheTTL env) (timeNow env) (requestsOrder env)
            (lookupRequest msg0) (requestMap e);
          e1 = e\<lparr>requestMap := m1\<rparr>
      in if served then Done (LOOKUP_ABORT, [], e1)
      else let msg = msg0\<lparr>TTL := wrap64 (TTL msg0 - 1)\<rparr> in
        and_then (IsFileInCache (FileName (lookupRequest msg)) (edgeCache e1)) (\<lambda>(found, c).
          let e2 = e1\<lparr>edgeCache := c\<rparr> in
          if \<not> found
          then (if 0 < TTL msg
            then and_then (neighboursFileLookup test (maxContactable env) (SelfPeer e2) (orders env) (timeNow env)
                   msg (adjacents e2) (requestMap e2)) (\<lambda>(m2, calls). Done (Forwarded, calls, e2\<lparr>requestMap := m2\<rparr>))
            else Done (LOOKUP_END, [], e2))
          else let e3 = e2\<lparr>requestMap := AddRequestInCache (timeNow env) (lookupRequest msg) (requestMap e2)\<rparr> in
            if \<not> callbackConnects env then Done (CallbackFailed, [], e3)
            else let lookupResponse = \<lparr>OwnerEdge = peerFileServer e3,
                       FileSize = GetFileSize (FileName (lookupRequest msg)) (edgeCache e3)\<rparr>
                 in if callbackSends env then Done (Answered lookupResponse, [], e3)
                    else Done (CallbackFailed, [], e3)))"

section \<open>Announcing a deletion\<close>

type_synonym deleteCalls = "(EdgePeer \<times> FileDeleteMessage) list"

definition contactNeighbourForFileDeletion :: "EdgePeer \<Rightarrow> 'f AdjacentPeers \<Rightarrow> FileDeleteMessage \<Rightarrow> EdgePeer \<Rightarrow>
    (bool \<times> deleteCalls) outcome" where
  "contactNeighbourForFileDeletion self s msg adj =
     (if adj \<noteq> ForwarderPeer msg
      then (case fmlookup (peerConns s) adj of
          None \<Rightarrow> Panicked
        | Some adjConn \<Rightarrow> Done (True, [(adj, msg\<lparr>ForwarderPeer := self\<rparr>)]))
      else Done (False, []))"

fun deletionLoop :: "('f \<Rightarrow> string \<Rightarrow> bool) \<Rightarrow> EdgePeer \<Rightarrow> 'f AdjacentPeers \<Rightarrow> FileDeleteMessage \<Rightarrow> EdgePeer list \<Rightarrow>
    deleteCalls outcome" where
  "deletionLoop test self s msg [] = Done []"
| "deletionLoop test self s msg (adj # ks) =
     (if filterSays test s (FileName msg) adj = Some True
      then and_then (contactNeighbourForFileDeletion self s msg adj) (\<lambda>(contacted, calls).
        and_then (deletionLoop test self s msg ks) (\<lambda>calls'. Done (calls @ calls')))
      else deletionLoop test self s msg ks)"

definition notifyFileDeletion :: "('f \<Rightarrow> string \<Rightarrow> bool) \<Rightarrow> int \<Rightarrow> EdgePeer list \<Rightarrow> FileDeleteMessage \<Rightarrow> 'f Edge \<Rightarrow>
    (deleteCalls \<times> 'f Edge) outcome" where
  "notifyFileDeletion test now ks msg e =
     and_then (deletionLoop test (SelfPeer e) (adjacents e) msg ks) (\<lambda>calls.
       Done (calls, e\<lparr>requestMap := AddRequestInCache now msg (requestMap e)\<rparr>))"

definition NotifyFileDeletion :: "('f \<Rightarrow> string \<Rightarrow> bool) \<Rightarrow> int \<Rightarrow> EdgePeer list \<Rightarrow> string \<Rightarrow> string \<Rightarrow> 'f Edge \<Rightarrow>
    (deleteCalls \<times> 'f Edge) outcome" where
  "NotifyFileDeletion test now ks name requestId =
     notifyFileDeletion test now ks \<lparr>FileName = name, RequestId = requestId, ForwarderPeer = EdgePeer []\<rparr>"

definition DeleteFile :: "('f \<Rightarrow> string \<Rightarrow> bool) \<Rightarrow> int \<Rightarrow> EdgePeer list \<Rightarrow> FileDeleteMessage \<Rightarrow> 'f Edge \<Rightarrow> filesystem \<Rightarrow>
    (deleteCalls \<times> 'f Edge \<times> filesystem) outcome" where
  "DeleteFile test now ks msg e fs =
     and_then (IsFileInCache (FileName msg) (edgeCache e)) (\<lambda>(found, c).
     and_then (if found then RemoveFileFromCache now (FileName msg) c fs else Done (c, fs)) (\<lambda>(c', fs').
     and_then (notifyFileDeletion test now ks msg (e\<lparr>edgeCache := c'\<rparr>)) (\<lambda>(calls, e').
       Done (calls, e', fs'))))"

section \<open>The request cache\<close>

definition sameRequest :: "FileRequest \<Rightarrow> FileRequest \<Rightarrow> bool" where
  "sameRequest r q \<longleftrightarrow> RequestId r = RequestId q \<and> FileName r = FileName q"

lemma servedLoop_result:
  "servedLoop ttl now req m ks del ok =
    (del @ filter (\<lambda>k. \<exists>t. fmlookup m k = Some t \<and> requestExpired ttl now t) ks,
     ok \<or> (\<exists>k\<in>set ks. \<exists>t. fmlookup m k = Some t \<and> \<not> requestExpired ttl now t \<and> sameRequest k req))"
  by (induction ks arbitrary: del ok) (auto simp: sameRequest_def split: option.split)

lemma fmlookup_fold_drop: "fmlookup (fold fmdrop ks m) k = (if k \<in> set ks then None else fmlookup m k)"
  by (induction ks arbitrary: m) auto

lemma IsRequestAlreadyServed_result:
  assumes "enumerates ks m"
  shows "(fst (IsRequestAlreadyServed ttl now ks req m) \<longleftrightarrow>
      (\<exists>r t. fmlookup m r = Some t \<and> \<not> requestExpired ttl now t \<and> sameRequest r req)) \<and>
    fmlookup (snd (IsRequestAlreadyServed ttl now ks req m)) k =
      (case fmlookup m k of
         Some t \<Rightarrow> if requestExpired ttl now t then None else Some (if k = req then now else t)
       | None \<Rightarrow> if k = req then Some now else None)"
  using enumerates_mem [OF assms] enumeratesD [OF assms]
  by (auto simp: IsRequestAlreadyServed_def servedLoop_result fmlookup_fold_drop split: option.splits)

section \<open>Which neighbours are asked\<close>

definition forwardedBy :: "EdgePeer \<Rightarrow> FileLookupMessage \<Rightarrow> FileLookupMessage" where
  "forwardedBy self msg = msg\<lparr>lookupRequest := (lookupRequest msg)\<lparr>ForwarderPeer := self\<rparr>\<rparr>"

definition askable :: "('f \<Rightarrow> string \<Rightarrow> bool) \<Rightarrow> 'f AdjacentPeers \<Rightarrow> FileLookupMessage \<Rightarrow> EdgePeer \<Rightarrow> bool" where
  "askable test s msg adj \<longleftrightarrow> filterSays test s (FileName (lookupRequest msg)) adj = Some True \<and>
     adj \<noteq> ForwarderPeer (lookupRequest msg)"

lemma contact_result:
  "contactNeighbourForFileDownload self s msg adj =
    (if adj = ForwarderPeer (lookupRequest msg) then Done (False, [])
     else if fmlookup (peerConns s) adj = None then Panicked
     else Done (True, [(adj, forwardedBy self msg)]))"
  by (auto simp: contactNeighbourForFileDownload_def forwardedBy_def split: option.split)

lemma positiveLoop_result:
  assumes "0 \<le> n" and "n < mx" and "mx < 2 ^ 63"
    and ts: "ts = take (nat (mx - n)) (filter (askable test s msg) ks)"
  shows "positiveLoop test self s mx msg ks n =
    (if list_all (\<lambda>a. fmlookup (peerConns s) a \<noteq> None) ts
     then Done (n + int (length ts), map (\<lambda>a. (a, forwardedBy self msg)) ts) else Panicked)"
  using assms(1,2) unfolding ts
proof (induction ks arbitrary: n)
  case Nil
  then show ?case by simp
next
  case (Cons a ks)
  show ?case
  proof (cases "askable test s msg a")
    case False
    have "positiveLoop test self s mx msg (a # ks) n = positiveLoop test self s mx msg ks n"
      using False by (cases "positiveLoop test self s mx msg ks n") (auto simp: askable_def contact_result)
    with False Cons.IH [OF Cons.prems] show ?thesis by simp
  next
    case True
    then have pos: "filterSays test s (FileName (lookupRequest msg)) a = Some True"
      and "a \<noteq> ForwarderPeer (lookupRequest msg)" by (auto simp: askable_def)
    have w: "wrap64 (n + 1) = n + 1" using Cons.prems assms(3) by (intro wrap64_id) auto
    show ?thesis
    proof (cases "fmlookup (peerConns s) a = None")
      case None: True
      obtain k where "nat (mx - n) = Suc k" using Cons.prems by (cases "nat (mx - n)") auto
      with True pos None show ?thesis by (simp add: contact_result askable_def)
    next
      case conn: False
      then have contact: "contactNeighbourForFileDownload self s msg a = Done (True, [(a, forwardedBy self msg)])"
        using True by (simp add: contact_result askable_def)
      show ?thesis
      proof (cases "n + 1 = mx")
        case one: True
        then have "nat (mx - n) = Suc 0" by simp
        with one True pos contact conn w show ?thesis by (simp add: Let_def)
      next
        case more: False
        then have lt: "0 \<le> n + 1" "n + 1 < mx" using Cons.prems by auto
        have suc: "nat (mx - n) = Suc (nat (mx - (n + 1)))" using Cons.prems by simp
        from Cons.IH [OF lt] more True pos contact conn w show ?thesis
          unfolding suc by (simp add: Let_def)
      qed
    qed
  qed
qed

lemma remaining_set:
  assumes "distinct xs" and "i < length xs"
  shows "distinct (take i xs @ drop (Suc i) xs) \<and> set (take i xs @ drop (Suc i) xs) = set xs - {xs ! i}"
  using remove_at_filter [OF assms] assms(1) by auto

text \<open>The calls of the complement loop, and how many they are when the sender is not a candidate.\<close>

definition complementCalls :: "EdgePeer \<Rightarrow> FileLookupMessage \<Rightarrow> int \<Rightarrow> int \<Rightarrow> EdgePeer list \<Rightarrow> int \<Rightarrow> int \<Rightarrow> lookupCalls \<Rightarrow> bool" where
  "complementCalls self msg mx i falses num n calls \<longleftrightarrow>
     (\<exists>ts. calls = map (\<lambda>a. (a, forwardedBy self msg)) ts \<and> n = num + int (length ts) \<and> n \<le> mx \<and> distinct ts \<and>
        set ts \<subseteq> set falses - {ForwarderPeer (lookupRequest msg)} \<and>
        (ForwarderPeer (lookupRequest msg) \<notin> set falses \<longrightarrow>
          length ts = min (length falses) (nat ((mx - num - i + 1) div 2))))"

lemma complementCalls_skip:
  assumes "distinct falses" and r: "r < length falses" and fwd: "falses ! r = ForwarderPeer (lookupRequest msg)"
    and rest: "complementCalls self msg mx (i + 1) (take r falses @ drop (Suc r) falses) num n calls"
  shows "complementCalls self msg mx i falses num n calls"
proof -
  have "ForwarderPeer (lookupRequest msg) \<in> set falses" using r nth_mem [OF r] fwd by simp
  with rest remaining_set [OF assms(1) r] show ?thesis by (auto simp: complementCalls_def simp del: set_append)
qed

lemma complementCalls_ask:
  assumes "distinct falses" and r: "r < length falses" and ask: "falses ! r \<noteq> ForwarderPeer (lookupRequest msg)"
    and more: "i < mx - num"
    and rest: "complementCalls self msg mx (i + 1) (take r falses @ drop (Suc r) falses) (num + 1) n calls"
  shows "complementCalls self msg mx i falses num n ((falses ! r, forwardedBy self msg) # calls)"
proof -
  let ?a = "falses ! r" and ?rest = "take r falses @ drop (Suc r) falses" and ?fwd = "ForwarderPeer (lookupRequest msg)"
  note rs = remaining_set [OF assms(1) r]
  obtain ts where ts: "calls = map (\<lambda>a. (a, forwardedBy self msg)) ts" "n = num + 1 + int (length ts)" "n \<le> mx" "distinct ts"
      "set ts \<subseteq> set ?rest - {?fwd}"
      "?fwd \<notin> set ?rest \<longrightarrow> length ts = min (length ?rest) (nat ((mx - (num + 1) - (i + 1) + 1) div 2))"
    using rest unfolding complementCalls_def by blast
  have len: "length ?rest = length falses - 1" "length falses = Suc (length falses - 1)" using r by auto
  have half: "nat ((mx - num - i + 1) div 2) = Suc (nat ((mx - (num + 1) - (i + 1) + 1) div 2))"
    using more by (simp add: Suc_nat_eq_nat_zadd1 [symmetric])
  have sub: "set ts \<subseteq> set falses - {?a} - {?fwd}" using ts(5) rs by simp
  have num: "length (?a # ts) = min (length falses) (nat ((mx - num - i + 1) div 2))" if "?fwd \<notin> set falses"
  proof -
    have "?fwd \<notin> set ?rest" using that rs by simp
    with ts(6) have "length ts = min (length falses - 1) (nat ((mx - (num + 1) - (i + 1) + 1) div 2))"
      by (simp only: len(1) simp_thms)
    then show ?thesis unfolding half by (subst len(2)) simp
  qed
  show ?thesis
    unfolding complementCalls_def
    by (rule exI [of _ "?a # ts"]) (use ts sub num r ask in auto)
qed

lemma complementLoop_calls:
  assumes "complementLoop rnd self s mx msg i falses num = Done (n, calls)"
    and "distinct falses" and "0 \<le> i" and "0 \<le> num" and "num \<le> mx" and "mx < 2 ^ 63" and "i \<le> mx"
  shows "complementCalls self msg mx i falses num n calls"
  using assms
proof (induction rnd self s mx msg i falses num arbitrary: n calls rule: complementLoop.induct)
  case (1 rnd self s mx msg i falses num)
  have w: "wrap64 (mx - num) = mx - num" using 1(4-8) by (intro wrap64_id) auto
  show ?case
  proof (cases "i < mx - num \<and> falses \<noteq> []")
    case False
    with 1(2) have "calls = []" "n = num" by (auto simp: complementLoop.simps [of rnd self s mx msg i falses num] w)
    with False 1(4-8) show ?thesis unfolding complementCalls_def by (intro exI [of _ "[]"]) auto
  next
    case True
    define r where "r = rnd i mod length falses"
    have r: "r < length falses" using True by (simp add: r_def)
    have wi: "wrap64 (i + 1) = i + 1" and wn: "wrap64 (num + 1) = num + 1"
      using True 1(4-8) by (auto intro!: wrap64_id)
    from 1(2) True obtain c cs n' calls' where contact: "contactNeighbourForFileDownload self s msg (falses ! r) = Done (c, cs)"
      and rec: "complementLoop rnd self s mx msg (wrap64 (i + 1)) (take r falses @ drop (r + 1) falses)
        (if c then wrap64 (num + 1) else num) = Done (n', calls')"
      and out: "n = n'" "calls = cs @ calls'"
      by (auto simp: complementLoop.simps [of rnd self s mx msg i falses num] w wi wn Let_def and_then_Done_iff
          r_def [symmetric] split: if_splits)
    have cond: "i < wrap64 (mx - num) \<and> falses \<noteq> []" using True w by simp
    have prems: "distinct (take r falses @ drop (r + 1) falses)" "0 \<le> wrap64 (i + 1)"
      "0 \<le> (if c then wrap64 (num + 1) else num)" "(if c then wrap64 (num + 1) else num) \<le> mx" "wrap64 (i + 1) \<le> mx"
      using remaining_set [OF 1(3) r] True 1(4-8) by (simp_all add: wi wn)
    have rest: "complementCalls self msg mx (i + 1) (take r falses @ drop (Suc r) falses) (if c then num + 1 else num) n' calls'"
      using 1(1) [OF cond r_def refl refl refl rec prems(1-4) 1(7) prems(5)] unfolding wi wn Suc_eq_plus1 .
    show ?thesis
    proof (cases "falses ! r = ForwarderPeer (lookupRequest msg)")
      case fwd: True
      with contact out rest show ?thesis
        by (intro complementCalls_skip [OF 1(3) r fwd]) (simp add: contact_result)
    next
      case ask: False
      with contact have "c = True" "cs = [(falses ! r, forwardedBy self msg)]"
        by (auto simp: contact_result split: if_splits)
      with out rest True show ?thesis by (simp add: complementCalls_ask [OF 1(3) r ask])
    qed
  qed
qed

lemmas complementLoop_result = complementLoop_calls [unfolded complementCalls_def]

lemma complementLoop_returns:
  assumes "\<forall>a\<in>set falses. a \<noteq> ForwarderPeer (lookupRequest msg) \<longrightarrow> fmlookup (peerConns s) a \<noteq> None"
  shows "\<exists>x. complementLoop rnd self s mx msg i falses num = Done x"
  using assms
proof (induction rnd self s mx msg i falses num rule: complementLoop.induct)
  case (1 rnd self s mx msg i falses num)
  show ?case
  proof (cases "i < wrap64 (mx - num) \<and> falses \<noteq> []")
    case False
    then show ?thesis by (auto simp: complementLoop.simps [of rnd self s mx msg i falses num])
  next
    case True
    define r where "r = rnd i mod length falses"
    have r: "r < length falses" using True by (simp add: r_def)
    then have "falses ! r \<in> set falses" by simp
    with 1(2) obtain c cs where contact: "contactNeighbourForFileDownload self s msg (falses ! r) = Done (c, cs)"
      unfolding contact_result by (cases "falses ! r = ForwarderPeer (lookupRequest msg)") auto
    have "set (take r falses @ drop (r + 1) falses) \<subseteq> set falses"
      using set_take_subset [of r falses] set_drop_subset [of "r + 1" falses] by auto
    with 1(2) have "\<forall>a\<in>set (take r falses @ drop (r + 1) falses).
        a \<noteq> ForwarderPeer (lookupRequest msg) \<longrightarrow> fmlookup (peerConns s) a \<noteq> None" by blast
    from 1(1) [OF True r_def refl refl refl this]
    obtain x where "complementLoop rnd self s mx msg (wrap64 (i + 1)) (take r falses @ drop (r + 1) falses)
        (if c then wrap64 (num + 1) else num) = Done x" by blast
    with True contact show ?thesis
      by (cases x) (simp add: complementLoop.simps [of rnd self s mx msg i falses num] Let_def r_def [symmetric])
  qed
qed

text \<open>What a completed search for neighbours has done.\<close>

lemma neighboursFileLookup_result:
  assumes run: "neighboursFileLookup test mx self ord now msg s m = Done (m', calls)"
    and mx: "0 < mx" "mx < 2 ^ 63" and ks: "distinct (connsOrder ord)" and fs: "distinct (filtersOrder ord)"
    and asked: "asked = take (nat mx) (filter (askable test s msg) (connsOrder ord))"
  shows "m' = AddRequestInCache now (lookupRequest msg) m \<and>
    (\<exists>extra. calls = map (\<lambda>a. (a, forwardedBy self msg)) (asked @ extra) \<and> int (length (asked @ extra)) \<le> mx \<and>
      distinct (asked @ extra) \<and> ForwarderPeer (lookupRequest msg) \<notin> set (asked @ extra) \<and>
      (\<forall>a\<in>set extra. filterSays test s (FileName (lookupRequest msg)) a = Some False) \<and>
      (filterSays test s (FileName (lookupRequest msg)) (ForwarderPeer (lookupRequest msg)) \<noteq> Some False \<longrightarrow>
        length extra = min (length (findFalseAdjacentsFilter test s (filtersOrder ord) (FileName (lookupRequest msg))))
          (nat ((mx - int (length asked) + 1) div 2))))"
proof -
  let ?fwd = "ForwarderPeer (lookupRequest msg)"
  let ?name = "FileName (lookupRequest msg)"
  have pos: "positiveLoop test self s mx msg (connsOrder ord) 0 =
      Done (int (length asked), map (\<lambda>a. (a, forwardedBy self msg)) asked)"
    using run positiveLoop_result [of 0 mx asked test s msg "connsOrder ord" self] mx
    by (auto simp: neighboursFileLookup_def asked split: if_splits)
  have len: "int (length asked) \<le> mx" using mx by (simp add: asked)
  have mem: "\<forall>a\<in>set asked. askable test s msg a"
    unfolding asked using set_take_subset by fastforce
  have "distinct asked" using ks by (simp add: asked)
  moreover have "?fwd \<notin> set asked" using mem unfolding askable_def by blast
  moreover have "\<forall>a\<in>set asked. filterSays test s ?name a = Some True" using mem unfolding askable_def by blast
  ultimately have props: "distinct asked" "?fwd \<notin> set asked" "\<forall>a\<in>set asked. filterSays test s ?name a = Some True"
    by blast+
  show ?thesis
  proof (cases "int (length asked) < mx")
    case False
    with len have "mx - int (length asked) = 0" by simp
    with run pos False props len show ?thesis by (auto simp: neighboursFileLookup_def)
  next
    case True
    let ?falses = "findFalseAdjacentsFilter test s (filtersOrder ord) ?name"
    obtain n cs where rec: "complementLoop (draws ord) self s mx msg 0 ?falses (int (length asked)) = Done (n, cs)"
      and out: "m' = AddRequestInCache now (lookupRequest msg) m" "calls = map (\<lambda>a. (a, forwardedBy self msg)) asked @ cs"
      using run pos True by (auto simp: neighboursFileLookup_def and_then_Done_iff)
    have "distinct ?falses" using fs by (simp add: findFalseAdjacentsFilter_def)
    moreover have "0 \<le> mx" using mx by simp
    ultimately obtain ts where
      ts: "cs = map (\<lambda>a. (a, forwardedBy self msg)) ts" "n = int (length asked) + int (length ts)" "n \<le> mx" "distinct ts"
        "set ts \<subseteq> set ?falses - {?fwd}"
        "?fwd \<notin> set ?falses \<longrightarrow> length ts = min (length ?falses) (nat ((mx - int (length asked) - 0 + 1) div 2))"
      using complementLoop_result [OF rec _ order_refl of_nat_0_le_iff len mx(2)] by blast
    have neg: "\<forall>a\<in>set ts. filterSays test s ?name a = Some False"
      using ts(5) by (auto simp: findFalseAdjacentsFilter_def)
    with props(3) have "set asked \<inter> set ts = {}" by fastforce
    moreover have "filterSays test s ?name ?fwd \<noteq> Some False \<longrightarrow> ?fwd \<notin> set ?falses"
      by (simp add: findFalseAdjacentsFilter_def)
    ultimately show ?thesis
      using out ts neg props by (intro conjI exI [of _ ts]) auto
  qed
qed

lemma neighboursFileLookup_returns:
  assumes conns: "\<forall>a\<in>set (connsOrder ord). fmlookup (peerConns s) a \<noteq> None"
    and filters: "\<forall>a\<in>set (filtersOrder ord). a \<noteq> ForwarderPeer (lookupRequest msg) \<longrightarrow> fmlookup (peerConns s) a \<noteq> None"
    and mx: "0 < mx" "mx < 2 ^ 63"
  shows "\<exists>x. neighboursFileLookup test mx self ord now msg s m = Done x"
proof -
  let ?ts = "take (nat mx) (filter (askable test s msg) (connsOrder ord))"
  have "list_all (\<lambda>a. fmlookup (peerConns s) a \<noteq> None) ?ts"
    using conns set_take_subset [of "nat mx" "filter (askable test s msg) (connsOrder ord)"] by (auto simp: list_all_iff)
  then have pos: "positiveLoop test self s mx msg (connsOrder ord) 0 =
      Done (int (length ?ts), map (\<lambda>a. (a, forwardedBy self msg)) ?ts)"
    using positiveLoop_result [of 0 mx ?ts test s msg "connsOrder ord" self] mx by simp
  have "\<forall>a\<in>set (findFalseAdjacentsFilter test s (filtersOrder ord) (FileName (lookupRequest msg))).
      a \<noteq> ForwarderPeer (lookupRequest msg) \<longrightarrow> fmlookup (peerConns s) a \<noteq> None"
    using filters by (simp add: findFalseAdjacentsFilter_def)
  from complementLoop_returns [OF this] obtain n cs where
    "complementLoop (draws ord) self s mx msg 0
      (findFalseAdjacentsFilter test s (filtersOrder ord) (FileName (lookupRequest msg))) (int (length ?ts)) = Done (n, cs)"
    by (metis surj_pair)
  with pos show ?thesis by (auto simp: neighboursFileLookup_def)
qed

section \<open>A lookup dies out\<close>

lemma FileLookup_calls:
  assumes run: "FileLookup test env msg e = Done (r, calls, e')"
    and env: "0 < maxContactable env" "maxContactable env < 2 ^ 63"
      "distinct (connsOrder (orders env))" "distinct (filtersOrder (orders env))"
    and ttl: "0 \<le> TTL msg" "TTL msg < 2 ^ 63"
  shows "int (length calls) \<le> maxContactable env \<and>
    (calls \<noteq> [] \<longrightarrow> 1 < TTL msg) \<and> (\<forall>c\<in>set calls. TTL (snd c) = TTL msg - 1) \<and> SelfPeer e' = SelfPeer e \<and> adjacents e' = adjacents e"
proof -
  have w: "wrap64 (TTL msg - 1) = TTL msg - 1" using ttl by (intro wrap64_id) auto
  let ?msg = "msg\<lparr>TTL := TTL msg - 1\<rparr>"
  obtain served m1 where sv: "IsRequestAlreadyServed (requestCacheTTL env) (timeNow env) (requestsOrder env)
      (lookupRequest msg) (requestMap e) = (served, m1)" by (metis surj_pair)
  show ?thesis
  proof (cases served)
    case True
    with run sv env show ?thesis by (auto simp: FileLookup_def)
  next
    case False
    then obtain found c where found: "IsFileInCache (FileName (lookupRequest msg)) (edgeCache e) = Done (found, c)"
      using run sv by (auto simp: FileLookup_def Let_def and_then_Done_iff)
    show ?thesis
    proof (cases "\<not> found \<and> 0 < TTL msg - 1")
      case False
      with run sv \<open>\<not> served\<close> found env show ?thesis
        by (auto simp: FileLookup_def Let_def w split: if_splits)
    next
      case True
      with run sv \<open>\<not> served\<close> found obtain m2 where
        nb: "neighboursFileLookup test (maxContactable env) (SelfPeer e) (orders env) (timeNow env) ?msg (adjacents e) m1 = Done (m2, calls)"
        and e': "e' = e\<lparr>requestMap := m2, edgeCache := c\<rparr>"
        by (auto simp: FileLookup_def Let_def w and_then_Done_iff)
      from neighboursFileLookup_result [OF nb env refl] obtain ts where
        ts: "calls = map (\<lambda>a. (a, forwardedBy (SelfPeer e) ?msg)) ts" "int (length ts) \<le> maxContactable env"
        by blast
      have "TTL (snd c) = TTL msg - 1" if "c \<in> set calls" for c
        using that ts(1) by (auto simp: forwardedBy_def)
      with ts(2) True show ?thesis by (simp add: ts(1) e')
    qed
  qed
qed

text \<open>
  The messages in flight and the edges of a network. A step delivers one of the messages, whatever
  the environment of the handler; the calls it issues join the messages in flight.
\<close>

inductive lookupRun :: "('f \<Rightarrow> string \<Rightarrow> bool) \<Rightarrow> int \<Rightarrow> nat \<Rightarrow> (EdgePeer \<Rightarrow> 'f Edge) \<times> lookupCalls \<Rightarrow>
    (EdgePeer \<Rightarrow> 'f Edge) \<times> lookupCalls \<Rightarrow> bool" for test mx where
  none: "lookupRun test mx 0 st st"
| deliver: "FileLookup test env msg (net p) = Done (r, calls, e') \<Longrightarrow> maxContactable env = mx \<Longrightarrow>
    distinct (connsOrder (orders env)) \<Longrightarrow> distinct (filtersOrder (orders env)) \<Longrightarrow>
    lookupRun test mx n (net(p := e'), flight1 @ flight2 @ calls) st \<Longrightarrow>
    lookupRun test mx (Suc n) (net, flight1 @ (p, msg) # flight2) st"

definition lookupWeight :: "int \<Rightarrow> lookupCalls \<Rightarrow> nat" where
  "lookupWeight mx calls = sum_list (map (\<lambda>c. nat (mx + 1) ^ nat (TTL (snd c))) calls)"

definition ttls_ok :: "lookupCalls \<Rightarrow> bool" where
  "ttls_ok calls \<longleftrightarrow> list_all (\<lambda>c. 0 \<le> TTL (snd c) \<and> TTL (snd c) < 2 ^ 63) calls"

lemma sum_list_const: "\<forall>x\<in>set xs. f x = (c::nat) \<Longrightarrow> sum_list (map f xs) = length xs * c"
  by (induction xs) auto

lemma lookupWeight_calls:
  assumes "0 < mx" and "int (length calls) \<le> mx" and "calls \<noteq> [] \<longrightarrow> 1 < TTL msg"
    and "\<forall>c\<in>set calls. TTL (snd c) = TTL msg - 1" and "0 \<le> TTL msg"
  shows "lookupWeight mx calls < nat (mx + 1) ^ nat (TTL msg)"
proof (cases "calls = []")
  case True
  with assms show ?thesis by (simp add: lookupWeight_def)
next
  case False
  with assms obtain k where k: "nat (TTL msg) = Suc k" by (cases "nat (TTL msg)") auto
  then have "nat (TTL msg - 1) = k" by simp
  with assms have "\<forall>c\<in>set calls. nat (mx + 1) ^ nat (TTL (snd c)) = nat (mx + 1) ^ k" by simp
  then have "lookupWeight mx calls = length calls * nat (mx + 1) ^ k"
    unfolding lookupWeight_def by (rule sum_list_const)
  also have "\<dots> < nat (mx + 1) * nat (mx + 1) ^ k" using assms(1,2) by (intro mult_less_mono1) auto
  finally show ?thesis by (simp add: k)
qed

lemma lookupRun_bound:
  assumes "lookupRun test mx n st st'" and "0 < mx" and "mx < 2 ^ 63" and "ttls_ok (snd st)"
  shows "n + lookupWeight mx (snd st') \<le> lookupWeight mx (snd st)"
  using assms(1,4)
proof (induction)
  case (none st)
  then show ?case by simp
next
  case (deliver env msg net p r calls e' n flight1 flight2 st)
  have ttl: "0 \<le> TTL msg" "TTL msg < 2 ^ 63" using deliver.prems by (auto simp: ttls_ok_def)
  note calls = FileLookup_calls [OF deliver(1) _ _ deliver(3,4) ttl, unfolded deliver(2), OF assms(2,3)]
  have "ttls_ok (flight1 @ flight2 @ calls)"
    using deliver.prems calls ttl by (auto simp: ttls_ok_def list_all_iff)
  with deliver.IH have IH: "n + lookupWeight mx (snd st) \<le> lookupWeight mx (flight1 @ flight2 @ calls)" by simp
  have "lookupWeight mx calls < nat (mx + 1) ^ nat (TTL msg)"
    using calls by (intro lookupWeight_calls [OF assms(2)]) (auto simp: ttl)
  with IH show ?case by (simp add: lookupWeight_def)
qed

section \<open>A deletion does not\<close>

definition positives :: "('f \<Rightarrow> string \<Rightarrow> bool) \<Rightarrow> string \<Rightarrow> 'f AdjacentPeers \<Rightarrow> EdgePeer fset" where
  "positives test name s = ffilter (\<lambda>a. filterSays test s name a = Some True) (fmdom (peerConns s))"

lemma deletionLoop_result:
  assumes "\<forall>a\<in>set ks. fmlookup (peerConns s) a \<noteq> None"
  shows "deletionLoop test self s msg ks =
    Done (map (\<lambda>a. (a, msg\<lparr>ForwarderPeer := self\<rparr>))
      (filter (\<lambda>a. filterSays test s (FileName msg) a = Some True \<and> a \<noteq> ForwarderPeer msg) ks))"
  using assms
  by (induction ks) (auto simp: contactNeighbourForFileDeletion_def split: option.splits)

lemma DeleteFile_calls:
  assumes run: "DeleteFile test now ks msg e fs = Done (calls, e', fs')" and ks: "enumerates ks (peerConns (adjacents e))"
  shows "fcard (positives test (FileName msg) (adjacents e)) \<le> Suc (length calls) \<and>
    adjacents e' = adjacents e \<and> (\<forall>c\<in>set calls. FileName (snd c) = FileName msg)"
proof -
  let ?P = "positives test (FileName msg) (adjacents e)"
  let ?ts = "filter (\<lambda>a. filterSays test (adjacents e) (FileName msg) a = Some True \<and> a \<noteq> ForwarderPeer msg) ks"
  have ok: "\<forall>a\<in>set ks. fmlookup (peerConns (adjacents e)) a \<noteq> None" using enumeratesD [OF ks] by auto
  from run have calls: "calls = map (\<lambda>a. (a, msg\<lparr>ForwarderPeer := SelfPeer e\<rparr>)) ?ts" and e': "adjacents e' = adjacents e"
    by (auto simp: DeleteFile_def notifyFileDeletion_def and_then_Done_iff deletionLoop_result ok)
  have dk: "distinct ?ts" using ks by (simp add: enumerates_def)
  have "fset ?P \<subseteq> insert (ForwarderPeer msg) (set ?ts)"
    using ks by (auto simp: positives_def enumerates_def fmdom'_alt_def)
  then have "card (fset ?P) \<le> card (insert (ForwarderPeer msg) (set ?ts))" by (intro card_mono) auto
  also have "\<dots> \<le> Suc (card (set ?ts))" by (simp add: card_insert_if)
  also have "card (set ?ts) = length ?ts" using dk by (rule distinct_card)
  finally have "fcard ?P \<le> Suc (length calls)" by (simp add: calls fcard.rep_eq)
  with calls e' show ?thesis by auto
qed

inductive deleteRun :: "('f \<Rightarrow> string \<Rightarrow> bool) \<Rightarrow> nat \<Rightarrow> (EdgePeer \<Rightarrow> 'f Edge) \<times> deleteCalls \<Rightarrow>
    (EdgePeer \<Rightarrow> 'f Edge) \<times> deleteCalls \<Rightarrow> bool" for test where
  none: "deleteRun test 0 st st"
| deliver: "DeleteFile test now ks msg (net p) fs = Done (calls, e', fs') \<Longrightarrow>
    enumerates ks (peerConns (adjacents (net p))) \<Longrightarrow>
    deleteRun test n (net(p := e'), flight1 @ flight2 @ calls) st \<Longrightarrow>
    deleteRun test (Suc n) (net, flight1 @ (p, msg) # flight2) st"

lemma deleteRun_grows:
  assumes "deleteRun test n st st'" and "2 \<le> d"
    and "\<forall>p. d \<le> fcard (positives test name (adjacents (fst st p)))" and "list_all (\<lambda>c. FileName (snd c) = name) (snd st)"
  shows "length (snd st) + n * (d - 2) \<le> length (snd st')"
  using assms(1,3,4)
proof (induction)
  case (none st)
  then show ?case by simp
next
  case (deliver now ks msg net p fs calls e' fs' n flight1 flight2 st)
  have name: "FileName msg = name" using deliver.prems(2) by simp
  note calls = DeleteFile_calls [OF deliver(1,2)]
  have "d \<le> Suc (length calls)" using calls deliver.prems(1) by (auto simp: name intro: order_trans)
  moreover have "\<forall>q. d \<le> fcard (positives test name (adjacents ((net(p := e')) q)))"
    using calls deliver.prems(1) by simp
  then have "length (flight1 @ flight2 @ calls) + n * (d - 2) \<le> length (snd st)"
    using deliver.IH deliver.prems(2) calls name by (auto simp: list_all_iff)
  ultimately show ?case using assms(2) by auto
qed

section \<open>Properties\<close>

lemma neighboursFileLookup_neighbours:
  assumes "enumerates (connsOrder ord) (peerConns s)" and "enumerates (filtersOrder ord) (filterMap s)"
    and "fmdom (filterMap s) |\<subseteq>| fmdom (peerConns s)" and "0 < mx" and "mx < 2 ^ 63"
    and asked: "asked = take (nat mx) (filter (askable test s msg) (connsOrder ord))"
  shows "\<exists>extra. neighboursFileLookup test mx self ord now msg s m =
      Done (AddRequestInCache now (lookupRequest msg) m, map (\<lambda>a. (a, forwardedBy self msg)) (asked @ extra)) \<and>
    int (length (asked @ extra)) \<le> mx \<and> distinct (asked @ extra) \<and>
    ForwarderPeer (lookupRequest msg) \<notin> set (asked @ extra) \<and>
    (filterSays test s (FileName (lookupRequest msg)) (ForwarderPeer (lookupRequest msg)) \<noteq> Some False \<longrightarrow>
      length extra = min (length (findFalseAdjacentsFilter test s (filtersOrder ord) (FileName (lookupRequest msg))))
        (nat ((mx - int (length asked) + 1) div 2)))"
proof -
  have conns: "\<forall>a\<in>set (connsOrder ord). fmlookup (peerConns s) a \<noteq> None"
    using enumeratesD [OF assms(1)] by auto
  have "a |\<in>| fmdom (peerConns s)" if "a \<in> set (filtersOrder ord)" for a
    using enumeratesD [OF assms(2) that] assms(3) by (elim exE) (rule fsubsetD, assumption, rule fmdomI)
  then have filters: "\<forall>a\<in>set (filtersOrder ord). a \<noteq> ForwarderPeer (lookupRequest msg) \<longrightarrow> fmlookup (peerConns s) a \<noteq> None"
    by (metis fmlookup_dom_iff option.distinct(1))
  obtain m' calls where run: "neighboursFileLookup test mx self ord now msg s m = Done (m', calls)"
    using neighboursFileLookup_returns [OF conns filters assms(4,5)] by (metis surj_pair)
  have "distinct (connsOrder ord)" "distinct (filtersOrder ord)" using assms(1,2) by (simp_all add: enumerates_def)
  from neighboursFileLookup_result [OF run assms(4,5) this asked] show ?thesis unfolding run by blast
qed

lemma no_positive_filter:
  assumes fs: "enumerates (filtersOrder ord) (filterMap s)"
    and neg: "list_all (\<lambda>a. filterSays test s (FileName (lookupRequest msg)) a = Some False) (filtersOrder ord)"
  shows "filter (askable test s msg) (connsOrder ord) = []"
    and "findFalseAdjacentsFilter test s (filtersOrder ord) (FileName (lookupRequest msg)) = filtersOrder ord"
    and "a \<notin> set (filtersOrder ord) \<Longrightarrow> filterSays test s (FileName (lookupRequest msg)) a = None"
proof -
  have known: "filterSays test s (FileName (lookupRequest msg)) b = None \<or> b \<in> set (filtersOrder ord)" for b
    using fs by (auto simp: filterSays_def enumerates_def fmlookup_dom'_iff)
  have "filterSays test s (FileName (lookupRequest msg)) b \<noteq> Some True" for b
  proof (cases "b \<in> set (filtersOrder ord)")
    case True
    with neg show ?thesis unfolding list_all_iff by fastforce
  next
    case False
    with known [of b] show ?thesis by simp
  qed
  then show "filter (askable test s msg) (connsOrder ord) = []" by (simp add: askable_def)
  show "findFalseAdjacentsFilter test s (filtersOrder ord) (FileName (lookupRequest msg)) = filtersOrder ord"
    using neg by (simp add: findFalseAdjacentsFilter_def list_all_iff)
  show "a \<notin> set (filtersOrder ord) \<Longrightarrow> filterSays test s (FileName (lookupRequest msg)) a = None"
    using known by blast
qed

text \<open>C9: when every peer that sent a filter is connected, a search returns: it asks different neighbours, not
  the one the request came from and no more than the limit, first those with a positive filter; the
  request is recorded.\<close>

theorem neighboursFileLookup_asks:
  assumes "enumerates (connsOrder ord) (peerConns s)" and "enumerates (filtersOrder ord) (filterMap s)"
    and "fmdom (filterMap s) |\<subseteq>| fmdom (peerConns s)" and "0 < mx" and "mx < 2 ^ 63"
  shows "\<exists>extra asked. neighboursFileLookup test mx self ord now msg s m =
      Done (AddRequestInCache now (lookupRequest msg) m, map (\<lambda>a. (a, forwardedBy self msg)) (asked @ extra)) \<and>
    asked = take (nat mx) (filter (askable test s msg) (connsOrder ord)) \<and>
    int (length (asked @ extra)) \<le> mx \<and> distinct (asked @ extra) \<and>
    ForwarderPeer (lookupRequest msg) \<notin> set (asked @ extra)"
  using neighboursFileLookup_neighbours [OF assms refl] by blast

definition boolTest :: "bool \<Rightarrow> string \<Rightarrow> bool" where
  "boolTest f name = f"

definition pP :: EdgePeer where "pP = EdgePeer ''p''"
definition pQ :: EdgePeer where "pQ = EdgePeer ''q''"
definition pR :: EdgePeer where "pR = EdgePeer ''r''"

lemma pqr [simp]: "pP \<noteq> pQ" "pP \<noteq> pR" "pQ \<noteq> pR" "pQ \<noteq> pP" "pR \<noteq> pP" "pR \<noteq> pQ"
  by (simp_all add: pP_def pQ_def pR_def)

definition starNet :: "bool \<Rightarrow> bool AdjacentPeers" where
  "starNet b = \<lparr>peerConns = fmupd pP \<lparr>peerConnection = 0, missedPing = 0\<rparr> (fmupd pQ \<lparr>peerConnection = 1, missedPing = 0\<rparr>
      (fmupd pR \<lparr>peerConnection = 2, missedPing = 0\<rparr> fmempty)),
     filterMap = fmupd pP b (fmupd pQ b (fmupd pR b fmempty)), clients = [True, True, True], registryClient = None\<rparr>"

definition starOrders :: lookupOrders where
  "starOrders = \<lparr>connsOrder = [pP, pQ, pR], filtersOrder = [pP, pQ, pR], draws = (\<lambda>_. 0)\<rparr>"

definition starMsg :: FileLookupMessage where
  "starMsg = \<lparr>lookupRequest = \<lparr>FileName = ''f'', RequestId = ''1'', ForwarderPeer = EdgePeer ''o''\<rparr>, TTL = 2, CallbackServer = ''cb''\<rparr>"

lemma starNet_orders:
  "enumerates (connsOrder starOrders) (peerConns (starNet b))"
  "enumerates (filtersOrder starOrders) (filterMap (starNet b))"
  "fmdom (filterMap (starNet b)) |\<subseteq>| fmdom (peerConns (starNet b))"
  "filterSays boolTest (starNet b) name a = (if a = pP \<or> a = pQ \<or> a = pR then Some b else None)"
  by (auto simp: starOrders_def starNet_def enumerates_def filterSays_def boolTest_def)

theorem neighboursFileLookup_asks_witness:
  "\<exists>calls m'. neighboursFileLookup boolTest 2 (EdgePeer ''s'') starOrders 9 starMsg (starNet True) fmempty = Done (m', calls) \<and>
     length calls = 2"
proof -
  have "filter (askable boolTest (starNet True) starMsg) (connsOrder starOrders) = [pP, pQ, pR]"
    by (simp add: starOrders_def askable_def starNet_orders) (simp add: starMsg_def pP_def pQ_def pR_def)
  with neighboursFileLookup_asks [where mx = 2 and test = boolTest and self = "EdgePeer ''s''"
      and now = 9 and msg = starMsg and m = fmempty, OF starNet_orders(1-3) [of True]]
  obtain extra where *: "neighboursFileLookup boolTest 2 (EdgePeer ''s'') starOrders 9 starMsg (starNet True) fmempty =
      Done (AddRequestInCache 9 (lookupRequest starMsg) fmempty, map (\<lambda>a. (a, forwardedBy (EdgePeer ''s'') starMsg)) ([pP, pQ] @ extra))"
    "int (length ([pP, pQ] @ extra)) \<le> 2" by auto
  then show ?thesis by simp
qed

text \<open>When no filter is positive, at most half of the permitted neighbours are asked, rounded up, although
  more are there: the loop counter and the number of contacts run towards each other.\<close>

theorem complement_halved:
  assumes "enumerates (connsOrder ord) (peerConns s)" and "enumerates (filtersOrder ord) (filterMap s)"
    and "fmdom (filterMap s) |\<subseteq>| fmdom (peerConns s)" and "0 < mx" and "mx < 2 ^ 63"
    and neg: "list_all (\<lambda>a. filterSays test s (FileName (lookupRequest msg)) a = Some False) (filtersOrder ord)"
    and fwd: "ForwarderPeer (lookupRequest msg) \<notin> set (filtersOrder ord)"
  shows "\<exists>calls m'. neighboursFileLookup test mx self ord now msg s m = Done (m', calls) \<and>
    length calls = min (length (filtersOrder ord)) (nat ((mx + 1) div 2))"
proof -
  note none = no_positive_filter [OF assms(2) neg]
  have "filterSays test s (FileName (lookupRequest msg)) (ForwarderPeer (lookupRequest msg)) \<noteq> Some False"
    using none(3) [OF fwd] by simp
  moreover have nil: "[] = take (nat mx) (filter (askable test s msg) (connsOrder ord))" by (simp add: none(1))
  moreover obtain extra where
    "neighboursFileLookup test mx self ord now msg s m =
      Done (AddRequestInCache now (lookupRequest msg) m, map (\<lambda>a. (a, forwardedBy self msg)) ([] @ extra))"
    "filterSays test s (FileName (lookupRequest msg)) (ForwarderPeer (lookupRequest msg)) \<noteq> Some False \<longrightarrow>
      length extra = min (length (findFalseAdjacentsFilter test s (filtersOrder ord) (FileName (lookupRequest msg))))
        (nat ((mx - int (length ([] :: EdgePeer list)) + 1) div 2))"
    using neighboursFileLookup_neighbours [where msg = msg and test = test and self = self and now = now and m = m, OF assms(1-5) nil]
    by blast
  ultimately show ?thesis by (simp add: none(2))
qed

theorem complement_halved_witness:
  "\<exists>calls m'. neighboursFileLookup boolTest 3 (EdgePeer ''s'') starOrders 9 starMsg (starNet False) fmempty = Done (m', calls) \<and>
     length calls = 2"
proof -
  have "list_all (\<lambda>a. filterSays boolTest (starNet False) (FileName (lookupRequest starMsg)) a = Some False) (filtersOrder starOrders)"
    by (simp add: starNet_orders) (simp add: starOrders_def)
  moreover have "ForwarderPeer (lookupRequest starMsg) \<notin> set (filtersOrder starOrders)" "length (filtersOrder starOrders) = 3"
    by (simp_all add: starOrders_def starMsg_def pP_def pQ_def pR_def)
  ultimately show ?thesis
    using complement_halved [where mx = 3 and test = boolTest and msg = starMsg
      and self = "EdgePeer ''s''" and now = 9 and m = fmempty, OF starNet_orders(1-3) [of False]] by simp
qed

text \<open>A peer that is not a neighbour can send its filter all the same; from then on a lookup that finds
  no positive filter can draw this peer and panics on its missing connection.\<close>

theorem stranger_filter_panics:
  assumes stranger: "fmlookup (peerConns s) p = None" and notify: "NotifyBloomFilter decode p b s = (True, s')"
    and "enumerates (connsOrder ord) (peerConns s')" and fs: "enumerates (filtersOrder ord) (filterMap s')"
    and neg: "list_all (\<lambda>a. filterSays test s' (FileName (lookupRequest msg)) a = Some False) (filtersOrder ord)"
    and "p \<noteq> ForwarderPeer (lookupRequest msg)" and "0 < mx" and "mx < 2 ^ 63"
  shows "\<exists>rnd. neighboursFileLookup test mx self (ord\<lparr>draws := rnd\<rparr>) now msg s' m = Panicked"
proof -
  note none = no_positive_filter [OF fs neg]
  obtain f where s': "s' = s\<lparr>filterMap := fmupd p f (filterMap s)\<rparr>"
    using notify by (auto simp: NotifyBloomFilter_def split: option.splits)
  have conn: "fmlookup (peerConns s') p = None" using stranger by (simp add: s')
  have "p \<in> set (filtersOrder ord)" using enumerates_mem [OF fs, of p] by (simp add: s')
  then obtain i where i: "i < length (filtersOrder ord)" "filtersOrder ord ! i = p"
    by (auto simp: in_set_conv_nth)
  have contact: "contactNeighbourForFileDownload self s' msg p = Panicked"
    using conn assms(6) by (simp add: contact_result)
  have pos: "positiveLoop test self s' mx msg (connsOrder ord) 0 = Done (0, [])"
    using positiveLoop_result [of 0 mx "[]" test s' msg "connsOrder ord" self] none(1) assms(7,8) by simp
  have "wrap64 (mx - 0) = mx" using assms(7,8) by (subst wrap64_id) auto
  then have "complementLoop (\<lambda>_. i) self s' mx msg 0 (filtersOrder ord) 0 = Panicked"
    using i contact assms(7) by (subst complementLoop.simps) (auto simp: Let_def)
  then show ?thesis
    using pos assms(7) by (intro exI [of _ "\<lambda>_. i"]) (simp add: neighboursFileLookup_def none(2))
qed

theorem stranger_filter_panics_witness:
  "\<exists>rnd. neighboursFileLookup boolTest 3 (EdgePeer ''s'') (\<lparr>connsOrder = [], filtersOrder = [pP], draws = rnd\<rparr>) 9 starMsg
     (snd (NotifyBloomFilter Some pP False adjacentsMap)) fmempty = Panicked"
proof -
  let ?s = "snd (NotifyBloomFilter Some pP False adjacentsMap)"
  have s: "NotifyBloomFilter Some pP False adjacentsMap = (True, ?s)" by (simp add: NotifyBloomFilter_def)
  have orders: "enumerates (connsOrder \<lparr>connsOrder = [], filtersOrder = [pP], draws = \<lambda>_. 0\<rparr>) (peerConns ?s)"
    "enumerates (filtersOrder \<lparr>connsOrder = [], filtersOrder = [pP], draws = \<lambda>_. 0\<rparr>) (filterMap ?s)"
    by (simp_all add: NotifyBloomFilter_def adjacentsMap_def enumerates_def)
  have neg: "list_all (\<lambda>a. filterSays boolTest ?s (FileName (lookupRequest starMsg)) a = Some False)
      (filtersOrder \<lparr>connsOrder = [], filtersOrder = [pP], draws = \<lambda>_. 0\<rparr>)"
    by (simp add: NotifyBloomFilter_def adjacentsMap_def filterSays_def boolTest_def, rule exI [of _ False], simp)
  have p: "fmlookup (peerConns (adjacentsMap :: bool AdjacentPeers)) pP = None" "pP \<noteq> ForwarderPeer (lookupRequest starMsg)"
    by (simp_all add: adjacentsMap_def starMsg_def pP_def)
  show ?thesis
    using stranger_filter_panics [OF p(1) s orders neg p(2), of 3 "EdgePeer ''s''" 9 fmempty, unfolded lookupOrders.update_convs]
    by simp
qed

text \<open>C13: a lookup dies out in every network: from given messages in flight, at most the sum of the powers
  (limit + 1) ^ TTL many can ever be handled.\<close>

theorem lookup_dies_out:
  assumes "lookupRun test mx n st st'" and "0 < mx" and "mx < 2 ^ 63" and "ttls_ok (snd st)"
  shows "n \<le> lookupWeight mx (snd st)"
  using lookupRun_bound [OF assms] by simp

definition starEdge :: "bool \<Rightarrow> bool Edge" where
  "starEdge b = \<lparr>SelfPeer = EdgePeer ''s'', peerFileServer = \<lparr>IpAddr = ''s:1''\<rparr>, edgeCache = selfCache, requestMap = fmempty,
     adjacents = starNet b\<rparr>"

definition starEnv :: lookupEnv where
  "starEnv = \<lparr>requestCacheTTL = 60, maxContactable = 2, timeNow = 9, requestsOrder = [], orders = starOrders,
     callbackConnects = True, callbackSends = True\<rparr>"

lemma starEnv_fields [simp]:
  "maxContactable starEnv = 2" "orders starEnv = starOrders" "requestsOrder starEnv = []"
  "distinct (connsOrder starOrders)" "distinct (filtersOrder starOrders)"
  by (simp_all add: starEnv_def starOrders_def)

lemma starEdge_lookup:
  "\<exists>r calls e'. FileLookup boolTest starEnv starMsg (starEdge True) = Done (r, calls, e') \<and> length calls = 2"
proof -
  have ttl: "wrap64 (TTL starMsg - 1) = 1" by (simp add: starMsg_def wrap64_id)
  let ?m = "fmupd (lookupRequest starMsg) (timeNow starEnv) fmempty"
  let ?msg = "starMsg\<lparr>TTL := 1\<rparr>"
  have ts: "filter (askable boolTest (starNet True) ?msg) (connsOrder starOrders) = [pP, pQ, pR]"
    by (simp add: starOrders_def askable_def starNet_orders) (simp add: starMsg_def pP_def pQ_def pR_def)
  have "positiveLoop boolTest (EdgePeer ''s'') (starNet True) 2 ?msg (connsOrder starOrders) 0 =
      Done (2, map (\<lambda>a. (a, forwardedBy (EdgePeer ''s'') ?msg)) [pP, pQ])"
    using positiveLoop_result [of 0 2 "[pP, pQ]" boolTest "starNet True" ?msg "connsOrder starOrders" "EdgePeer ''s''"]
    by (simp add: ts) (simp add: starNet_def)
  then have "neighboursFileLookup boolTest 2 (EdgePeer ''s'') starOrders (timeNow starEnv) ?msg (starNet True) ?m =
      Done (AddRequestInCache (timeNow starEnv) (lookupRequest ?msg) ?m, map (\<lambda>a. (a, forwardedBy (EdgePeer ''s'') ?msg)) [pP, pQ])"
    by (simp add: neighboursFileLookup_def)
  then show ?thesis
    by (simp add: FileLookup_def IsRequestAlreadyServed_def starEdge_def IsFileInCache_def selfCache_def ttl)
qed

theorem lookup_dies_out_witness:
  "\<exists>st'. lookupRun boolTest 2 1 (\<lambda>_. starEdge True, [(pP, starMsg)]) st' \<and> length (snd st') = 2 \<and>
     1 \<le> lookupWeight 2 [(pP, starMsg)]"
proof -
  obtain r calls e' where lk: "FileLookup boolTest starEnv starMsg (starEdge True) = Done (r, calls, e')"
    and len: "length calls = 2" using starEdge_lookup by blast
  have run: "lookupRun boolTest 2 1 (\<lambda>_. starEdge True, [(pP, starMsg)]) ((\<lambda>_. starEdge True)(pP := e'), calls)"
    using lookupRun.deliver [where test = boolTest and mx = 2 and ?flight1.0 = "[]" and ?flight2.0 = "[]" and n = 0 and p = pP and net = "\<lambda>_. starEdge True",
        OF lk starEnv_fields(1), unfolded starEnv_fields append_Nil, OF starEnv_fields(4,5) lookupRun.none] by simp
  have "ttls_ok (snd (\<lambda>_ :: EdgePeer. starEdge True, [(pP, starMsg)]))" by (simp add: ttls_ok_def starMsg_def)
  from lookup_dies_out [OF run _ _ this] run len show ?thesis by auto
qed

text \<open>C14: the announcement of a deletion does not: with at least d neighbours that look as if they had the
  file (two are enough), every message handled is replaced by d - 1 others at least, so that the
  messages in flight never end, and multiply when d is three or more.\<close>

theorem delete_flood_grows:
  assumes "deleteRun test n st st'" and "2 \<le> d"
    and "\<And>p. d \<le> fcard (positives test name (adjacents (fst st p)))"
    and "list_all (\<lambda>c. FileName (snd c) = name) (snd st)"
  shows "length (snd st) + n * (d - 2) \<le> length (snd st')"
  using deleteRun_grows [OF assms(1,2) _ assms(4)] assms(3) by blast

theorem delete_flood_grows_witness:
  "\<exists>st'. deleteRun boolTest 1 (\<lambda>_. starEdge True, [(pP, \<lparr>FileName = ''f'', RequestId = ''1'', ForwarderPeer = EdgePeer ''o''\<rparr>)]) st' \<and>
     2 \<le> length (snd st')"
proof -
  let ?msg = "\<lparr>FileName = ''f'', RequestId = ''1'', ForwarderPeer = EdgePeer ''o''\<rparr>"
  let ?fs = "plain_disk []"
  have conns: "\<forall>a\<in>set [pP, pQ, pR]. fmlookup (peerConns (starNet True)) a \<noteq> None" by (simp add: starNet_def)
  obtain calls e' where del: "DeleteFile boolTest 9 [pP, pQ, pR] ?msg (starEdge True) ?fs = Done (calls, e', ?fs)"
    using deletionLoop_result [OF conns, of boolTest "EdgePeer ''s''" ?msg]
    by (simp add: DeleteFile_def notifyFileDeletion_def starEdge_def IsFileInCache_def selfCache_def)
  have ks: "enumerates [pP, pQ, pR] (peerConns (adjacents (starEdge True)))"
    using starNet_orders(1) [of True] by (simp add: starEdge_def starOrders_def)
  have run: "deleteRun boolTest 1 (\<lambda>_. starEdge True, [(pP, ?msg)]) ((\<lambda>_. starEdge True)(pP := e'), calls)"
    using deleteRun.deliver [where test = boolTest and ?flight1.0 = "[]" and ?flight2.0 = "[]" and n = 0 and p = pP and net = "\<lambda>_. starEdge True",
        OF del ks, unfolded append_Nil, OF deleteRun.none] by simp
  have pos: "positives boolTest ''f'' (adjacents (starEdge True)) = {|pP, pQ, pR|}"
    by (auto simp: positives_def starEdge_def starNet_orders) (auto simp: starNet_def)
  have "fcard (positives boolTest ''f'' (adjacents (starEdge True))) = 3" by (simp add: pos fcard_finsert_if)
  then have "3 \<le> fcard (positives boolTest ''f'' (adjacents (fst (\<lambda>_ :: EdgePeer. starEdge True, [(pP, ?msg)]) p)))" for p by simp
  from delete_flood_grows [OF run _ this] run show ?thesis by fastforce
qed

text \<open>A request counts as served exactly if one with the same name and identifier was recorded and has
  not expired, whoever forwarded it; expired records go, and the request itself is recorded unless an
  expired record of it was there.\<close>

theorem IsRequestAlreadyServed_spec:
  assumes "enumerates ks m"
  shows "(fst (IsRequestAlreadyServed ttl now ks req m) \<longleftrightarrow>
      (\<exists>r t. fmlookup m r = Some t \<and> \<not> requestExpired ttl now t \<and> sameRequest r req)) \<and>
    fmlookup (snd (IsRequestAlreadyServed ttl now ks req m)) k =
      (case fmlookup m k of
         Some t \<Rightarrow> if requestExpired ttl now t then None else Some (if k = req then now else t)
       | None \<Rightarrow> if k = req then Some now else None)"
  using IsRequestAlreadyServed_result [OF assms] .

theorem IsRequestAlreadyServed_spec_witness:
  "fst (IsRequestAlreadyServed 60 5 [] (lookupRequest starMsg) fmempty) = False \<and>
   fmlookup (snd (IsRequestAlreadyServed 60 5 [] (lookupRequest starMsg) fmempty)) (lookupRequest starMsg) = Some 5"
  using IsRequestAlreadyServed_spec [of "[]" fmempty 60 5 "lookupRequest starMsg" "lookupRequest starMsg"]
  by (simp add: enumerates_Nil_iff)

end
