(* ===== verification/LookupAnswers.thy ===== *)
theory LookupAnswers
  imports Lookup Json Config
begin

text \<open>
  The server that the answers to a search come back to, \<^verbatim>\<open>edge/peer/lookup_server.go\<close>: a UDP socket of
  the edge that searches. The owner of the file sends its address and the size of the file as a JSON
  text in one datagram. The network and \<^verbatim>\<open>json.Unmarshal\<close> are parameters.
\<close>

section \<open>The server\<close>

record LookupServer =
  UdpAddr :: string
  connOpen :: bool
  serverClosed :: bool

definition CreateLookupServer :: "ipAddress list option \<Rightarrow> (string \<Rightarrow> string option) \<Rightarrow> (string \<Rightarrow> string option) \<Rightarrow>
    LookupServer option" where
  \<comment> \<open>\<open>ListenUDP\<close> gives the local address of the socket\<close>
  "CreateLookupServer interfaceAddrs ResolveUDPAddr ListenUDP =
     (case GetMyIPAddr interfaceAddrs of
        None \<Rightarrow> None
      | Some ipAddr \<Rightarrow>
          (case ResolveUDPAddr (ipAddr @ '':0'') of
             None \<Rightarrow> None
           | Some udpAddr \<Rightarrow>
               (case ListenUDP udpAddr of
                  None \<Rightarrow> None
                | Some localAddr \<Rightarrow> Some \<lparr>UdpAddr = localAddr, connOpen = True, serverClosed = False\<rparr>)))"

definition CloseServer :: "LookupServer \<Rightarrow> LookupServer" where
  "CloseServer server = server\<lparr>serverClosed := True, connOpen := False\<rparr>"

definition ConnectToLookupServer :: "(string \<Rightarrow> string option) \<Rightarrow> (string \<Rightarrow> bool) \<Rightarrow> string \<Rightarrow> LookupServer option" where
  "ConnectToLookupServer ResolveUDPAddr dialUDP ipAddr =
     (case ResolveUDPAddr ipAddr of
        None \<Rightarrow> None
      | Some udpAddr \<Rightarrow>
          if dialUDP udpAddr then Some \<lparr>UdpAddr = udpAddr, connOpen = True, serverClosed = False\<rparr> else None)"

section \<open>Answers\<close>

definition responseJson :: "FileLookupResponse \<Rightarrow> string" where
  "responseJson r = ''{'' @ jsonString ''OwnerEdge'' @ '':{'' @ jsonString ''IpAddr'' @ '':'' @
     jsonString (IpAddr (OwnerEdge r)) @ ''},'' @ jsonString ''FileSize'' @ '':'' @ FormatInt (FileSize r) @ ''}''"

text \<open>The datagram that leaves, unless the write fails.\<close>

definition SendToServer :: "bool \<Rightarrow> FileLookupResponse \<Rightarrow> LookupServer \<Rightarrow> string option" where
  "SendToServer writes fileLookupResponse server =
     (if connOpen server \<and> writes then Some (responseJson fileLookupResponse) else None)"

definition datagramBuffer :: nat where
  "datagramBuffer = 128"

datatype udpRead = Datagram string | ReadError

datatype serverRead = ReadFailed | NoResponse | Response FileLookupResponse

text \<open>A datagram that does not fit in the buffer is cut.\<close>

definition readFromChannel :: "(string \<Rightarrow> FileLookupResponse option) \<Rightarrow> bool \<Rightarrow> udpRead \<Rightarrow> serverRead" where
  "readFromChannel Unmarshal shut received =
     (case received of
        ReadError \<Rightarrow> if \<not> shut then ReadFailed else NoResponse
      | Datagram d \<Rightarrow>
          (case Unmarshal (take datagramBuffer d) of None \<Rightarrow> ReadFailed | Some r \<Rightarrow> Response r))"

text \<open>
  The reads of the goroutine, each with whether the server is closed by then; the result is what it puts
  on the callback channel and whether it has closed the channel.
\<close>

fun ReadFromServer :: "(string \<Rightarrow> FileLookupResponse option) \<Rightarrow> (udpRead \<times> bool) list \<Rightarrow> FileLookupResponse list \<times> bool" where
  "ReadFromServer Unmarshal [] = ([], False)"
| "ReadFromServer Unmarshal ((received, shut) # evs) =
     (let response = readFromChannel Unmarshal shut received in
      if shut then ([], True)
      else case response of
        Response r \<Rightarrow> (let (rs, ends) = ReadFromServer Unmarshal evs in (r # rs, ends))
      | _ \<Rightarrow> ReadFromServer Unmarshal evs)"

section \<open>Reading an answer back\<close>

text \<open>What \<^verbatim>\<open>json.Unmarshal\<close> does on the texts that \<^verbatim>\<open>json.Marshal\<close> writes here.\<close>

definition readResponse :: "string \<Rightarrow> FileLookupResponse option" where
  "readResponse s =
     (case stripPrefix (''{'' @ jsonString ''OwnerEdge'' @ '':{'' @ jsonString ''IpAddr'' @ '':'' @ [CHR 0x22]) s of
        None \<Rightarrow> None
      | Some r1 \<Rightarrow>
          (case jsonUnescape r1 of
             None \<Rightarrow> None
           | Some (addr, r2) \<Rightarrow>
               (case stripPrefix (''},'' @ jsonString ''FileSize'' @ '':'') r2 of
                  None \<Rightarrow> None
                | Some r3 \<Rightarrow>
                    if r3 \<noteq> [] \<and> last r3 = CHR ''}''
                    then map_option (\<lambda>n. \<lparr>OwnerEdge = \<lparr>IpAddr = addr\<rparr>, FileSize = n\<rparr>) (ParseInt (butlast r3))
                    else None)))"

lemma readResponse_responseJson:
  assumes "in_int64 (FileSize r)"
  shows "readResponse (responseJson r) = Some r"
proof -
  let ?pre = "''{'' @ jsonString ''OwnerEdge'' @ '':{'' @ jsonString ''IpAddr'' @ '':'' @ [CHR 0x22]"
  let ?mid = "''},'' @ jsonString ''FileSize'' @ '':''"
  have "responseJson r = ?pre @ concat (map jsonChar (IpAddr (OwnerEdge r))) @ CHR 0x22 # ?mid @ FormatInt (FileSize r) @ ''}''"
    by (simp add: responseJson_def jsonString_def)
  then show ?thesis
    unfolding readResponse_def using stripPrefix_append [of ?pre] stripPrefix_append [of ?mid]
    by (simp only: option.case prod.case jsonUnescape_string) (simp add: ParseInt_FormatInt [OF assms])
qed

lemma length_digits: "n < 10 ^ Suc k \<Longrightarrow> length (digits n) \<le> Suc k"
proof (induction k arbitrary: n)
  case 0
  then show ?case by (simp add: digits.simps [of n])
next
  case (Suc k)
  show ?case
  proof (cases "n < 10")
    case True
    then show ?thesis by (simp add: digits.simps [of n])
  next
    case False
    have "n div 10 < 10 ^ Suc k" using Suc.prems by (simp add: less_mult_imp_div_less)
    from Suc.IH [OF this] False show ?thesis by (simp add: digits.simps [of n])
  qed
qed

lemma length_FormatInt: "in_int64 n \<Longrightarrow> length (FormatInt n) \<le> 20"
  using length_digits [of "nat (- n)" 18] length_digits [of "nat n" 18]
  by (auto simp: FormatInt_def nat_less_iff)

lemma responseJson_fits:
  assumes "length (jsonString (IpAddr (OwnerEdge r))) \<le> 23" and "in_int64 (FileSize r)"
  shows "length (responseJson r) \<le> datagramBuffer"
proof -
  have "length (jsonString ''OwnerEdge'') = 11" "length (jsonString ''IpAddr'') = 8" "length (jsonString ''FileSize'') = 10"
    by (simp_all add: jsonString_def jsonChar_def)
  with assms(1) length_FormatInt [OF assms(2)] show ?thesis
    unfolding responseJson_def datagramBuffer_def length_append by simp
qed



end
