(* ===== verification/EdgeServer.thy ===== *)
theory EdgeServer
  imports FileStore Redirection S3Streams LookupAnswers
begin

text \<open>
  The edge server as its clients see it: the handlers \<^verbatim>\<open>Delete\<close>, \<^verbatim>\<open>Upload\<close> and \<^verbatim>\<open>Download\<close>
  (\<^verbatim>\<open>edge/server/server_services.go\<close>), the workload they count (\<^verbatim>\<open>edge/server/server_utils.go\<close>), the
  messages to the load balancer (\<^verbatim>\<open>edge/server/server.go\<close>) and the text of an error
  (\<^verbatim>\<open>edge/server/custom_errors.go\<close>). The handlers compose the cache, the redirection of streams, the S3
  boundary and the search in the network. A goroutine that inserts a file in the cache outlives its
  handler: its outcome is a part of the result of its own. A goroutine that panics takes the program,
  and so the handler, down.
\<close>

section \<open>The text of an error\<close>

definition buildJsonMessage :: "int \<Rightarrow> string \<Rightarrow> string" where
  "buildJsonMessage errorCode msg =
     ''{'' @ jsonString ''ErrorCode'' @ '':'' @ FormatInt errorCode @ '','' @
     jsonString ''ErrorMessage'' @ '':'' @ jsonString msg @ ''}''"

definition NewCustomError :: "ErrorCodes \<Rightarrow> string \<Rightarrow> string" where
  "NewCustomError errorCode msg = buildJsonMessage (ErrorCodes_value errorCode) msg"

section \<open>The workload and the load balancer\<close>

record FileServiceServer =
  currentWorkload :: int

definition incrementWorkload :: "FileServiceServer \<Rightarrow> FileServiceServer" where
  "incrementWorkload server = server\<lparr>currentWorkload := wrap64 (currentWorkload server + 1)\<rparr>"

definition decrementWorkload :: "FileServiceServer \<Rightarrow> FileServiceServer" where
  "decrementWorkload server = server\<lparr>currentWorkload := wrap64 (currentWorkload server - 1)\<rparr>"

text \<open>The globals \<^verbatim>\<open>edgeServer\<close>, \<^verbatim>\<open>workload\<close> and \<^verbatim>\<open>balancerConnection\<close> (here: whether there is one).\<close>

record BalancerLink =
  edgeServer :: string
  workload :: int
  balancerConnection :: bool

record LoadReport =
  reporter :: string
  reportedLoad :: int

definition awaitBalancer :: "callResult \<Rightarrow> BalancerLink \<Rightarrow> BalancerLink outcome" where
  \<comment> \<open>on a timeout the error of the call is still nil, and \<^verbatim>\<open>call.Error.Error()\<close> panics\<close>
  "awaitBalancer answer l =
     (case answer of
        Replied \<Rightarrow> Done l
      | Failed \<Rightarrow> Done (l\<lparr>balancerConnection := False\<rparr>)
      | Expired \<Rightarrow> Panicked)"

definition heartbeatFunction :: "bool list \<Rightarrow> callResult \<Rightarrow> BalancerLink \<Rightarrow> (LoadReport \<times> BalancerLink) outcome" where
  "heartbeatFunction attempts answer l =
     (let heartbeatMessage = \<lparr>reporter = edgeServer l, reportedLoad = workload l\<rparr> in
      if balancerConnection l \<or> True \<in> set attempts
      then and_then (awaitBalancer answer (l\<lparr>balancerConnection := True\<rparr>)) (\<lambda>l'. Done (heartbeatMessage, l'))
      else Blocked)"

fun heartbeatToBalancer :: "(bool list \<times> callResult) list \<Rightarrow> BalancerLink \<Rightarrow> (LoadReport list \<times> BalancerLink) outcome" where
  "heartbeatToBalancer [] l = Done ([], l)"
| "heartbeatToBalancer ((attempts, answer) # rounds) l =
     and_then (heartbeatFunction attempts answer l) (\<lambda>(msg, l1).
     and_then (heartbeatToBalancer rounds l1) (\<lambda>(msgs, l2). Done (msg # msgs, l2)))"

definition notifyJobEnd :: "bool \<Rightarrow> callResult \<Rightarrow> BalancerLink \<Rightarrow> (bool \<times> BalancerLink) outcome" where
  \<comment> \<open>also whether the notification was sent\<close>
  "notifyJobEnd connects answer l =
     (if balancerConnection l \<or> connects
      then and_then (awaitBalancer answer (l\<lparr>balancerConnection := True\<rparr>)) (\<lambda>l'. Done (True, l'))
      else Done (False, l))"

section \<open>Configuration and the insertion goroutine\<close>

record edgeEnv =
  envMaxCachable :: int
  envUploadChannelSize :: nat
  envDownloadChannelSize :: nat
  envSorter :: "(ptr \<Rightarrow> ptr \<Rightarrow> bool) \<Rightarrow> ptr list \<Rightarrow> ptr list"
  envStatfs :: "filesystem \<Rightarrow> (int \<times> int) option"
  envNow :: int
  envTTL :: int

text \<open>What the insertions in the background make of the cache and its directory.\<close>

type_synonym background = "(Cache \<times> filesystem) outcome"

definition insertGoroutine :: "edgeEnv \<Rightarrow> bool \<Rightarrow> string \<Rightarrow> int \<Rightarrow> bool \<Rightarrow> Message list \<Rightarrow> background \<Rightarrow> background" where
  "insertGoroutine env isFileCacheable fname fsize closes msgs bg =
     (if isFileCacheable
      then and_then bg (cachePut (envSorter env) (envStatfs env) (envNow env) (envTTL env) closes fname fsize msgs)
      else bg)"

section \<open>Upload\<close>

text \<open>\<^verbatim>\<open>md.Get(key)[0]\<close>: an index out of range when the key is missing.\<close>

definition mdGet :: "(string, string list) gomap \<Rightarrow> string \<Rightarrow> string outcome" where
  "mdGet md key = (case gomap_get [] md key of [] \<Rightarrow> Panicked | v # vs \<Rightarrow> Done v)"

definition retrieveMetadata :: "(string, string list) gomap option \<Rightarrow> (goError + string \<times> string \<times> int) outcome" where
  "retrieveMetadata context =
     (case context of
        None \<Rightarrow> Done (Inl (CustomError INVALID_METADATA))
      | Some md \<Rightarrow>
          and_then (mdGet md ''request_id'') (\<lambda>requestID.
          and_then (mdGet md ''file_name'') (\<lambda>file_name.
          and_then (mdGet md ''file_size'') (\<lambda>size_text.
            case ParseInt size_text of
              None \<Rightarrow> Done (Inl (CustomError INVALID_METADATA))
            | Some file_size \<Rightarrow> Done (Inr (requestID, file_name, file_size))))))"

text \<open>
  \<open>evs\<close> is the interleaving of the redirection with the two goroutines, \<open>s3Answer\<close> the last value of
  the S3 goroutine, \<open>closeErr\<close> the error of \<^verbatim>\<open>SendAndClose\<close>.
\<close>

definition doUpload :: "edgeEnv \<Rightarrow> (string, string list) gomap option \<Rightarrow> rcvEvent list \<Rightarrow> goError option \<Rightarrow>
    goError option \<Rightarrow> Cache \<times> filesystem \<Rightarrow> (goError option \<times> background) outcome" where
  "doUpload env context evs s3Answer closeErr s =
     and_then (retrieveMetadata context) (\<lambda>metadata.
       case metadata of
         Inl err \<Rightarrow> Done (Some err, Done s)
       | Inr (requestID, fname, fsize) \<Rightarrow>
           let isFileCacheable = IsFileCacheable (envMaxCachable env) fsize;
               s3RedirectionChannel = NewRedirectionChannel (envUploadChannelSize env);
               cacheRedirectionChannel = NewRedirectionChannel (envUploadChannelSize env)
           in and_then (rcvAndRedirectChunks evs s3Answer s3RedirectionChannel cacheRedirectionChannel isFileCacheable)
               (\<lambda>(err, st).
                 let bg = insertGoroutine env isFileCacheable fname fsize True (cacheSent st) (Done s)
                 in if err \<noteq> None then Done (Some (CustomError S3_ERROR), bg)
                    else if closeErr \<noteq> None then Done (Some (CustomError CHUNK_ERROR), bg)
                    else Done (None, bg)))"

section \<open>Delete\<close>

definition doDelete :: "('f \<Rightarrow> string \<Rightarrow> bool) \<Rightarrow> edgeEnv \<Rightarrow> s3Service \<Rightarrow> EdgePeer list \<Rightarrow> string \<Rightarrow> string \<Rightarrow>
    'f Edge \<Rightarrow> filesystem \<Rightarrow> (goError option \<times> deleteCalls \<times> 'f Edge \<times> filesystem) outcome" where
  "doDelete test env svc ks fname requestId e fs =
     and_then (cacheRemove (envNow env) fname (edgeCache e, fs)) (\<lambda>(c, fs').
       let e1 = e\<lparr>edgeCache := c\<rparr> in
       and_then (DeleteFromS3 svc fname) (\<lambda>err.
         case err of
           Some NotFoundError \<Rightarrow> Done (Some (CustomError FILE_NOT_FOUND_ERROR), [], e1, fs')
         | Some (S3Error e') \<Rightarrow> Done (Some (CustomError S3_ERROR), [], e1, fs')
         | None \<Rightarrow> and_then (NotifyFileDeletion test (envNow env) ks fname requestId e1)
             (\<lambda>(calls, e2). Done (None, calls, e2, fs'))))"

section \<open>Download\<close>

text \<open>The local file is opened by name; \<open>taken\<close> are the bodies the client loop takes from the channel.\<close>

definition sendFromLocalCache :: "bytes option \<Rightarrow> (int \<Rightarrow> goError option) \<Rightarrow> bytes list \<Rightarrow>
    (goError option \<times> FileChunk list \<times> goError option list) outcome" where
  "sendFromLocalCache localFile sends taken =
     (case localFile of
        None \<Rightarrow> redirectStreamToClient sends False [errMessage (CustomError FILE_READ_ERROR)]
      | Some bs \<Rightarrow> redirectStreamToClient sends True (map dataMessage taken))"

text \<open>The answers of gRPC in one transfer from another edge, and the sends to the client.\<close>

record edgeTransfer =
  transferDialErr :: "goError option"
  transferCallErr :: "goError option"
  transferEvents :: "rcvEvent list"
  transferReturned :: "goError option"
  transferCloseErr :: "goError option"
  transferSends :: "int \<Rightarrow> goError option"

definition sendFromOtherEdge :: "edgeEnv \<Rightarrow> FileLookupResponse \<Rightarrow> string \<Rightarrow> edgeTransfer \<Rightarrow> background \<Rightarrow>
    (goError option \<times> FileChunk list \<times> background) outcome" where
  "sendFromOtherEdge env lookupResponse fname t bg =
     (let clientRedirectionChannel = NewRedirectionChannel (envDownloadChannelSize env);
          cacheRedirectionChannel = NewRedirectionChannel (envDownloadChannelSize env);
          isFileCachable = IsFileCacheable (envMaxCachable env) (FileSize lookupResponse)
      in and_then (downloadFromOtherEdge (transferDialErr t) (transferCallErr t) (transferEvents t)
            (transferReturned t) (transferCloseErr t) clientRedirectionChannel cacheRedirectionChannel isFileCachable) (\<lambda>st.
         and_then (redirectStreamToClient (transferSends t) (isClosed (mainCh st)) (mainSent st)) (\<lambda>(err, sent, rets).
           Done (err, sent, insertGoroutine env isFileCachable fname (FileSize lookupResponse)
             (isClosed (cacheCh st)) (cacheSent st) bg))))"

text \<open>What the \<^verbatim>\<open>select\<close> finds: an answer, nil from a closed channel, or the timer.\<close>

datatype callbackEvent = EdgeAnswered FileLookupResponse edgeTransfer | CallbackClosed | TimerFired

fun tryToSendFromOtherEdge :: "edgeEnv \<Rightarrow> string \<Rightarrow> callbackEvent list \<Rightarrow> background \<Rightarrow>
    (bool \<times> FileChunk list \<times> background) outcome" where
  "tryToSendFromOtherEdge env fname [] bg = Blocked"
| "tryToSendFromOtherEdge env fname (TimerFired # evs) bg = Done (False, [], bg)"
| "tryToSendFromOtherEdge env fname (CallbackClosed # evs) bg = Panicked"
| "tryToSendFromOtherEdge env fname (EdgeAnswered lookupResponse t # evs) bg =
     and_then (sendFromOtherEdge env lookupResponse fname t bg) (\<lambda>(err, sent, bg1).
       if err = None then Done (True, sent, bg1)
       else and_then (tryToSendFromOtherEdge env fname evs bg1) (\<lambda>(ok, sent', bg2). Done (ok, sent @ sent', bg2)))"

text \<open>A download from S3: the parts the downloader writes, its error and the sends to the client.\<close>

record s3Transfer =
  s3Grow :: "nat \<Rightarrow> nat \<Rightarrow> nat"
  s3Parts :: "(returnSelect \<times> bytes) list"
  s3Err :: "goError option"
  s3Flush :: nat
  s3Sends :: "int \<Rightarrow> goError option"

definition redirectFromS3 :: "edgeEnv \<Rightarrow> s3Service \<Rightarrow> string \<Rightarrow> s3Transfer \<Rightarrow> background \<Rightarrow>
    (goError option \<times> FileChunk list \<times> background) outcome" where
  "redirectFromS3 env svc fname t bg =
     (let (fsize, err) = s3GetFileSize svc fname;
          isFileCachable = (err = None \<and> IsFileCacheable (envMaxCachable env) fsize)
      in and_then (SendFromS3 (s3Grow t) (s3Parts t) (s3Err t) (s3Flush t) isFileCachable) (\<lambda>(dlErr, client, cached).
         and_then (redirectStreamToClient (s3Sends t) True client) (\<lambda>(err, sent, rets).
           Done (err, sent, insertGoroutine env isFileCachable fname fsize True cached bg))))"

record lookupSetup =
  interfaces :: "ipAddress list option"
  resolveUDP :: "string \<Rightarrow> string option"
  listenUDP :: "string \<Rightarrow> string option"
  lookupTTL :: int
  lookupLimit :: int
  lookupOrder :: lookupOrders
  callbackEvents :: "callbackEvent list"

definition setupServer :: "lookupSetup \<Rightarrow> LookupServer option" where
  "setupServer setup = CreateLookupServer (interfaces setup) (resolveUDP setup) (listenUDP setup)"

definition lookupFileInNetwork :: "('f \<Rightarrow> string \<Rightarrow> bool) \<Rightarrow> edgeEnv \<Rightarrow> lookupSetup \<Rightarrow> LookupServer \<Rightarrow> string \<Rightarrow> string \<Rightarrow>
    'f Edge \<Rightarrow> (lookupCalls \<times> 'f Edge) outcome" where
  "lookupFileInNetwork test env setup lookupServer fname requestId e =
     and_then (NeighboursFileLookup test (lookupLimit setup) (SelfPeer e) (lookupOrder setup) (envNow env)
         fname (lookupTTL setup) requestId (PeerAddr (SelfPeer e)) (UdpAddr lookupServer) (adjacents e) (requestMap e))
       (\<lambda>(m, calls). Done (calls, e\<lparr>requestMap := m\<rparr>))"

record 'f downloadResult =
  reply :: "goError option"
  sentChunks :: "FileChunk list"
  issuedCalls :: lookupCalls
  edgeAfter :: "'f Edge"
  cacheAfter :: background

definition doDownload :: "('f \<Rightarrow> string \<Rightarrow> bool) \<Rightarrow> edgeEnv \<Rightarrow> s3Service \<Rightarrow> (int \<Rightarrow> goError option) \<Rightarrow> bytes list \<Rightarrow>
    lookupSetup \<Rightarrow> s3Transfer \<Rightarrow> string \<Rightarrow> string \<Rightarrow> 'f Edge \<Rightarrow> filesystem \<Rightarrow> 'f downloadResult outcome" where
  "doDownload test env svc localSends localTaken setup t fname requestId e fs =
     and_then (IsFileInCache fname (edgeCache e)) (\<lambda>(found, c).
       let bg = Done (c, fs) in
       if found
       then and_then (sendFromLocalCache (content fs fname) localSends localTaken) (\<lambda>(err, sent, rets).
         Done \<lparr>reply = err, sentChunks = sent, issuedCalls = [], edgeAfter = e, cacheAfter = bg\<rparr>)
       else case setupServer setup of
         None \<Rightarrow> Done \<lparr>reply = Some (CustomError REQUEST_FAILED), sentChunks = [], issuedCalls = [],
             edgeAfter = e, cacheAfter = bg\<rparr>
       | Some lookupServer \<Rightarrow>
           and_then (lookupFileInNetwork test env setup lookupServer fname requestId e) (\<lambda>(calls, e1).
           and_then (tryToSendFromOtherEdge env fname (callbackEvents setup) bg) (\<lambda>(success, sent, bg1).
             if success
             then Done \<lparr>reply = None, sentChunks = sent, issuedCalls = calls, edgeAfter = e1, cacheAfter = bg1\<rparr>
             else and_then (redirectFromS3 env svc fname t bg1) (\<lambda>(err, sent', bg2).
               Done \<lparr>reply = (if err = None then None else Some (CustomError FILE_NOT_FOUND_ERROR)),
                 sentChunks = sent @ sent', issuedCalls = calls, edgeAfter = e1, cacheAfter = bg2\<rparr>))))"

section \<open>The handlers\<close>

text \<open>The job of a handler, its deferred notification and the workload around it.\<close>

definition served :: "bool \<Rightarrow> callResult \<Rightarrow> 'r outcome \<Rightarrow> FileServiceServer \<times> BalancerLink \<Rightarrow>
    ('r \<times> FileServiceServer \<times> BalancerLink) outcome" where
  "served connects answer job s =
     (let server = incrementWorkload (fst s) in
      and_then job (\<lambda>r.
      and_then (notifyJobEnd connects answer (snd s)) (\<lambda>(notified, l).
        Done (r, decrementWorkload server, l))))"

record FileResponse =
  Success :: bool
  ResponseId :: string

definition Delete where
  "Delete connects answer test env svc ks fname requestId e fs s =
     and_then (served connects answer (doDelete test env svc ks fname requestId e fs) s)
       (\<lambda>((err, calls, e', fs'), s').
         Done (\<lparr>Success = (err = None), ResponseId = requestId\<rparr>, err, calls, e', fs', s'))"

definition Upload where
  "Upload connects answer env context evs s3Answer closeErr store s =
     served connects answer (doUpload env context evs s3Answer closeErr store) s"

definition Download where
  "Download connects answer test env svc localSends localTaken setup t fname requestId e fs s =
     served connects answer (doDownload test env svc localSends localTaken setup t fname requestId e fs) s"

section \<open>Reading an error back\<close>

text \<open>The client reads the error with a JSON parser; here it is for messages of this shape.\<close>

definition readError :: "string \<Rightarrow> (int \<times> string) option" where
  "readError s =
     (case stripPrefix (''{'' @ jsonString ''ErrorCode'' @ '':'') s of
        None \<Rightarrow> None
      | Some r \<Rightarrow>
          (case (ParseInt (takeWhile (\<lambda>c. c \<noteq> CHR '','') r),
                 stripPrefix ('','' @ jsonString ''ErrorMessage'' @ '':'' @ [CHR 0x22]) (dropWhile (\<lambda>c. c \<noteq> CHR '','') r)) of
             (Some code, Some r2) \<Rightarrow>
               (case jsonUnescape r2 of
                  Some (msg, rest) \<Rightarrow> if rest = ''}'' then Some (code, msg) else None
                | None \<Rightarrow> None)
           | _ \<Rightarrow> None))"

lemma digits_no_comma: "CHR '','' \<notin> set (digits n)"
proof (induction n rule: digits.induct)
  case (1 n)
  have "digit_char d \<noteq> CHR '',''" if "d < 10" for d
  proof
    assume "digit_char d = CHR '',''"
    with digit_val_char [OF that] have "digit_val CHR '','' = Some d" by simp
    then show False by (simp add: digit_val_def)
  qed
  from this [of "n mod 10"] this [of n] 1 show ?case by (auto simp: digits.simps [of n])
qed

lemma FormatInt_no_comma: "CHR '','' \<notin> set (FormatInt n)"
  using digits_no_comma by (simp add: FormatInt_def)

lemma readError_NewCustomError: "readError (NewCustomError code msg) = Some (ErrorCodes_value code, msg)"
proof -
  let ?n = "FormatInt (ErrorCodes_value code)"
  let ?tail = "'','' @ jsonString ''ErrorMessage'' @ '':'' @ [CHR 0x22] @ concat (map jsonChar msg) @ CHR 0x22 # ''}''"
  have msg: "NewCustomError code msg = (''{'' @ jsonString ''ErrorCode'' @ '':'') @ ?n @ ?tail"
    by (simp add: NewCustomError_def buildJsonMessage_def jsonString_def)
  have "takeWhile (\<lambda>c. c \<noteq> CHR '','') (?n @ ?tail) = ?n" "dropWhile (\<lambda>c. c \<noteq> CHR '','') (?n @ ?tail) = ?tail"
    using FormatInt_no_comma [of "ErrorCodes_value code"] by (auto simp: takeWhile_append dropWhile_append)
  moreover have "ParseInt ?n = Some (ErrorCodes_value code)"
    by (rule ParseInt_FormatInt) (cases code; simp)
  moreover have "stripPrefix ('','' @ jsonString ''ErrorMessage'' @ '':'' @ [CHR 0x22]) ?tail =
      Some (concat (map jsonChar msg) @ CHR 0x22 # ''}'')"
    using stripPrefix_append [of "'','' @ jsonString ''ErrorMessage'' @ '':'' @ [CHR 0x22]"] by (simp only: append_assoc)
  ultimately show ?thesis
    unfolding readError_def msg stripPrefix_append
    by (simp only: option.case prod.case jsonUnescape_string if_True simp_thms)
qed

section \<open>The loops that report\<close>

text \<open>
  Three loops of the program call a server and wait for the reply with a timeout: the heartbeats to
  the registry, the heartbeats to the load balancer and the notification of the end of a job. They share
  a defect, stated once: a report whose reply does not come in time panics.
\<close>

fun reportAll :: "(callResult \<Rightarrow> 's \<Rightarrow> 's outcome) \<Rightarrow> callResult list \<Rightarrow> 's \<Rightarrow> 's outcome" where
  "reportAll report [] s = Done s"
| "reportAll report (a # as) s = and_then (report a s) (reportAll report as)"

locale timed_report =
  fixes ready :: "'s \<Rightarrow> bool"
    and report :: "callResult \<Rightarrow> 's \<Rightarrow> 's outcome"
  assumes answered: "ready s \<Longrightarrow> answer \<noteq> Expired \<Longrightarrow> returns (report answer s) ready"
    and timed_out: "ready s \<Longrightarrow> report Expired s = Panicked"
begin

lemma reportAll_returns: "ready s \<Longrightarrow> Expired \<notin> set answers \<Longrightarrow> returns (reportAll report answers s) ready"
proof (induction answers arbitrary: s)
  case Nil
  then show ?case by simp
next
  case (Cons a answers)
  have "returns (report a s) ready" using Cons.prems by (intro answered) auto
  then show ?case unfolding reportAll.simps
    by (rule returns_and_then) (use Cons in auto)
qed

lemma reportAll_panics: "ready s \<Longrightarrow> reportAll report answers s = Panicked \<longleftrightarrow> Expired \<in> set answers"
proof (induction answers arbitrary: s)
  case Nil
  then show ?case by simp
next
  case (Cons a answers)
  show ?case
  proof (cases "a = Expired")
    case True
    with Cons.prems show ?thesis by (simp add: timed_out)
  next
    case False
    with answered [OF Cons.prems] obtain s1 where "report a s = Done s1" "ready s1" by (auto simp: returns_iff)
    with Cons.IH False show ?thesis by simp
  qed
qed

end

text \<open>The registry and the load balancer are up, so that a missing connection can be made.\<close>

definition balancerReport :: "callResult \<Rightarrow> BalancerLink \<Rightarrow> BalancerLink outcome" where
  "balancerReport answer l = and_then (heartbeatFunction [True] answer l) (\<lambda>(msg, l'). Done l')"

definition jobEndReport :: "callResult \<Rightarrow> BalancerLink \<Rightarrow> BalancerLink outcome" where
  "jobEndReport answer l = and_then (notifyJobEnd True answer l) (\<lambda>(sent, l'). Done l')"

definition registryReady :: "'f AdjacentPeers \<Rightarrow> bool" where
  "registryReady s \<longleftrightarrow> (case registryClient s of None \<Rightarrow> True | Some c \<Rightarrow> isOpen s c)"

interpretation balancerHeartbeats: timed_report "\<lambda>_. True" balancerReport
proof
  fix s answer
  show "answer \<noteq> Expired \<Longrightarrow> returns (balancerReport answer s) (\<lambda>_. True)"
    by (cases answer) (simp_all add: balancerReport_def heartbeatFunction_def awaitBalancer_def)
  show "balancerReport Expired s = Panicked"
    by (simp add: balancerReport_def heartbeatFunction_def awaitBalancer_def)
qed

interpretation jobEnds: timed_report "\<lambda>_. True" jobEndReport
proof
  fix s answer
  show "answer \<noteq> Expired \<Longrightarrow> returns (jobEndReport answer s) (\<lambda>_. True)"
    by (cases answer) (simp_all add: jobEndReport_def notifyJobEnd_def awaitBalancer_def)
  show "jobEndReport Expired s = Panicked"
    by (simp add: jobEndReport_def notifyJobEnd_def awaitBalancer_def)
qed

interpretation registryHeartbeats: timed_report registryReady "PeerNet.heartbeatFunction (\<lambda>_. True)"
proof
  fix s :: "'f AdjacentPeers" and answer
  assume r: "registryReady s"
  show "answer \<noteq> Expired \<Longrightarrow> returns (PeerNet.heartbeatFunction (\<lambda>_. True) answer s) registryReady"
    using r by (cases answer) (auto simp: PeerNet.heartbeatFunction_def registryReady_def ConnectToNode_def rpcCall_def
        isOpen_def closeClient_def nth_append split: option.splits)
  show "PeerNet.heartbeatFunction (\<lambda>_. True) Expired s = Panicked"
    using r by (auto simp: PeerNet.heartbeatFunction_def registryReady_def ConnectToNode_def rpcCall_def isOpen_def split: option.splits)
qed

end
