(* ===== verification/EdgeJobs.thy ===== *)
theory EdgeJobs
  imports EdgeServer
begin

text \<open>
  What the jobs of the edge server achieve: uploads and the copy they leave in the cache, downloads
  that miss the cache, deletions, and the reports to the load balancer.
\<close>

section \<open>Transfers that end well, late or early\<close>

text \<open>The cache does not drop out of a transfer: no error comes back on its return channel.\<close>

definition cacheStays :: "rcvEvent \<Rightarrow> bool" where
  "cacheStays ev \<longleftrightarrow> (case ev of Redirection.CacheReturned (Some e) \<Rightarrow> False | _ \<Rightarrow> True)"

lemma rcvStep_cacheable: "rcvStep ev st = Done st' \<Longrightarrow> cacheStays ev \<Longrightarrow> cacheable st' = cacheable st"
  by (induction ev st rule: rcvStep.induct)
    (auto simp: cacheStays_def and_then_Done_iff sendBoth_def sendMain_Done sendCache_Done split: if_splits list.splits option.splits)

lemma rcvLoop_cacheable:
  "rcvLoop evs st = Done st' \<Longrightarrow> list_all cacheStays evs \<Longrightarrow> cacheable st' = cacheable st"
proof (induction evs arbitrary: st)
  case Nil
  then show ?case by (simp split: if_splits)
next
  case (Cons ev evs)
  show ?case
  proof (cases "endLoop st")
    case True
    with Cons.prems show ?thesis by simp
  next
    case False
    with Cons.prems obtain st1 where "rcvStep ev st = Done st1" "rcvLoop evs st1 = Done st'"
      by (auto simp: and_then_Done_iff)
    with rcvStep_cacheable Cons.IH Cons.prems(2) show ?thesis by (metis list.pred_inject(2))
  qed
qed

text \<open>What was sent to the main destination and to the cache, by the way the transfer ended.\<close>

lemma rcv_main:
  assumes run: "rcvAndRedirectChunks evs finalMain (NewRedirectionChannel n) (NewRedirectionChannel m) b = Done (err, st)"
  shows "isClosed (mainCh st)" and "isClosed (cacheCh st)"
    and "grpcError st = None \<Longrightarrow> mainSent st = map dataMessage (received st)"
    and "err = None \<longleftrightarrow> grpcError st = None \<and> mainChannelError st = None \<and> finalMain = None"
    and "cacheable st \<Longrightarrow> cacheSent st = map dataMessage (received st) @
       (case mainChannelError st of
          Some e \<Rightarrow> [errMessage e]
        | None \<Rightarrow> if grpcError st = None then [] else [errMessage (CustomError CHUNK_ERROR)])"
    and "list_all cacheStays evs \<Longrightarrow> cacheable st = b"
proof -
  obtain st0 where loop: "rcvLoop evs (rcvStart (NewRedirectionChannel n) (NewRedirectionChannel m) b) = Done st0"
    and inv: "rcv_inv st0"
    and st: "st = st0\<lparr>mainCh := (mainCh st0)\<lparr>isClosed := True\<rparr>, cacheCh := (cacheCh st0)\<lparr>isClosed := True\<rparr>\<rparr>"
    and err: "err = (case grpcError st0 of
        Some e \<Rightarrow> Some (Wrapped ''GRPC_ERROR'' e)
      | None \<Rightarrow> map_option (Wrapped ''MAIN_CHANNEL_ERROR'')
          (case mainChannelError st0 of Some e \<Rightarrow> Some e | None \<Rightarrow> finalMain))"
    using rcvAndRedirectChunks_result [OF run] by blast
  have sent: "mainSent st = mainSent st0" "cacheSent st = cacheSent st0"
    by (simp_all add: st mainSent_def cacheSent_def)
  show "isClosed (mainCh st)" "isClosed (cacheCh st)" by (simp_all add: st)
  show "grpcError st = None \<Longrightarrow> mainSent st = map dataMessage (received st)"
    unfolding sent using inv by (simp add: st rcv_inv_def)
  show "err = None \<longleftrightarrow> grpcError st = None \<and> mainChannelError st = None \<and> finalMain = None"
    unfolding err by (auto simp: st split: option.splits)
  show "cacheable st \<Longrightarrow> cacheSent st = map dataMessage (received st) @
       (case mainChannelError st of
          Some e \<Rightarrow> [errMessage e]
        | None \<Rightarrow> if grpcError st = None then [] else [errMessage (CustomError CHUNK_ERROR)])"
    unfolding sent using inv by (auto simp: st rcv_inv_def split: option.split)
  show "cacheable st = b" if "list_all cacheStays evs"
    using rcvLoop_cacheable [OF loop that] by (simp add: st rcvStart_def)
qed

lemma rcv_outcome:
  assumes run: "rcvAndRedirectChunks evs finalMain (NewRedirectionChannel n) (NewRedirectionChannel m) True = Done (err, st)"
    and stays: "list_all cacheStays evs"
  shows "grpcError st = None \<Longrightarrow> mainChannelError st = None \<Longrightarrow> cacheSent st = map dataMessage (received st)"
    and "grpcError st \<noteq> None \<or> mainChannelError st \<noteq> None \<Longrightarrow>
      \<exists>e. cacheSent st = map dataMessage (received st) @ [errMessage e]"
  using rcv_main(5) [OF run] rcv_main(6) [OF run stays] by (auto split: option.splits)

lemma first_error_data [simp]: "first_error (map dataMessage bs) = None"
  by (induction bs) simp_all

lemma first_error_append_err [simp]: "first_error (map dataMessage bs @ [errMessage e]) = Some e"
  by (induction bs) simp_all

lemma bodies_data [simp]: "map (Body \<circ> dataMessage) bs = bs"
  by (induction bs) simp_all

lemma data_only_data [simp]: "data_only (map dataMessage bs)"
  by (induction bs) simp_all

section \<open>Uploads\<close>

text \<open>The cache an upload finds: its file fits and is not there yet.\<close>

definition uploadReady :: "edgeEnv \<Rightarrow> string \<Rightarrow> int \<Rightarrow> Cache \<times> filesystem \<Rightarrow> bool" where
  "uploadReady env name sz s \<longleftrightarrow> IsFileCacheable (envMaxCachable env) sz \<and> storeFits (envStatfs env) sz \<and>
     storeInv (envNow env) (envTTL env) s \<and> storeView s name = None"

lemma insertGoroutine_put:
  assumes "uploadReady env name sz s" and "msgs \<noteq> []"
  shows "returns (insertGoroutine env True name sz True msgs (Done s)) (\<lambda>s'. storeInv (envNow env) (envTTL env) s' \<and>
    storeView s' = (storeView s)(name := if first_error msgs = None then Some (concat (map Body msgs)) else None))"
  using assms cacheStore.put_new [of "envNow env" "envTTL env" s name "envStatfs env" sz msgs "envSorter env"]
  by (simp add: insertGoroutine_def uploadReady_def)

lemma doUpload_run:
  assumes md: "retrieveMetadata context = Done (Inr (rid, name, sz))" and ready: "uploadReady env name sz s"
    and run: "rcvAndRedirectChunks evs s3Answer (NewRedirectionChannel (envUploadChannelSize env))
      (NewRedirectionChannel (envUploadChannelSize env)) True = Done (err, st)"
  shows "doUpload env context evs s3Answer closeErr s = Done
    (if err \<noteq> None then Some (CustomError S3_ERROR) else if closeErr \<noteq> None then Some (CustomError CHUNK_ERROR) else None,
     insertGoroutine env True name sz True (cacheSent st) (Done s))"
  using assms by (simp add: doUpload_def uploadReady_def Let_def)

text \<open>The uploader that reads to the end of the stream has read all of it.\<close>

lemma SendToS3_data:
  assumes "list_all (\<lambda>n. 0 < n) reads" and "length (concat chunks) + length chunks < length reads"
  shows "SendToS3 upload reads name (map dataMessage chunks) True = Done (upload name (concat chunks) (Some EOF))"
proof -
  let ?us = "\<lparr>ResidualChunk = [], Incoming = map dataMessage chunks, SenderCloses = True\<rparr>"
  have p: "pending ?us = concat chunks" by (simp add: pending_def)
  obtain out e us where "readMany reads ?us = Done (out, e, us)" "e = None \<or> e = Some EOF \<and> out = concat chunks"
    "list_all (\<lambda>n. 0 < n) reads \<and> length (concat chunks) + length chunks < length reads \<longrightarrow> e = Some EOF"
    using readMany_step [of ?us reads] unfolding p by auto
  with assms have "readMany reads ?us = Done (concat chunks, Some EOF, us)" by auto
  then show ?thesis by (simp add: SendToS3_def)
qed

text \<open>A small edge to run the jobs on.\<close>

definition demoEnv :: edgeEnv where
  "demoEnv = \<lparr>envMaxCachable = 100, envUploadChannelSize = 5, envDownloadChannelSize = 5, envSorter = insertionSort,
     envStatfs = (\<lambda>_. Some (10, 4096)), envNow = 7, envTTL = 60\<rparr>"

definition demoMetadata :: "(string, string list) gomap" where
  "demoMetadata = fmupd ''request_id'' [''r1''] (fmupd ''file_name'' [''x''] (fmupd ''file_size'' [''2''] fmempty))"

lemma demoEnv_fields [simp]:
  "envMaxCachable demoEnv = 100" "envUploadChannelSize demoEnv = 5" "envDownloadChannelSize demoEnv = 5"
  "envNow demoEnv = 7" "envTTL demoEnv = 60"
  by (simp_all add: demoEnv_def)

lemma demo_metadata: "retrieveMetadata (Some demoMetadata) = Done (Inr (''r1'', ''x'', 2))"
  by (simp add: retrieveMetadata_def mdGet_def gomap_get_def demoMetadata_def ParseInt_def parseNat_def digit_val_def Let_def)

lemma demo_ready: "uploadReady demoEnv ''x'' 2 (selfCache, plain_disk [])"
  using storeInv_empty [of 60 7]
  by (simp add: uploadReady_def IsFileCacheable_def storeFits_def retrieveFreeMemorySize_def wrap64_id
      storeView_def cache_view_def selfCache_def) (simp add: demoEnv_def wrap64_id)

lemma demo_stays: "list_all cacheStays quietRun"
  by (simp add: quietRun_def cacheStays_def)

lemma demo_run:
  "\<exists>err st. rcvAndRedirectChunks quietRun finalMain (NewRedirectionChannel 5) (NewRedirectionChannel 5) True = Done (err, st) \<and>
     err = map_option (Wrapped ''MAIN_CHANNEL_ERROR'') finalMain \<and> grpcError st = None \<and> mainChannelError st = None \<and>
     received st = [[1], [2]]"
  by (simp add: rcvAndRedirectChunks_def quietRun_def rcvStart_def NewRedirectionChannel_def make_chan_def
      sendBoth_def sendMain_def sendCache_def chan_send_def chan_close_def Let_def)



text \<open>A failure that S3 reports only when the upload finishes is answered with an error, and the file
  stays in the cache: the edge goes on to serve a file that S3 does not have.\<close>

theorem failed_upload_stays_cached:
  assumes md: "retrieveMetadata context = Done (Inr (rid, name, sz))" and ready: "uploadReady env name sz s"
    and stays: "list_all cacheStays evs"
    and run: "rcvAndRedirectChunks evs (Some e) (NewRedirectionChannel (envUploadChannelSize env))
      (NewRedirectionChannel (envUploadChannelSize env)) True = Done (err, st)"
    and ok: "grpcError st = None" "mainChannelError st = None" and "received st \<noteq> []"
  shows "\<exists>bg. doUpload env context evs (Some e) closeErr s = Done (Some (CustomError S3_ERROR), bg) \<and>
    returns bg (\<lambda>s'. storeView s' name = Some (concat (received st)))"
proof -
  note out = rcv_outcome [OF run stays]
  have err: "err \<noteq> None" using rcv_main(4) [OF run] by simp
  have cache: "cacheSent st = map dataMessage (received st)" using out(1) ok by simp
  have "returns (insertGoroutine env True name sz True (cacheSent st) (Done s))
      (\<lambda>s'. storeView s' name = Some (concat (received st)))"
    unfolding cache using insertGoroutine_put [OF ready, of "map dataMessage (received st)"] assms(7)
    by (auto elim!: returns_mono)
  with doUpload_run [OF md ready run, of closeErr] err show ?thesis by simp
qed

theorem failed_upload_stays_cached_witness:
  "\<exists>bg. doUpload demoEnv (Some demoMetadata) quietRun (Some (External ''S3'')) None (selfCache, plain_disk []) =
     Done (Some (CustomError S3_ERROR), bg) \<and> returns bg (\<lambda>s'. storeView s' ''x'' = Some [1, 2])"
proof -
  obtain err st where run: "rcvAndRedirectChunks quietRun (Some (External ''S3'')) (NewRedirectionChannel (envUploadChannelSize demoEnv))
      (NewRedirectionChannel (envUploadChannelSize demoEnv)) True = Done (err, st)"
    and ok: "grpcError st = None" "mainChannelError st = None" and rcv: "received st = [[1], [2]]"
    using demo_run [of "Some (External ''S3'')"] by auto
  have "received st \<noteq> []" by (simp add: rcv)
  from failed_upload_stays_cached [OF demo_metadata demo_ready demo_stays run ok this, of None] rcv show ?thesis by simp
qed

text \<open>An upload that breaks off, on the side of the client or of S3, is answered with an error and leaves
  the cached files as they were.\<close>

theorem broken_upload_leaves_nothing:
  assumes md: "retrieveMetadata context = Done (Inr (rid, name, sz))" and ready: "uploadReady env name sz s"
    and stays: "list_all cacheStays evs"
    and run: "rcvAndRedirectChunks evs s3Answer (NewRedirectionChannel (envUploadChannelSize env))
      (NewRedirectionChannel (envUploadChannelSize env)) True = Done (err, st)"
    and broken: "grpcError st \<noteq> None \<or> mainChannelError st \<noteq> None"
  shows "\<exists>bg. doUpload env context evs s3Answer closeErr s = Done (Some (CustomError S3_ERROR), bg) \<and>
    returns bg (\<lambda>s'. storeInv (envNow env) (envTTL env) s' \<and> storeView s' = storeView s)"
proof -
  note out = rcv_outcome [OF run stays]
  have err: "err \<noteq> None" using rcv_main(4) [OF run] broken by auto
  obtain e where cache: "cacheSent st = map dataMessage (received st) @ [errMessage e]" using out(2) broken by blast
  have "(storeView s)(name := None) = storeView s" using ready by (auto simp: uploadReady_def)
  then have "returns (insertGoroutine env True name sz True (cacheSent st) (Done s))
      (\<lambda>s'. storeInv (envNow env) (envTTL env) s' \<and> storeView s' = storeView s)"
    unfolding cache using insertGoroutine_put [OF ready, of "map dataMessage (received st) @ [errMessage e]"] by simp
  with doUpload_run [OF md ready run, of closeErr] err show ?thesis by simp
qed

theorem broken_upload_leaves_nothing_witness:
  "\<exists>bg. doUpload demoEnv (Some demoMetadata) [Received (RecvChunk [1]), Received (RecvErr EOF)] None None
     (selfCache, plain_disk []) = Done (Some (CustomError S3_ERROR), bg) \<and> returns bg (\<lambda>s'. storeView s' ''x'' = None)"
proof -
  let ?evs = "[Received (RecvChunk [1]), Received (RecvErr EOF)]"
  obtain err st where run: "rcvAndRedirectChunks ?evs None (NewRedirectionChannel (envUploadChannelSize demoEnv))
      (NewRedirectionChannel (envUploadChannelSize demoEnv)) True = Done (err, st)" and broken: "grpcError st \<noteq> None \<or> mainChannelError st \<noteq> None"
    by (simp add: rcvAndRedirectChunks_def rcvStart_def NewRedirectionChannel_def make_chan_def
        sendBoth_def sendMain_def sendCache_def chan_send_def chan_close_def Let_def)
  have stays: "list_all cacheStays ?evs" by (simp add: cacheStays_def)
  have "storeView (selfCache, plain_disk []) ''x'' = None" using demo_ready by (simp add: uploadReady_def)
  with broken_upload_leaves_nothing [OF demo_metadata demo_ready stays run broken, of None] show ?thesis
    by (auto elim!: returns_mono)
qed

text \<open>The metadata of an upload.\<close>

lemma mdGet_panics: "mdGet md key = Panicked \<longleftrightarrow> gomap_get [] md key = []"
  by (simp add: mdGet_def split: list.split)

lemma mdGet_Done: "mdGet md key = Done v \<longleftrightarrow> (\<exists>vs. gomap_get [] md key = v # vs)"
  by (simp add: mdGet_def split: list.split)

lemma retrieveMetadata_panics:
  "retrieveMetadata (Some md) = Panicked \<longleftrightarrow>
     list_ex (\<lambda>key. gomap_get [] md key = []) [''request_id'', ''file_name'', ''file_size'']"
proof -
  have blocked: "mdGet md key \<noteq> Blocked" for key by (simp add: mdGet_def split: list.split)
  have "retrieveMetadata (Some md) = Panicked \<longleftrightarrow>
      mdGet md ''request_id'' = Panicked \<or> mdGet md ''file_name'' = Panicked \<or> mdGet md ''file_size'' = Panicked"
    using blocked [of "''request_id''"] blocked [of "''file_name''"]
    by (cases "mdGet md ''request_id''"; cases "mdGet md ''file_name''"; cases "mdGet md ''file_size''")
       (simp_all add: retrieveMetadata_def split: option.split)
  then show ?thesis by (simp add: mdGet_panics)
qed

text \<open>An upload panics, and with it the server, before it touches anything exactly if one of its three
  metadata keys is missing.\<close>

theorem upload_metadata_missing:
  assumes "list_ex (\<lambda>key. gomap_get [] md key = []) [''request_id'', ''file_name'', ''file_size'']"
  shows "retrieveMetadata (Some md) = Panicked \<and> doUpload env (Some md) evs s3Answer closeErr s = Panicked"
proof -
  have "retrieveMetadata (Some md) = Panicked" using assms unfolding retrieveMetadata_panics .
  then show ?thesis by (simp add: doUpload_def)
qed

theorem upload_metadata_missing_witness:
  "doUpload demoEnv (Some (fmupd ''request_id'' [''r1''] fmempty)) [] None None (selfCache, plain_disk []) = Panicked"
proof -
  have "list_ex (\<lambda>key. gomap_get [] (fmupd ''request_id'' [''r1''] fmempty) key = []) [''request_id'', ''file_name'', ''file_size'']"
    by (simp add: gomap_get_def)
  from upload_metadata_missing [OF this] show ?thesis by blast
qed

section \<open>Downloads that miss the cache\<close>

lemma redirectLoop_data:
  assumes "data_only msgs"
  shows "\<exists>sent. redirectLoop (\<lambda>_. None) True msgs n = Done (None, sent, []) \<and> map Chunk sent = map Body msgs"
  using assms
proof (induction msgs arbitrary: n)
  case Nil
  then show ?case by simp
next
  case (Cons m ms)
  then obtain sent where "redirectLoop (\<lambda>_. None) True ms (wrap64 (n + 1)) = Done (None, sent, [])" "map Chunk sent = map Body ms"
    by fastforce
  with Cons.prems show ?case by simp
qed

lemma redirectStream_data:
  assumes "redirectStreamToClient (\<lambda>_. None) True msgs = Done (err, sent, rets)" and "data_only msgs"
  shows "err = None" and "map Chunk sent = map Body msgs"
  using redirectLoop_data [OF assms(2), of 0] assms(1) by (auto simp: redirectStreamToClient_def)

text \<open>A transfer from another edge that does not take the server down either sends the client
  everything that was received, or nothing.\<close>

lemma sendFromOtherEdge_cases:
  assumes run: "sendFromOtherEdge env r name t bg = Done (err, sent, bg')" and sends: "transferSends t = (\<lambda>_. None)"
  shows "(\<exists>st. err = None \<and> transferDialErr t = None \<and> transferCallErr t = None \<and>
      rcvAndRedirectChunks (transferEvents t) (transferReturned t) (NewRedirectionChannel (envDownloadChannelSize env))
        (NewRedirectionChannel (envDownloadChannelSize env)) (IsFileCacheable (envMaxCachable env) (FileSize r)) = Done (None, st) \<and>
      map Chunk sent = received st \<and>
      bg' = insertGoroutine env (IsFileCacheable (envMaxCachable env) (FileSize r)) name (FileSize r) True (cacheSent st) bg) \<or>
    err = Some (CustomError REQUEST_FAILED) \<and> sent = []"
proof -
  let ?rc = "NewRedirectionChannel (envDownloadChannelSize env)"
  let ?c = "IsFileCacheable (envMaxCachable env) (FileSize r)"
  obtain st rets where dl: "downloadFromOtherEdge (transferDialErr t) (transferCallErr t) (transferEvents t)
      (transferReturned t) (transferCloseErr t) ?rc ?rc ?c = Done st"
    and red: "redirectStreamToClient (\<lambda>_. None) (isClosed (mainCh st)) (mainSent st) = Done (err, sent, rets)"
    and bg': "bg' = insertGoroutine env ?c name (FileSize r) (isClosed (cacheCh st)) (cacheSent st) bg"
    using run sends by (auto simp: sendFromOtherEdge_def Let_def and_then_Done_iff)
  show ?thesis
  proof (cases "transferDialErr t \<noteq> None \<or> transferCallErr t \<noteq> None")
    case True
    with dl have "sendErr (CustomError REQUEST_FAILED) ?c (rcvStart ?rc ?rc ?c) = Done st"
      by (simp add: downloadFromOtherEdge_def)
    then have "mainSent st = [errMessage (CustomError REQUEST_FAILED)]"
      by (auto simp: sendErr_def and_then_Done_iff sendMain_Done sendCache_Done rcvStart_def NewRedirectionChannel_def
          make_chan_def mainSent_def split: if_splits)
    with red show ?thesis by (simp add: redirectStreamToClient_def)
  next
    case False
    then obtain e st1 where rcv: "rcvAndRedirectChunks (transferEvents t) (transferReturned t) ?rc ?rc ?c = Done (e, st1)"
      and rest: "and_then (case e of Some e \<Rightarrow> sendErr e ?c st1 | None \<Rightarrow> Done st1) (\<lambda>st2.
          if transferCloseErr t \<noteq> None then sendErr (CustomError STREAM_CLOSE_ERROR) ?c st2 else Done st2) = Done st"
      using dl by (auto simp: downloadFromOtherEdge_def and_then_Done_iff)
    have closed: "sendErr x ?c st1 = Panicked" for x using rcv_main(1) [OF rcv] by (simp add: sendErr_def sendMain_def chan_send_closed)
    with rest have e: "e = None" "st = st1" by (auto split: option.splits if_splits)
    with rcv_main(3,4) [OF rcv] have main: "mainSent st = map dataMessage (received st)" by simp
    from redirectStream_data [of "mainSent st" err sent rets] red rcv_main(1) [OF rcv] e main
    have sent: "err = None" "map Chunk sent = received st" by simp_all
    show ?thesis
      by (rule disjI1, rule exI [of _ st]) (use False rcv bg' e rcv_main(2) [OF rcv] sent in simp)
  qed
qed

text \<open>The client stays connected during the transfers of a search.\<close>

fun clientStays :: "callbackEvent \<Rightarrow> bool" where
  "clientStays (EdgeAnswered r t) \<longleftrightarrow> transferSends t = (\<lambda>_. None)"
| "clientStays _ \<longleftrightarrow> True"

definition receivedFromEdge :: "edgeEnv \<Rightarrow> FileLookupResponse \<Rightarrow> edgeTransfer \<Rightarrow> bytes list \<Rightarrow> bool" where
  "receivedFromEdge env r t chunks \<longleftrightarrow> (\<exists>st. rcvAndRedirectChunks (transferEvents t) (transferReturned t)
     (NewRedirectionChannel (envDownloadChannelSize env)) (NewRedirectionChannel (envDownloadChannelSize env))
     (IsFileCacheable (envMaxCachable env) (FileSize r)) = Done (None, st) \<and> received st = chunks)"

lemma tryToSend_cases:
  "tryToSendFromOtherEdge env name evs bg = Done (ok, sent, bg') \<Longrightarrow> list_all clientStays evs \<Longrightarrow>
     (if ok then \<exists>r t. EdgeAnswered r t \<in> set evs \<and> receivedFromEdge env r t (map Chunk sent) else sent = [])"
proof (induction env name evs bg arbitrary: sent bg' rule: tryToSendFromOtherEdge.induct)
  case (4 env name r t evs bg)
  obtain err sent1 bg1 where one: "sendFromOtherEdge env r name t bg = Done (err, sent1, bg1)"
    using 4(2) by (auto simp: and_then_Done_iff)
  have sends: "transferSends t = (\<lambda>_. None)" using 4(3) by simp
  note cases = sendFromOtherEdge_cases [OF one sends]
  show ?case
  proof (cases "err = None")
    case True
    with 4(2) one have "ok" "sent = sent1" by simp_all
    moreover have "receivedFromEdge env r t (map Chunk sent1)"
      using cases True unfolding receivedFromEdge_def by auto
    ultimately show ?thesis by auto
  next
    case False
    with 4(2) one obtain sent2 bg2 where rest: "tryToSendFromOtherEdge env name evs bg1 = Done (ok, sent2, bg2)"
      and sent: "sent = sent1 @ sent2"
      by (auto simp: and_then_Done_iff)
    have "sent1 = []" using cases False by auto
    moreover have "if ok then \<exists>r t. EdgeAnswered r t \<in> set evs \<and> receivedFromEdge env r t (map Chunk sent2) else sent2 = []"
      using 4(1) [OF False rest] 4(3) by simp
    ultimately show ?thesis using sent by (cases ok) auto
  qed
qed simp_all

text \<open>A download from S3 that is answered without an error delivered the whole object.\<close>

lemma redirectLoop_no_error:
  "redirectLoop sends closes msgs n = Done (None, sent, rets) \<Longrightarrow> data_only msgs"
proof (induction msgs arbitrary: n sent rets)
  case Nil
  then show ?case by simp
next
  case (Cons m ms)
  then show ?case by (auto simp: and_then_Done_iff split: option.splits)
qed

lemma redirectFromS3_whole:
  assumes run: "redirectFromS3 env svc name t bg = Done (None, sent, bg')" and sends: "s3Sends t = (\<lambda>_. None)"
    and grow: "grows (s3Grow t)"
    and parts: "list_all (\<lambda>(sel, source). sel = NothingReturned \<and> length source \<le> s3Flush t) (s3Parts t)"
  shows "concat (map Chunk sent) = concat (map snd (s3Parts t))"
proof -
  define c where "c = (snd (s3GetFileSize svc name) = None \<and> IsFileCacheable (envMaxCachable env) (fst (s3GetFileSize svc name)))"
  obtain dlErr client cached rets where dl: "SendFromS3 (s3Grow t) (s3Parts t) (s3Err t) (s3Flush t) c = Done (dlErr, client, cached)"
    and red: "redirectStreamToClient (\<lambda>_. None) True client = Done (None, sent, rets)"
    using run sends by (auto simp: redirectFromS3_def c_def Let_def and_then_Done_iff split: prod.splits)
  have data: "data_only client" using red redirectLoop_no_error by (simp add: redirectStreamToClient_def)
  have "s3Err t = None"
  proof (rule ccontr)
    assume "s3Err t \<noteq> None"
    then obtain e where e: "s3Err t = Some e" by auto
    obtain werr ds where w: "writeParts (s3Grow t) (s3Parts t) \<lparr>ClientChannel = [], CacheChannel = [], IsFileCacheable' = c,
        DownloadBuffer = [], BufferCap = 0, FlushSize = s3Flush t\<rparr> = Done (werr, ds)"
      using dl by (auto simp: SendFromS3_def Let_def and_then_Done_iff)
    obtain e' where "(if werr \<noteq> None then werr else Some e) = Some e'" by (cases werr) auto
    with dl w e have "client = ClientChannel ds @ [errMessage (Wrapped ''download'' e')]"
      by (simp add: SendFromS3_def Let_def)
    with data show False by (simp add: data_only_def)
  qed
  with SendFromS3_delivered [OF grow parts, of c] dl
  have "concat (map Body client) = concat (map snd (s3Parts t))" by simp
  with redirectStream_data [OF red data] show ?thesis by simp
qed


definition demoAnswer :: FileLookupResponse where
  "demoAnswer = \<lparr>OwnerEdge = \<lparr>IpAddr = ''s:1''\<rparr>, FileSize = 2\<rparr>"

definition demoTransfer :: "goError option \<Rightarrow> edgeTransfer" where
  "demoTransfer dialErr = \<lparr>transferDialErr = dialErr, transferCallErr = None, transferEvents = quietRun, transferReturned = None,
     transferCloseErr = None, transferSends = (\<lambda>_. None)\<rparr>"

definition demoSetup :: "goError option \<Rightarrow> lookupSetup" where
  "demoSetup dialErr = \<lparr>interfaces = Some [\<lparr>isIPNet = True, isLoopback = False, isIPv4 = True, ipText = ''s''\<rparr>],
     resolveUDP = Some, listenUDP = (\<lambda>_. Some ''cb''), lookupTTL = 2, lookupLimit = 2, lookupOrder = starOrders,
     callbackEvents = [EdgeAnswered demoAnswer (demoTransfer dialErr), TimerFired]\<rparr>"

definition demoServer :: LookupServer where
  "demoServer = \<lparr>UdpAddr = ''cb'', connOpen = True, serverClosed = False\<rparr>"

lemma demo_server: "setupServer (demoSetup dialErr) = Some demoServer"
  by (simp add: setupServer_def CreateLookupServer_def GetMyIPAddr_def demoSetup_def demoServer_def)

definition demoS3 :: s3Transfer where
  "demoS3 = \<lparr>s3Grow = (\<lambda>c n. n), s3Parts = [(NothingReturned, [8, 9])], s3Err = None, s3Flush = 3, s3Sends = (\<lambda>_. None)\<rparr>"

definition demoService :: s3Service where
  "demoService = \<lparr>headObject = (\<lambda>_. Inr 2), deleteObject = (\<lambda>_. None), waitUntilObjectNotExists = (\<lambda>_. None)\<rparr>"

lemma demo_lookup:
  "\<exists>calls m. NeighboursFileLookup boolTest 2 (EdgePeer ''s'') starOrders 7 ''x'' 2 ''r1'' ''s'' ''cb'' (starNet True) fmempty = Done (m, calls)"
proof -
  have "(0 :: int) < 2" "(2 :: int) < 2 ^ 63" by simp_all
  from neighboursFileLookup_neighbours [OF starNet_orders(1-3) [of True] this refl] show ?thesis
    unfolding NeighboursFileLookup_def by blast
qed

lemma demo_redirect:
  "redirectStreamToClient (\<lambda>_. None) True [dataMessage [1], dataMessage [2]] =
     Done (None, [\<lparr>Chunk = [1], SeqNum = 0\<rparr>, \<lparr>Chunk = [2], SeqNum = 1\<rparr>], [])"
  by (simp add: redirectStreamToClient_def wrap64_id)

lemma demo_transfer:
  "\<exists>bg'. sendFromOtherEdge demoEnv demoAnswer ''x'' (demoTransfer None) bg =
     Done (None, [\<lparr>Chunk = [1], SeqNum = 0\<rparr>, \<lparr>Chunk = [2], SeqNum = 1\<rparr>], bg')"
proof -
  obtain st where run: "rcvAndRedirectChunks quietRun None (NewRedirectionChannel 5) (NewRedirectionChannel 5) True = Done (None, st)"
    and st: "grpcError st = None" "received st = [[1], [2]]" using demo_run [of None] by auto
  have "mainSent st = [dataMessage [1], dataMessage [2]]" using rcv_main(3) [OF run st(1)] by (simp add: st(2))
  with run rcv_main(1) [OF run] demo_redirect show ?thesis
    by (simp add: sendFromOtherEdge_def demoTransfer_def demoAnswer_def downloadFromOtherEdge_def IsFileCacheable_def)
qed


section \<open>Deletions\<close>

text \<open>C11: a deletion always returns, removes the file from the cache and only it, and tells every neighbour
  with a positive filter when S3 has deleted the object; when S3 refuses, the client gets the
  corresponding error, no neighbour is told, and the file is gone from the cache all the same.\<close>

theorem doDelete_effect:
  assumes store: "storeInv now ttl (edgeCache e, fs)" and s3: "DeleteFromS3 svc name = Done s3Result"
    and ks: "enumerates ks (peerConns (adjacents e))" and "EdgePeer [] \<notin> set ks"
  shows "\<exists>calls e' fs'. doDelete test env svc ks name requestId e fs =
      Done (map_option (\<lambda>err. CustomError (if err = NotFoundError then FILE_NOT_FOUND_ERROR else S3_ERROR)) s3Result, calls, e', fs') \<and>
    storeInv now ttl (edgeCache e', fs') \<and> storeView (edgeCache e', fs') = (storeView (edgeCache e, fs))(name := None) \<and>
    map fst calls = (if s3Result = None then filter (\<lambda>a. filterSays test (adjacents e) name a = Some True) ks else [])"
proof -
  obtain c fs' where rm: "cacheRemove (envNow env) name (edgeCache e, fs) = Done (c, fs')"
    and view: "storeInv now ttl (c, fs')" "storeView (c, fs') = (storeView (edgeCache e, fs))(name := None)"
    using cacheRemove_effect [OF store, of "envNow env" name] by (auto simp: returns_iff)
  show ?thesis
  proof (cases s3Result)
    case None
    let ?msg = "\<lparr>FileName = name, RequestId = requestId, ForwarderPeer = EdgePeer []\<rparr>"
    let ?e = "e\<lparr>edgeCache := c\<rparr>"
    have conns: "\<forall>a\<in>set ks. fmlookup (peerConns (adjacents e)) a \<noteq> None" using enumeratesD [OF ks] by auto
    have "filter (\<lambda>a. filterSays test (adjacents e) name a = Some True \<and> a \<noteq> EdgePeer []) ks =
        filter (\<lambda>a. filterSays test (adjacents e) name a = Some True) ks"
      using assms(4) by (intro filter_cong) auto
    with None rm view s3 show ?thesis
      by (simp add: doDelete_def NotifyFileDeletion_def notifyFileDeletion_def deletionLoop_result [OF conns] comp_def)
  next
    case (Some err)
    with rm view s3 show ?thesis by (cases err) (simp_all add: doDelete_def)
  qed
qed

theorem doDelete_effect_witness:
  "\<exists>calls e' fs'. doDelete boolTest demoEnv demoService [pP, pQ, pR] ''x'' ''r1'' (starEdge True) (plain_disk []) = Done (None, calls, e', fs') \<and>
     map fst calls = [pP, pQ, pR]"
proof -
  have store: "storeInv 7 60 (edgeCache (starEdge True), plain_disk [])"
    using storeInv_empty [of 60 7] by (simp add: starEdge_def)
  have s3: "DeleteFromS3 demoService ''x'' = Done None" by (simp add: DeleteFromS3_def getHeadObject_def demoService_def)
  have ks: "enumerates [pP, pQ, pR] (peerConns (adjacents (starEdge True)))"
    using starNet_orders(1) [of True] by (simp add: starEdge_def starOrders_def)
  have named: "EdgePeer [] \<notin> set [pP, pQ, pR]" by (simp add: pP_def pQ_def pR_def)
  have all: "filter (\<lambda>a. filterSays boolTest (adjacents (starEdge True)) ''x'' a = Some True) [pP, pQ, pR] = [pP, pQ, pR]"
    by (simp add: starEdge_def starNet_orders)
  from doDelete_effect [OF store s3 ks named, of boolTest demoEnv "''r1''"] show ?thesis
    unfolding all by auto
qed

section \<open>Reports to the load balancer and the registry\<close>

lemma heartbeatToBalancer_reports:
  "and_then (heartbeatToBalancer (map (Pair [True]) answers) l) (\<lambda>(msgs, l'). Done l') = reportAll balancerReport answers l"
proof (induction answers arbitrary: l)
  case Nil
  then show ?case by simp
next
  case (Cons a answers)
  show ?case
  proof (cases "heartbeatFunction [True] a l")
    case (Done x)
    then obtain msg l1 where x: "heartbeatFunction [True] a l = Done (msg, l1)" by (cases x) auto
    then have "and_then (heartbeatToBalancer (map (Pair [True]) (a # answers)) l) (\<lambda>(msgs, l'). Done l') =
        and_then (heartbeatToBalancer (map (Pair [True]) answers) l1) (\<lambda>(msgs, l'). Done l')"
      by (cases "heartbeatToBalancer (map (Pair [True]) answers) l1") (auto simp: x)
    with Cons.IH [of l1] x show ?thesis by (simp add: balancerReport_def)
  qed (simp_all add: balancerReport_def)
qed



text \<open>The workload the heartbeats report is a global that no handler changes.\<close>

lemma heartbeatToBalancer_load:
  "heartbeatToBalancer rounds l = Done (msgs, l') \<Longrightarrow> length msgs = length rounds \<and>
     list_all (\<lambda>m. m = \<lparr>reporter = edgeServer l, reportedLoad = workload l\<rparr>) msgs"
proof (induction rounds arbitrary: l msgs)
  case Nil
  then show ?case by simp
next
  case (Cons x rounds)
  obtain attempts answer where x: "x = (attempts, answer)" by (cases x)
  with Cons.prems obtain msg l1 ms where one: "heartbeatFunction attempts answer l = Done (msg, l1)"
    and rest: "heartbeatToBalancer rounds l1 = Done (ms, l')" and msgs: "msgs = msg # ms"
    by (auto simp: and_then_Done_iff)
  have "msg = \<lparr>reporter = edgeServer l, reportedLoad = workload l\<rparr>" "edgeServer l1 = edgeServer l" "workload l1 = workload l"
    using one by (auto simp: heartbeatFunction_def awaitBalancer_def Let_def and_then_Done_iff split: if_splits callResult.splits)
  with Cons.IH [OF rest] msgs show ?case by simp
qed

lemma served_workload:
  assumes "served connects answer job (server, l) = Done (r, server', l')" and "in_int64 (currentWorkload server)"
  shows "workload l' = workload l \<and> server' = server"
proof -
  have "wrap64 (wrap64 (currentWorkload server + 1) - 1) = currentWorkload server"
  proof (cases "currentWorkload server + 1 < 2 ^ 63")
    case True
    with assms(2) have "wrap64 (currentWorkload server + 1) = currentWorkload server + 1" by (intro wrap64_id) auto
    with assms(2) show ?thesis by (simp add: wrap64_id)
  next
    case False
    with assms(2) have "currentWorkload server = 2 ^ 63 - 1" by simp
    then show ?thesis by (simp add: wrap64_def)
  qed
  moreover have "workload l' = workload l"
    using assms(1) by (auto simp: served_def notifyJobEnd_def awaitBalancer_def Let_def and_then_Done_iff
        split: if_splits callResult.splits)
  moreover have "server' = decrementWorkload (incrementWorkload server)"
    using assms(1) by (auto simp: served_def Let_def and_then_Done_iff)
  ultimately show ?thesis by (simp add: incrementWorkload_def decrementWorkload_def)
qed


end
