(* ===== verification/CacheRun.thy ===== *)
theory CacheRun
  imports FileStore
begin

text \<open>
  The reachable states of an edge's cache: after recovery, any sequence of look-ups, removals, cleanings
  and insertions, with any faults of the system calls, while the directory may change in any way between
  two calls. The queue and the map stay consistent, no call panics, and only an insertion can block.
\<close>

datatype cacheCall =
    AskFor string
  | TakeOut int string
  | CleanUp int int
  | BringIn "filesystem \<Rightarrow> (int \<times> int) option" int int bool "Message list" string int

fun runCall :: "((ptr \<Rightarrow> ptr \<Rightarrow> bool) \<Rightarrow> ptr list \<Rightarrow> ptr list) \<Rightarrow> cacheCall \<Rightarrow> Cache \<times> filesystem \<Rightarrow>
    (Cache \<times> filesystem) outcome" where
  "runCall sorter (AskFor name) s = and_then (IsFileInCache name (fst s)) (\<lambda>(found, c). Done (c, snd s))"
| "runCall sorter (TakeOut now name) s = cacheRemove now name s"
| "runCall sorter (CleanUp now ttl) s = deleteExpiredFiles now ttl (fst s) (snd s)"
| "runCall sorter (BringIn statfs now ttl closes msgs name sz) s = cachePut sorter statfs now ttl closes name sz msgs s"

definition isInsertion :: "cacheCall \<Rightarrow> bool" where
  "isInsertion x \<longleftrightarrow> (case x of BringIn statfs now ttl closes msgs name sz \<Rightarrow> True | _ \<Rightarrow> False)"

inductive cacheRun :: "Cache \<times> filesystem \<Rightarrow> bool" where
  recovered: "distinct (map fst (entries fs)) \<Longrightarrow> ActivateCacheRecovery now fs selfCache = Done c \<Longrightarrow> cacheRun (c, fs)"
| called: "cacheRun s \<Longrightarrow> runCall insertionSort x s = Done s' \<Longrightarrow> cacheRun s'"
| changed: "cacheRun (c, fs) \<Longrightarrow> cacheRun (c, fs')"

definition cacheOk :: "Cache \<Rightarrow> bool" where
  "cacheOk c \<longleftrightarrow> cache_inv c \<and> \<not> cacheMutex c \<and> \<not> fileInsertionMutex c"

section \<open>One call\<close>

lemma cacheOk_start:
  assumes "distinct (map fst (entries fs))" and "ActivateCacheRecovery now fs selfCache = Done c"
  shows "cacheOk c"
proof (cases "os_readDir fs")
  case None
  with assms(2) have "c = selfCache" by (simp add: ActivateCacheRecovery_def)
  then show ?thesis using cache_inv_self unfolding cacheOk_def by (simp add: selfCache_def)
next
  case (Some files)
  then have "files = sort_key fst (entries fs)" by (auto simp: os_readDir_def split: if_splits)
  then have names: "distinct (map fst files)" using recovered_sorted(2) [OF assms(1)] by simp
  have unl: "\<not> cacheMutex selfCache" "\<not> fileInsertionMutex selfCache" by (simp_all add: selfCache_def)
  have "\<forall>n\<in>fst ` set files. cache_view selfCache n = None" by (simp add: cache_view_def selfCache_def)
  from recoveryLoop_ok [OF cache_inv_self unl(1) names this, of now] assms(2) Some unl(2) show ?thesis
    by (auto simp: ActivateCacheRecovery_def returns_iff cacheOk_def)
qed

lemma AskFor_ok: "cacheOk c \<Longrightarrow> returns (IsFileInCache name c) (\<lambda>(found, c'). cacheOk c' \<and> (found \<longrightarrow> fmlookup (cachingMap c') name \<noteq> None))"
proof (cases "fmlookup (cachingMap c) name")
  case None
  then show "cacheOk c \<Longrightarrow> ?thesis" by (simp add: IsFileInCache_miss)
next
  case (Some p)
  assume ok: "cacheOk c"
  then have "p < length (heap c)" using cache_inv_lookup [OF _ Some] by (simp add: cacheOk_def)
  with ok Some show ?thesis by (simp add: cacheOk_def IsFileInCache_hit cache_inv_bump)
qed

lemma TakeOut_ok:
  assumes ok: "cacheOk (fst s)"
  shows "returns (cacheRemove now name s) (\<lambda>s'. cacheOk (fst s'))"
  unfolding cacheRemove_def
proof (rule returns_and_then [OF AskFor_ok [OF ok, of name]], clarify)
  fix found c'
  assume c': "cacheOk c'" "found \<longrightarrow> fmlookup (cachingMap c') name \<noteq> None"
  show "returns (if found then RemoveFileFromCache now name c' (snd s) else Done (c', snd s)) (\<lambda>s'. cacheOk (fst s'))"
  proof (cases found)
    case True
    then obtain p where p: "fmlookup (cachingMap c') name = Some p" using c'(2) by auto
    have "returns (RemoveFileFromCache now name c' (snd s)) (\<lambda>s'. cacheOk (fst s'))"
      by (rule returns_mono [OF RemoveFileFromCache_ok [of c' "snd s" name p now]]) (use c'(1) p in \<open>auto simp: cacheOk_def\<close>)
    with True show ?thesis by simp
  qed (use c' in simp)
qed

lemma CleanUp_ok: "cacheOk c \<Longrightarrow> returns (deleteExpiredFiles now ttl c fs) (\<lambda>s'. cacheOk (fst s'))"
  by (rule returns_mono [OF deleteExpiredFiles_cleaned]) (auto simp: cacheOk_def cleaned_def)

lemma writeLoop_total: "writeLoop name closes msgs n fs \<noteq> Panicked"
  by (induction name closes msgs n fs rule: writeLoop.induct) (auto split: option.splits)

lemma writeChunksInCache_total: "writeChunksInCache name closes msgs fs \<noteq> Panicked"
  by (auto simp: writeChunksInCache_def writeLoop_total simp del: writeLoop.simps split: list.split option.split)

context popularity_sort
begin

lemma freeSpaceForInsert_ok:
  assumes "cache_inv c" and "\<not> cacheMutex c"
  shows "freeSpaceForInsert sorter statfs now ttl sz c fs = Blocked \<or>
    returns (freeSpaceForInsert sorter statfs now ttl sz c fs)
      (\<lambda>(err, c', fs'). cache_inv c' \<and> \<not> cacheMutex c')"
proof -
  obtain c1 fs1 where del: "deleteExpiredFiles now ttl c fs = Done (c1, fs1)" and cl: "cleaned now ttl c fs c1 fs1"
    using deleteExpiredFiles_cleaned [OF assms, of now ttl fs] by (auto simp: returns_iff)
  have c1: "cache_inv c1" "\<not> cacheMutex c1" using cl by (simp_all add: cleaned_def)
  let ?c = "sortQueue sorter c1"
  have c2: "cache_inv ?c" "\<not> cacheMutex ?c" using c1 by (simp_all add: sortQueue_inv sortQueue_fields)
  let ?need = "wrap64 (sz - retrieveFreeMemorySize (statfs fs1))"
  have "chooseAndDeleteFiles now ?need ?c fs1 = Blocked \<or> (\<exists>e fs'. chooseAndDeleteFiles now ?need ?c fs1 = Done (e, ?c, fs'))"
    using chooseAndDeleteFiles_outcome [OF c2(2), of ?need fs1 now] by (auto split: if_splits)
  with del c1 c2 show ?thesis by (auto simp: freeSpaceForInsert_def Let_def)
qed

lemma cachePut_ok:
  assumes ok: "cacheOk (fst s)"
  shows "cachePut sorter statfs now ttl closes name sz msgs s = Blocked \<or>
    returns (cachePut sorter statfs now ttl closes name sz msgs s) (\<lambda>s'. cacheOk (fst s'))"
proof -
  obtain c fs where s: "s = (c, fs)" by (cases s)
  let ?c = "c\<lparr>fileInsertionMutex := True\<rparr>"
  have inv: "cache_inv ?c" "\<not> cacheMutex ?c" and free: "\<not> fileInsertionMutex c" using ok by (simp_all add: cacheOk_def s)
  show ?thesis
  proof (cases "fmlookup (cachingMap c) name = None")
    case False
    with ok show ?thesis by (auto simp: cachePut_def InsertFileInCache_def s)
  next
    case new: True
    consider "freeSpaceForInsert sorter statfs now ttl sz ?c fs = Blocked"
      | err c1 fs1 where "freeSpaceForInsert sorter statfs now ttl sz ?c fs = Done (err, c1, fs1)" "cache_inv c1" "\<not> cacheMutex c1"
      using freeSpaceForInsert_ok [OF inv, of statfs now ttl sz fs] by (auto simp: returns_iff)
    then show ?thesis
    proof cases
      case 1
      with new free show ?thesis by (simp add: cachePut_def InsertFileInCache_def s)
    next
      case 2
      note c1 = this
      consider "writeChunksInCache name closes msgs fs1 = Blocked"
        | werr rets fs2 where "writeChunksInCache name closes msgs fs1 = Done (werr, rets, fs2)"
        using writeChunksInCache_total [of name closes msgs fs1] by (cases "writeChunksInCache name closes msgs fs1") auto
      then show ?thesis
      proof cases
        case 1
        with new free c1 show ?thesis by (simp add: cachePut_def InsertFileInCache_def s cacheOk_def)
      next
        case 2
        obtain c2 where "insertFileInQueue now name sz 1 c1 = Done c2" "cache_inv c2" "\<not> cacheMutex c2"
          using insertFileInQueue_inv [OF c1(2,3), of now name sz 1] by (auto simp: returns_iff)
        with 2 new free c1 show ?thesis by (simp add: cachePut_def InsertFileInCache_def s cacheOk_def)
      qed
    qed
  qed
qed

end

section \<open>Every reachable state\<close>

lemma runCall_ok:
  assumes "cacheOk (fst s)"
  shows "returns (runCall insertionSort x s) (\<lambda>s'. cacheOk (fst s')) \<or>
    isInsertion x \<and> runCall insertionSort x s = Blocked"
proof (cases x)
  case (AskFor name)
  then show ?thesis using AskFor_ok [OF assms, of name] by (auto simp: returns_iff)
next
  case (TakeOut now name)
  then show ?thesis using TakeOut_ok [OF assms, of now name] by simp
next
  case (CleanUp now ttl)
  then show ?thesis using CleanUp_ok [OF assms, of now ttl "snd s"] by simp
next
  case (BringIn statfs now ttl closes msgs name sz)
  then show ?thesis using bypop.cachePut_ok [OF assms, of statfs now ttl closes name sz msgs] by (auto simp: isInsertion_def)
qed

lemma cacheRun_ok: "cacheRun s \<Longrightarrow> cacheOk (fst s)"
proof (induction rule: cacheRun.induct)
  case (recovered fs now c)
  then show ?case by (simp add: cacheOk_start)
next
  case (called s x s')
  from runCall_ok [OF called.IH, of x] called.hyps(2) show ?case by (auto simp: returns_iff)
qed simp



end
