(* ===== verification/NetRun.thy ===== *)
theory NetRun
  imports PeerNet
begin

text \<open>
  The reachable states of an edge's view of the network: any sequence of its handlers and of the rounds of
  its loops. Every connection has one user, a neighbour or the registry, so that closing one never cuts
  off another.
\<close>

text \<open>The users of connections: the registry (\<^term>\<open>None\<close>) and the neighbours.\<close>

definition usedBy :: "'f AdjacentPeers \<Rightarrow> EdgePeer option \<Rightarrow> client option" where
  "usedBy s u = (case u of
      None \<Rightarrow> registryClient s
    | Some p \<Rightarrow> map_option peerConnection (fmlookup (peerConns s) p))"

definition net_ok :: "'f AdjacentPeers \<Rightarrow> bool" where
  "net_ok s \<longleftrightarrow> (\<forall>u c. usedBy s u = Some c \<longrightarrow> c < length (clients s)) \<and>
     (\<forall>u v c. usedBy s u = Some c \<and> usedBy s v = Some c \<longrightarrow> u = v)"

inductive netRun :: "'f AdjacentPeers \<Rightarrow> bool" where
  begun: "netRun adjacentsMap"
| entered: "netRun s \<Longrightarrow> enterNetwork attempts answer dial adjAnswer adjs s = Done s' \<Longrightarrow> netRun s'"
| added: "netRun s \<Longrightarrow> AddNeighbour dial p s = (ok, s') \<Longrightarrow> netRun s'"
| pinged: "netRun s \<Longrightarrow> Ping dial p s = (ok, s') \<Longrightarrow> netRun s'"
| pinging: "netRun s \<Longrightarrow> netRun (pingFunction mx answer ks s)"
| filtered: "netRun s \<Longrightarrow> NotifyBloomFilter (decode :: string \<Rightarrow> 'f option) p bits s = (ok, s') \<Longrightarrow> netRun s'"
| reported: "netRun s \<Longrightarrow> heartbeatFunction dial answer s = Done s' \<Longrightarrow> netRun s'"

section \<open>What keeps the invariant\<close>

lemma net_ok_less: "net_ok s \<Longrightarrow> usedBy s u = Some c \<Longrightarrow> c < length (clients s)"
  by (auto simp: net_ok_def)

lemma net_ok_user: "net_ok s \<Longrightarrow> usedBy s u = Some c \<Longrightarrow> usedBy s v = Some c \<Longrightarrow> u = v"
  by (auto simp: net_ok_def)

lemma usedBy_fields [simp]:
  "usedBy (s\<lparr>clients := cs\<rparr>) = usedBy s" "usedBy (s\<lparr>filterMap := fs\<rparr>) = usedBy s"
  "usedBy (closeClient c s) = usedBy s"
  by (simp_all add: usedBy_def closeClient_def fun_eq_iff split: option.split)

lemma usedBy_conns: "usedBy (s\<lparr>peerConns := fmupd p c (peerConns s)\<rparr>) = (usedBy s)(Some p \<mapsto> peerConnection c)"
  "usedBy (s\<lparr>peerConns := fmdrop p (peerConns s)\<rparr>) = (usedBy s)(Some p := None)"
  "usedBy (s\<lparr>registryClient := r\<rparr>) = (usedBy s)(None := r)"
  by (auto simp: usedBy_def fun_eq_iff split: option.split)

lemma net_ok_shrinks:
  assumes "net_ok s" and "length (clients s) \<le> length (clients s')"
    and "\<And>u c. usedBy s' u = Some c \<Longrightarrow> usedBy s u = Some c"
  shows "net_ok s'"
  unfolding net_ok_def
proof (intro conjI allI impI)
  show "c < length (clients s')" if "usedBy s' u = Some c" for u c
    using net_ok_less [OF assms(1) assms(3) [OF that]] assms(2) by simp
  show "u = v" if "usedBy s' u = Some c \<and> usedBy s' v = Some c" for u v c
    using that assms(3) net_ok_user [OF assms(1)] by blast
qed

text \<open>A connection without a user gets one.\<close>

lemma net_ok_grows:
  assumes "net_ok s" and "length (clients s) \<le> length (clients s')" and "c < length (clients s')"
    and "\<And>v. usedBy s v \<noteq> Some c" and "usedBy s' = (usedBy s)(u \<mapsto> c)"
  shows "net_ok s'"
  unfolding net_ok_def assms(5)
proof (intro conjI allI impI)
  show "d < length (clients s')" if "((usedBy s)(u \<mapsto> c)) v = Some d" for v d
    using that assms(2,3) net_ok_less [OF assms(1), of v d] by (auto split: if_splits)
  show "v = w" if "((usedBy s)(u \<mapsto> c)) v = Some d \<and> ((usedBy s)(u \<mapsto> c)) w = Some d" for v w d
    using that assms(4) [of v] assms(4) [of w] net_ok_user [OF assms(1), of v d w] by (auto split: if_splits)
qed

lemma fresh_client: "net_ok s \<Longrightarrow> usedBy s v \<noteq> Some (length (clients s))"
  using net_ok_less by blast

lemma ConnectToNode_ok:
  assumes "net_ok s" and "ConnectToNode dial addr s = (c, s1)"
  shows "net_ok s1 \<and> usedBy s1 = usedBy s \<and> length (clients s) \<le> length (clients s1) \<and>
    (c \<noteq> None \<longrightarrow> c = Some (length (clients s)) \<and> length (clients s1) = Suc (length (clients s)))"
  using assms net_ok_shrinks [OF assms(1), of s1] by (auto simp: ConnectToNode_def split: if_splits)

lemma connectAndAddNeighbour_ok:
  assumes "net_ok s" and "connectAndAddNeighbour dial p s = (c, s1)"
  shows "net_ok s1"
proof -
  obtain c0 s0 where cn: "ConnectToNode dial (PeerAddr p) s = (c0, s0)" by (metis surj_pair)
  note n = ConnectToNode_ok [OF assms(1) cn]
  show ?thesis
  proof (cases c0)
    case None
    with cn n assms(2) show ?thesis by (auto simp: connectAndAddNeighbour_def)
  next
    case (Some k)
    with cn assms(2) have "s1 = s0\<lparr>peerConns := fmupd p \<lparr>peerConnection = k, missedPing = 0\<rparr> (peerConns s0)\<rparr>"
      by (simp add: connectAndAddNeighbour_def)
    with n Some show ?thesis by (intro net_ok_grows [OF assms(1), of _ k "Some p"]) (auto simp: usedBy_conns fresh_client [OF assms(1)])
  qed
qed

lemma net_ok_close: "net_ok s \<Longrightarrow> net_ok (closeClient c s)"
  by (erule net_ok_shrinks) auto

lemma connectAndNotify_ok: "net_ok s \<Longrightarrow> net_ok (connectAndNotifyYourAdjacent dial answer adjs s)"
proof (induction adjs arbitrary: s)
  case Nil
  then show ?case by simp
next
  case (Cons a adjs)
  obtain c s1 where c: "connectAndAddNeighbour dial a s = (c, s1)" by (metis surj_pair)
  with connectAndAddNeighbour_ok [OF Cons.prems c] show ?case
    by (cases c) (auto intro: Cons.IH net_ok_close)
qed

lemma timeoutAction_ok: "net_ok s \<Longrightarrow> net_ok (timeoutAction mx p s)"
  by (erule net_ok_shrinks)
    (auto simp: timeoutAction_def removeBloomFilter_def closeClient_def Let_def usedBy_def split: option.splits if_splits)

lemma pingOne_ok: "net_ok s \<Longrightarrow> net_ok (pingOne mx answer p adjConn s)"
  unfolding pingOne_def
  by (auto intro: timeoutAction_ok net_ok_shrinks simp: usedBy_conns split: option.split if_splits)
     (erule net_ok_shrinks; auto simp: usedBy_def split: option.splits if_splits)

lemma pingLoop_ok: "net_ok s \<Longrightarrow> net_ok (pingLoop mx answer copied ks s)"
  by (induction mx answer copied ks s rule: pingLoop.induct) (auto simp: pingOne_ok split: option.split)

lemma Ping_ok: "net_ok s \<Longrightarrow> Ping dial p s = (ok, s') \<Longrightarrow> net_ok s'"
  using connectAndAddNeighbour_ok [of s dial p]
  by (auto simp: Ping_def connectAndAddNeighbour_def split: if_splits option.splits prod.splits)

lemma EnsureConnection_ok:
  "EnsureConnectionToTarget attempts s = Done (c, s1) \<Longrightarrow> net_ok s \<Longrightarrow>
     net_ok s1 \<and> c < length (clients s1) \<and> (\<forall>u. usedBy s1 u \<noteq> Some c)"
proof (induction attempts s rule: EnsureConnectionToTarget.induct)
  case (1 s)
  then show ?case by simp
next
  case (2 ok attempts s)
  obtain c0 s0 where cn: "ConnectToNode (\<lambda>_. ok) [] s = (c0, s0)" by (metis surj_pair)
  note n = ConnectToNode_ok [OF 2(3) cn]
  show ?case
  proof (cases c0)
    case None
    with 2(1) [OF cn [symmetric]] 2(2) cn n show ?thesis by simp
  next
    case (Some k)
    with cn 2(2) have "c = k" "s1 = s0" by simp_all
    with n Some fresh_client [OF 2(3)] show ?thesis by auto
  qed
qed

lemma net_ok_register:
  "net_ok s \<Longrightarrow> c < length (clients s) \<Longrightarrow> (\<And>u. usedBy s u \<noteq> Some c) \<Longrightarrow> net_ok (s\<lparr>registryClient := Some c\<rparr>)"
  by (erule net_ok_grows [where u = None and c = c]) (auto simp: usedBy_conns)

lemma enterNetwork_ok:
  assumes "net_ok s" and "enterNetwork attempts answer dial adjAnswer adjs s = Done s'"
  shows "net_ok s'"
proof -
  from assms(2) obtain c s1 where e: "EnsureConnectionToTarget attempts s = Done (c, s1)"
    and s': "s' = connectAndNotifyYourAdjacent dial adjAnswer adjs (s1\<lparr>registryClient := Some c\<rparr>)"
    by (auto simp: enterNetwork_def registerToRegistry_def and_then_Done_iff split: if_splits)
  from EnsureConnection_ok [OF e assms(1)] show ?thesis unfolding s' by (intro connectAndNotify_ok net_ok_register) auto
qed

lemma heartbeat_ok:
  assumes "net_ok s" and "heartbeatFunction dial answer s = Done s'"
  shows "net_ok s'"
proof (cases "registryClient s")
  case (Some c)
  with assms(2) have "s' = s \<or> s' = (closeClient c s)\<lparr>registryClient := None\<rparr>"
    by (auto simp: heartbeatFunction_def split: callResult.splits)
  with assms(1) show ?thesis by (auto intro: net_ok_shrinks simp: usedBy_conns split: if_splits)
next
  case None
  obtain c s1 where cn: "ConnectToNode dial ''registry:1234'' s = (c, s1)" by (metis surj_pair)
  note n = ConnectToNode_ok [OF assms(1) cn]
  show ?thesis
  proof (cases c)
    case c: None
    with None cn n assms(2) show ?thesis by (auto simp: heartbeatFunction_def)
  next
    case (Some k)
    let ?s = "s1\<lparr>registryClient := Some k\<rparr>"
    have ok: "net_ok ?s" using n Some fresh_client [OF assms(1)] by (intro net_ok_register) auto
    have "s' = ?s \<or> s' = (closeClient k ?s)\<lparr>registryClient := None\<rparr>"
      using assms(2) None cn Some by (auto simp: heartbeatFunction_def split: callResult.splits)
    then show ?thesis
    proof
      assume s': "s' = (closeClient k ?s)\<lparr>registryClient := None\<rparr>"
      show ?thesis unfolding s' by (rule net_ok_shrinks [OF ok]) (auto simp: usedBy_conns split: if_splits)
    qed (use ok in simp)
  qed
qed

lemma netRun_ok: "netRun s \<Longrightarrow> net_ok s"
proof (induction rule: netRun.induct)
  case begun
  then show ?case by (simp add: net_ok_def usedBy_def adjacentsMap_def split: option.split)
next
  case (entered s attempts answer dial adjAnswer adjs s')
  then show ?case by (blast intro: enterNetwork_ok)
next
  case (added s dial p ok s')
  then obtain c where "connectAndAddNeighbour dial p s = (c, s')" by (auto simp: AddNeighbour_def split: prod.splits)
  with added.IH show ?case by (rule connectAndAddNeighbour_ok)
next
  case (pinged s dial p ok s')
  then show ?case by (blast intro: Ping_ok)
next
  case (pinging s mx answer ks)
  then show ?case by (simp add: pingFunction_def pingLoop_ok)
next
  case (filtered s decode p bits ok s')
  then show ?case by (auto intro: net_ok_shrinks simp: NotifyBloomFilter_def split: option.splits)
next
  case (reported s dial answer s')
  then show ?case by (blast intro: heartbeat_ok)
qed

section \<open>Property\<close>



end
