(* ===== verification/PeerLoops.thy ===== *)
theory PeerLoops
  imports NetRun ConfigCopies Liveness
begin

text \<open>
  The goroutines of an edge that talk to its neighbours and to the registry again and again:
  \<^verbatim>\<open>pingsToAdjacents\<close> and \<^verbatim>\<open>heartbeatToRegistry\<close> (\<^verbatim>\<open>edge/peer/network.go\<close>), \<^verbatim>\<open>temporizedNotifyBloomFilters\<close>
  (\<^verbatim>\<open>edge/peer/peer.go\<close>). Each reads its settings and then runs rounds; a round comes with the answers of
  the network and the order of its loop.
\<close>

section \<open>Pings\<close>

text \<open>A round reads the waiting time when there is a neighbour to ping, and the limit of missed pings when
  one of them misses.\<close>

definition misses :: "(EdgePeer \<Rightarrow> callResult) \<Rightarrow> 'f AdjacentPeers \<Rightarrow> EdgePeer \<Rightarrow> bool" where
  "misses answer s p =
     (case fmlookup (peerConns s) p of
        None \<Rightarrow> False
      | Some c \<Rightarrow> rpcCall s (peerConnection c) (answer p) \<noteq> Replied)"

definition pingRound :: "config \<Rightarrow> (EdgePeer \<Rightarrow> callResult) \<times> EdgePeer keyOrder \<Rightarrow> 'f AdjacentPeers \<Rightarrow> 'f AdjacentPeers outcome" where
  "pingRound env r s =
     (let answer = fst r; ks = snd r (fmdom' (peerConns s)) in
      if ks = [] then Done s
      else and_then (GetInt64EnvironmentVariable env ''MAX_WAITING_TIME_FOR_PING'') (\<lambda>_.
        if list_ex (misses answer s) ks
        then and_then (GetIntEnvironmentVariable env ''MAX_MISSED_PING'') (\<lambda>maxMissedPing.
          Done (pingFunction maxMissedPing answer ks s))
        else Done (pingFunction 0 answer ks s)))"

fun pingRounds :: "config \<Rightarrow> ((EdgePeer \<Rightarrow> callResult) \<times> EdgePeer keyOrder) list \<Rightarrow> 'f AdjacentPeers \<Rightarrow> 'f AdjacentPeers outcome" where
  "pingRounds env [] s = Done s"
| "pingRounds env (r # rs) s = and_then (pingRound env r s) (pingRounds env rs)"

definition pingsToAdjacents :: "config \<Rightarrow> ((EdgePeer \<Rightarrow> callResult) \<times> EdgePeer keyOrder) list \<Rightarrow> 'f AdjacentPeers \<Rightarrow> 'f AdjacentPeers outcome" where
  "pingsToAdjacents env rounds s =
     and_then (GetIntEnvironmentVariable env ''PING_FREQUENCY'') (\<lambda>PING_FREQUENCY. pingRounds env rounds s)"

section \<open>Heartbeats to the registry\<close>

fun registryBeats :: "((string \<Rightarrow> bool) \<times> callResult) list \<Rightarrow> 'f AdjacentPeers \<Rightarrow> 'f AdjacentPeers outcome" where
  "registryBeats [] s = Done s"
| "registryBeats ((dial, answer) # rounds) s = and_then (heartbeatFunction dial answer s) (registryBeats rounds)"

definition heartbeatToRegistry :: "config \<Rightarrow> ((string \<Rightarrow> bool) \<times> callResult) list \<Rightarrow> 'f AdjacentPeers \<Rightarrow> 'f AdjacentPeers outcome" where
  "heartbeatToRegistry env rounds s =
     and_then (GetIntEnvironmentVariable env ''HEARTBEAT_FREQUENCY'') (\<lambda>HEARTBEAT_FREQUENCY. registryBeats rounds s)"

section \<open>Bloom filters\<close>

text \<open>
  The rounds of the notification: the filter of the cache at that time, the answers and the order. A round
  that fails is logged and the loop goes on: the result lists the peers each round reached.
\<close>

fun filterRounds :: "('f \<Rightarrow> 'b option) \<Rightarrow> ('f \<times> (EdgePeer \<Rightarrow> callResult) \<times> EdgePeer keyOrder) list \<Rightarrow>
    'f AdjacentPeers \<Rightarrow> (bool \<times> EdgePeer list) list" where
  "filterRounds GobEncode [] s = []"
| "filterRounds GobEncode ((bloomFilter, answer, order) # rounds) s =
     notifyBloomFiltersToAdjacents GobEncode bloomFilter answer (order (fmdom' (peerConns s))) s #
     filterRounds GobEncode rounds s"

definition temporizedNotifyBloomFilters :: "config \<Rightarrow> ('f \<Rightarrow> 'b option) \<Rightarrow>
    ('f \<times> (EdgePeer \<Rightarrow> callResult) \<times> EdgePeer keyOrder) list \<Rightarrow> 'f AdjacentPeers \<Rightarrow> (bool \<times> EdgePeer list) list outcome" where
  "temporizedNotifyBloomFilters env GobEncode rounds s =
     and_then (GetIntEnvironmentVariable env ''FILTER_NOTIFY_TIME'') (\<lambda>FILTER_NOTIFY_TIME. Done (filterRounds GobEncode rounds s))"

section \<open>A neighbour that never answers\<close>

lemma pingFunction_inv: "net_inv s \<Longrightarrow> enumerates ks (peerConns s) \<Longrightarrow> net_inv (pingFunction mx answer ks s)"
  using pingLoop_result [of ks s "peerConns s" _ mx answer] by (auto simp: pingFunction_def enumerates_def)

lemma pingRound_Done:
  assumes "GetInt64EnvironmentVariable env ''MAX_WAITING_TIME_FOR_PING'' = Done wait"
    and "GetIntEnvironmentVariable env ''MAX_MISSED_PING'' = Done mx"
    and "visitsAll order" and "fmlookup (peerConns s) p \<noteq> None" and "answer p \<noteq> Replied"
  shows "pingRound env (answer, order) s = Done (pingFunction mx answer (order (fmdom' (peerConns s))) s)"
proof -
  let ?ks = "order (fmdom' (peerConns s))"
  have "p \<in> set ?ks" using assms(4) enumerates_mem [OF visits_enumerates [OF assms(3)]] by fastforce
  moreover have "misses answer s p" using assms(4,5) by (auto simp: misses_def rpcCall_def)
  ultimately show ?thesis using assms(1,2) by (auto simp: pingRound_def Let_def list_ex_iff)
qed

text \<open>A neighbour that has left stays away as long as only this goroutine runs.\<close>

lemma pingRound_absent:
  assumes "pingRound env r s = Done s'" and "visitsAll (snd r)" and "net_inv s"
  shows "net_inv s' \<and> (fmlookup (peerConns s) p = None \<longrightarrow> fmlookup (peerConns s') p = None \<and> fmlookup (filterMap s') p = fmlookup (filterMap s) p)"
proof -
  let ?ks = "snd r (fmdom' (peerConns s))"
  have "s' = s \<or> (\<exists>mx. s' = pingFunction mx (fst r) ?ks s)"
    using assms(1) by (auto simp: pingRound_def Let_def and_then_Done_iff split: if_splits)
  then show ?thesis
    using pingFunction_effect [OF assms(3) visits_enumerates [OF assms(2)], of _ "fst r" p]
      pingFunction_inv [OF assms(3) visits_enumerates [OF assms(2)]] assms(3) by auto
qed

lemma rpcCall_missed: "answer \<noteq> Replied \<Longrightarrow> rpcCall s c answer \<noteq> Replied"
  by (simp add: rpcCall_def)

text \<open>The peer answers none of the rounds, and each round visits every neighbour.\<close>

definition silentRounds :: "EdgePeer \<Rightarrow> ((EdgePeer \<Rightarrow> callResult) \<times> EdgePeer keyOrder) list \<Rightarrow> bool" where
  "silentRounds p rounds \<longleftrightarrow> list_all (\<lambda>(answer, order). answer p \<noteq> Replied \<and> visitsAll order) rounds"

lemma silentRounds_simps [simp]:
  "silentRounds p []"
  "silentRounds p ((answer, order) # rs) \<longleftrightarrow> answer p \<noteq> Replied \<and> visitsAll order \<and> silentRounds p rs"
  by (simp_all add: silentRounds_def)

lemma pingRounds_gone:
  assumes "pingRounds env rs s = Done s'" and "silentRounds p rs" and "net_inv s" and "fmlookup (peerConns s) p = None"
  shows "fmlookup (peerConns s') p = None \<and> fmlookup (filterMap s') p = fmlookup (filterMap s) p"
  using assms
proof (induction rs arbitrary: s)
  case (Cons r rs)
  then obtain s1 where s1: "pingRound env r s = Done s1" "pingRounds env rs s1 = Done s'" by (auto simp: and_then_Done_iff)
  have "visitsAll (snd r)" and "silentRounds p rs" using Cons.prems(2) by (cases r, simp)+
  with pingRound_absent [OF s1(1) _ Cons.prems(3), of p] Cons.prems s1(2) Cons.IH [of s1] show ?case by simp
qed simp

text \<open>One round that the peer misses.\<close>

lemma silent_ping:
  assumes "net_inv s" and "visitsAll order" and "answer p \<noteq> Replied"
    and "fmlookup (peerConns s) p = Some (c\<lparr>missedPing := k\<rparr>)" and "0 \<le> k" and "k < mx" and "in_int64 mx"
  defines "s1 \<equiv> pingFunction mx answer (order (fmdom' (peerConns s))) s"
  shows "if k + 1 < mx then fmlookup (peerConns s1) p = Some (c\<lparr>missedPing := k + 1\<rparr>)
    else fmlookup (peerConns s1) p = None \<and> fmlookup (filterMap s1) p = None"
proof -
  have "wrap64 (k + 1) = k + 1" using assms(5-7) by (intro wrap64_id) auto
  with pingFunction_effect [OF assms(1) visits_enumerates [OF assms(2)], of mx answer p] assms(4)
    rpcCall_missed [where s = s and c = "peerConnection c", OF assms(3)]
  show ?thesis by (simp add: s1_def afterPing_def)
qed

lemma pingRounds_missed:
  assumes settings: "GetInt64EnvironmentVariable env ''MAX_WAITING_TIME_FOR_PING'' = Done wait"
      "GetIntEnvironmentVariable env ''MAX_MISSED_PING'' = Done mx" "in_int64 mx"
    and "pingRounds env rs s = Done s'" and "silentRounds p rs" and "net_inv s"
    and "fmlookup (peerConns s) p = Some (c\<lparr>missedPing := k\<rparr>)" and "0 \<le> k" and "k < mx"
  shows "if k + int (length rs) < mx then fmlookup (peerConns s') p = Some (c\<lparr>missedPing := k + int (length rs)\<rparr>)
      else fmlookup (peerConns s') p = None \<and> fmlookup (filterMap s') p = None"
  using assms(4-)
proof (induction rs arbitrary: s k)
  case (Cons r rs)
  obtain answer order where r: "r = (answer, order)" by (cases r)
  with Cons.prems(2) have silent: "answer p \<noteq> Replied" "visitsAll order" "silentRounds p rs" by auto
  let ?s = "pingFunction mx answer (order (fmdom' (peerConns s))) s"
  have rest: "pingRounds env rs ?s = Done s'"
    using Cons.prems(1,4) pingRound_Done [where answer = answer and p = p and s = s, OF settings(1,2) silent(2) _ silent(1)] by (simp add: r)
  have inv: "net_inv ?s" using pingFunction_inv [OF Cons.prems(3) visits_enumerates [OF silent(2)]] .
  note ping = silent_ping [where answer = answer and p = p and c = c and k = k, OF Cons.prems(3) silent(2,1) Cons.prems(4-6) settings(3)]
  show ?case
  proof (cases "k + 1 < mx")
    case True
    with ping Cons.IH [OF rest silent(3) inv, of "k + 1"] Cons.prems(5) show ?thesis by (simp add: algebra_simps)
  next
    case False
    with ping pingRounds_gone [OF rest silent(3) inv] show ?thesis by simp
  qed
qed simp

section \<open>Properties\<close>

text \<open>C24: a neighbour that answers no ping is dropped, with its filter, by the round at which it has missed
  the configured number of pings, and not before: until then its connection stays and the counter holds the
  number of missed pings.\<close>

theorem pings_drop_silent:
  assumes settings: "GetIntEnvironmentVariable env ''PING_FREQUENCY'' = Done freq"
      "GetInt64EnvironmentVariable env ''MAX_WAITING_TIME_FOR_PING'' = Done wait"
      "GetIntEnvironmentVariable env ''MAX_MISSED_PING'' = Done mx"
    and "net_inv s" and "fmlookup (peerConns s) p = Some c" and "missedPing c = 0" and "0 < mx"
    and "silentRounds p rounds"
    and run: "pingsToAdjacents env rounds s = Done s'"
  shows "if int (length rounds) < mx
    then fmlookup (peerConns s') p = Some (c\<lparr>missedPing := int (length rounds)\<rparr>)
    else fmlookup (peerConns s') p = None \<and> fmlookup (filterMap s') p = None"
proof -
  have mx: "in_int64 mx"
    using settings(3) wrap64_range by (auto simp: GetIntEnvironmentVariable_def and_then_Done_iff split: option.splits)
  from pingRounds_missed [OF settings(2,3) mx, where k = 0 and c = c and p = p and s = s and rs = rounds] run settings(1) assms(4-8) show ?thesis
    by (simp add: pingsToAdjacents_def AdjConnection.surjective)
qed

definition byPeer :: "EdgePeer keyOrder" where
  "byPeer S = sorted_list_of_set S"

lemma visitsAll_byPeer: "visitsAll byPeer"
  by (simp add: visitsAll_def byPeer_def)

definition pingSettings :: config where
  "pingSettings = fmupd ''PING_FREQUENCY'' ''5'' (fmupd ''MAX_WAITING_TIME_FOR_PING'' ''3'' (fmupd ''MAX_MISSED_PING'' ''3'' fmempty))"

lemma pingSettings_values:
  "GetIntEnvironmentVariable pingSettings ''PING_FREQUENCY'' = Done 5"
  "GetInt64EnvironmentVariable pingSettings ''MAX_WAITING_TIME_FOR_PING'' = Done 3"
  "GetIntEnvironmentVariable pingSettings ''MAX_MISSED_PING'' = Done 3"
  by (simp_all add: pingSettings_def GetIntEnvironmentVariable_def GetInt64EnvironmentVariable_def GetEnvironmentVariable_def
      ParseInt_def parseNat_def digit_val_def wrap64_id)

definition oneNeighbour :: "unit AdjacentPeers" where
  "oneNeighbour = \<lparr>peerConns = fmupd (EdgePeer ''b'') \<lparr>peerConnection = 0, missedPing = 0\<rparr> fmempty, filterMap = fmempty,
     clients = [True], registryClient = None\<rparr>"

theorem pings_drop_silent_witness:
  "\<exists>s'. pingsToAdjacents pingSettings (replicate 3 (\<lambda>_. Expired, byPeer)) oneNeighbour = Done s' \<and>
     fmlookup (peerConns s') (EdgePeer ''b'') = None"
proof -
  have "\<exists>s'. pingsToAdjacents pingSettings (replicate 3 (\<lambda>_. Expired, byPeer)) oneNeighbour = Done s'"
    by (simp add: pingsToAdjacents_def pingSettings_values numeral_3_eq_3 pingRound_def Let_def)
  then obtain s' where run: "pingsToAdjacents pingSettings (replicate 3 (\<lambda>_. Expired, byPeer)) oneNeighbour = Done s'" by blast
  have "net_inv oneNeighbour" "fmlookup (peerConns oneNeighbour) (EdgePeer ''b'') = Some \<lparr>peerConnection = 0, missedPing = 0\<rparr>"
    by (auto simp: oneNeighbour_def net_inv_def split: if_splits)
  from pings_drop_silent [OF pingSettings_values this _ _ _ run] run show ?thesis
    by (simp add: visitsAll_byPeer numeral_3_eq_3)
qed

end
