(* ===== verification/CacheLoops.thy ===== *)
theory CacheLoops
  imports FileCache Config
begin

text \<open>
  The goroutine that cleans the cache, \<^verbatim>\<open>cleanCachePeriodically\<close> of \<^verbatim>\<open>edge/cache/cache.go\<close>: passes of
  \<^verbatim>\<open>deleteExpiredFiles\<close>, each of which jumps over some expired files. When every cached file can be removed,
  each pass removes at least one expired file, so that repeated passes remove them all.
\<close>

section \<open>The passes\<close>

text \<open>A pass at time \<open>now\<close>; the time to live is read for each file the loop looks at.\<close>

definition cleanPass :: "config \<Rightarrow> int \<Rightarrow> Cache \<times> filesystem \<Rightarrow> (Cache \<times> filesystem) outcome" where
  "cleanPass env now s =
     and_then (GetIntEnvironmentVariable env ''CACHE_CLEANING_FREQUENCY'') (\<lambda>CACHE_CLEANING_FREQUENCY.
       if slen (cachingList (fst s)) = 0 then Done s
       else and_then (GetInt64EnvironmentVariable env ''TIME_TO_DELETION'') (\<lambda>ttl.
         deleteExpiredFiles now ttl (fst s) (snd s)))"

fun cleanCachePeriodically :: "config \<Rightarrow> int list \<Rightarrow> Cache \<times> filesystem \<Rightarrow> (Cache \<times> filesystem) outcome" where
  "cleanCachePeriodically env [] s = Done s"
| "cleanCachePeriodically env (now # rounds) s = and_then (cleanPass env now s) (cleanCachePeriodically env rounds)"

section \<open>Files that can be removed\<close>

definition all_removable :: "Cache \<Rightarrow> filesystem \<Rightarrow> bool" where
  "all_removable c fs \<longleftrightarrow> (\<forall>p\<in>set (elems (cachingList c)). removable fs (fileName (file_at c p)))"

definition expiredFiles :: "int \<Rightarrow> int \<Rightarrow> Cache \<Rightarrow> ptr set" where
  "expiredFiles now ttl c = {p \<in> set (elems (cachingList c)). expired now ttl (file_at c p)}"

lemma removable_other: "removable fs n \<Longrightarrow> n \<noteq> m \<Longrightarrow> removable (os_remove m fs) n"
  by (auto simp: removable_def content_on_disk content_os_remove)

lemma removal_step:
  assumes inv: "cache_inv c" and unl: "\<not> cacheMutex c" and rem: "all_removable c fs"
    and tr: "cells_tracked (i # is) c fs" and ex: "expired now ttl (file_at c (cells (cachingList c) ! i))"
  shows "returns (RemoveFileFromCache now (fileName (file_at c (cells (cachingList c) ! i))) c fs)
    (\<lambda>(c', fs'). cleaned now ttl c fs c' fs' \<and> cells_tracked is c' fs' \<and> all_removable c' fs' \<and>
      cells (cachingList c) ! i \<notin> set (elems (cachingList c')))"
proof -
  let ?q = "cells (cachingList c) ! i"
  let ?n = "fileName (file_at c ?q)"
  have member: "?q \<in> set (elems (cachingList c))" if "on_disk fs ?n"
    using that tr by (auto simp: cells_tracked_def)
  then have mapped: "removable fs ?n \<Longrightarrow> fmlookup (cachingMap c) ?n = Some ?q"
    using cache_inv_mapped [OF inv] by (simp add: removable_def)
  have out: "returns (RemoveFileFromCache now ?n c fs) (\<lambda>(c', fs'). taken_out ?q c fs c' fs')"
    by (rule returns_mono [OF RemoveFileFromCache_ok [where now = now, OF inv unl mapped]])
       (simp_all add: taken_out_def Let_def split: prod.splits)
  have "all_removable c' fs' \<and> ?q \<notin> set (elems (cachingList c'))" if t: "taken_out ?q c fs c' fs'" for c' fs'
  proof (cases "removable fs ?n")
    case True
    then have el: "elems (cachingList c') = filter (\<lambda>p. p \<noteq> ?q) (elems (cachingList c))" and fs': "fs' = os_remove ?n fs"
      and at: "file_at c' = file_at c"
      using t by (auto simp: taken_out_def Let_def removeWithLocks_ok intro: file_at_heap)
    have q: "?q \<in> set (elems (cachingList c))" using True member by (simp add: removable_def)
    have "removable fs' (fileName (file_at c' p))" if "p \<in> set (elems (cachingList c'))" for p
    proof -
      from that have p: "p \<in> set (elems (cachingList c))" "p \<noteq> ?q" by (auto simp: el)
      then have "fileName (file_at c p) \<noteq> ?n" using cache_inv_names_inj [OF inv p(1) q] by blast
      with rem p(1) show ?thesis by (simp add: all_removable_def fs' at removable_other)
    qed
    then show ?thesis by (auto simp: all_removable_def el)
  next
    case False
    then have q: "?q \<notin> set (elems (cachingList c))" using rem by (auto simp: all_removable_def)
    then have "\<not> on_disk fs ?n" using member by blast
    then have "fs' = fs" "c' = c" using t False by (auto simp: taken_out_def Let_def removeWithLocks_def)
    with rem q show ?thesis by simp
  qed
  moreover have "cells_tracked is c fs" using tr by (simp add: cells_tracked_def)
  ultimately show ?thesis
    using out by (elim returns_mono) (auto intro: taken_out_cleaned [OF inv _ ex member] taken_out_tracked)
qed

lemma cleaningLoop_removable:
  assumes "cache_inv c" and "\<not> cacheMutex c" and "cells_tracked is c fs" and "all_removable c fs"
  shows "returns (cleaningLoop now ttl is c fs) (\<lambda>(c', fs'). cleaned now ttl c fs c' fs' \<and> all_removable c' fs')"
  using assms
proof (induction "is" arbitrary: c fs)
  case Nil
  then show ?case by (simp add: cleaned_refl)
next
  case (Cons i "is")
  show ?case
  proof (cases "expired now ttl (file_at c (cells (cachingList c) ! i))")
    case True
    have "returns (and_then (RemoveFileFromCache now (fileName (file_at c (cells (cachingList c) ! i))) c fs)
        (\<lambda>(c', fs'). cleaningLoop now ttl is c' fs')) (\<lambda>(c', fs'). cleaned now ttl c fs c' fs' \<and> all_removable c' fs')"
    proof (rule returns_and_then [OF removal_step [OF Cons.prems(1,2,4,3) True]])
      fix r assume "case r of (c', fs') \<Rightarrow> cleaned now ttl c fs c' fs' \<and> cells_tracked is c' fs' \<and> all_removable c' fs' \<and>
        cells (cachingList c) ! i \<notin> set (elems (cachingList c'))"
      then obtain c1 fs1 where r: "r = (c1, fs1)" "cleaned now ttl c fs c1 fs1" "cells_tracked is c1 fs1" "all_removable c1 fs1"
        by (cases r) auto
      then have "returns (cleaningLoop now ttl is c1 fs1) (\<lambda>(c', fs'). cleaned now ttl c1 fs1 c' fs' \<and> all_removable c' fs')"
        by (intro Cons.IH) (auto simp: cleaned_def)
      with r show "returns (case r of (c', fs') \<Rightarrow> cleaningLoop now ttl is c' fs')
          (\<lambda>(c', fs'). cleaned now ttl c fs c' fs' \<and> all_removable c' fs')"
        by (auto elim!: returns_mono intro: cleaned_trans)
    qed
    with True show ?thesis by (simp add: Let_def)
  next
    case False
    with Cons show ?thesis by (simp add: Let_def cells_tracked_def)
  qed
qed

lemma cleaningLoop_skip:
  "(\<And>i. i \<in> set is \<Longrightarrow> \<not> expired now ttl (file_at c (cells (cachingList c) ! i))) \<Longrightarrow>
     cleaningLoop now ttl (is @ js) c fs = cleaningLoop now ttl js c fs"
  by (induction "is") (simp_all add: Let_def)

lemma expiredFiles_cleaned:
  assumes "cleaned now ttl c fs c' fs'"
  shows "expiredFiles now ttl c' \<subseteq> expiredFiles now ttl c"
  using assms by (auto simp: expiredFiles_def cleaned_def dest: file_at_heap)

text \<open>A pass removes an expired file when there is one.\<close>

lemma pass_progress:
  assumes inv: "cache_inv c" and unl: "\<not> cacheMutex c" and rem: "all_removable c fs"
  shows "returns (deleteExpiredFiles now ttl c fs) (\<lambda>(c', fs'). cleaned now ttl c fs c' fs' \<and> all_removable c' fs' \<and>
    (expiredFiles now ttl c \<noteq> {} \<longrightarrow> card (expiredFiles now ttl c') < card (expiredFiles now ttl c)))"
proof (cases "\<exists>i < slen (cachingList c). expired now ttl (file_at c (cells (cachingList c) ! i))")
  case False
  have ok: "slice_ok (cachingList c)" using inv by blast
  have "expiredFiles now ttl c = {}"
    using False ok by (auto simp: expiredFiles_def elems_def slice_ok_def in_set_conv_nth)
  with cleaningLoop_removable [OF inv unl cells_tracked_all [OF ok] rem, of now ttl] show ?thesis
    by (simp add: deleteExpiredFiles_def)
next
  case True
  define i where "i = (LEAST i. i < slen (cachingList c) \<and> expired now ttl (file_at c (cells (cachingList c) ! i)))"
  have i: "i < slen (cachingList c)" "expired now ttl (file_at c (cells (cachingList c) ! i))"
    using LeastI_ex [OF True] by (auto simp: i_def)
  have early: "\<not> expired now ttl (file_at c (cells (cachingList c) ! j))" if "j < i" for j
    using not_less_Least [of j "\<lambda>i. i < slen (cachingList c) \<and> expired now ttl (file_at c (cells (cachingList c) ! i))"] that i(1)
    by (auto simp: i_def [symmetric])
  let ?q = "cells (cachingList c) ! i" and ?rest = "[Suc i..< slen (cachingList c)]"
  have ok: "slice_ok (cachingList c)" using inv by blast
  have q: "?q \<in> expiredFiles now ttl c"
    using i ok by (auto simp: expiredFiles_def elems_def slice_ok_def in_set_conv_nth)
  have "[0..< slen (cachingList c)] = [0..<i] @ i # ?rest"
    using i(1) upt_add_eq_append [of 0 i "slen (cachingList c) - i"] by (simp add: upt_conv_Cons)
  then have run: "deleteExpiredFiles now ttl c fs =
      and_then (RemoveFileFromCache now (fileName (file_at c ?q)) c fs) (\<lambda>(c', fs'). cleaningLoop now ttl ?rest c' fs')"
    using cleaningLoop_skip [of "[0..<i]" now ttl c "i # ?rest" fs] early i(2) by (simp add: deleteExpiredFiles_def Let_def)
  have tr: "cells_tracked (i # ?rest) c fs"
    using cells_tracked_all [OF ok, of fs] i(1) by (auto simp: cells_tracked_def)
  show ?thesis unfolding run
  proof (rule returns_and_then [OF removal_step [OF inv unl rem tr i(2)]])
    fix r assume r: "case r of (c', fs') \<Rightarrow> cleaned now ttl c fs c' fs' \<and> cells_tracked ?rest c' fs' \<and> all_removable c' fs' \<and>
      ?q \<notin> set (elems (cachingList c'))"
    obtain c1 fs1 where r1: "r = (c1, fs1)" by (cases r)
    with r have c1: "cleaned now ttl c fs c1 fs1" "cells_tracked ?rest c1 fs1" "all_removable c1 fs1"
      "?q \<notin> set (elems (cachingList c1))" by auto
    then have "cache_inv c1" "\<not> cacheMutex c1" by (auto simp: cleaned_def)
    from cleaningLoop_removable [OF this c1(2,3)]
    have "returns (cleaningLoop now ttl ?rest c1 fs1) (\<lambda>(c', fs'). cleaned now ttl c1 fs1 c' fs' \<and> all_removable c' fs')" .
    moreover have "card (expiredFiles now ttl c2) < card (expiredFiles now ttl c)" if "cleaned now ttl c1 fs1 c2 fs2" for c2 fs2
    proof (rule psubset_card_mono)
      show "finite (expiredFiles now ttl c)" by (simp add: expiredFiles_def)
      have "?q \<notin> expiredFiles now ttl c1" using c1(4) by (simp add: expiredFiles_def)
      with q expiredFiles_cleaned [OF c1(1)] expiredFiles_cleaned [OF that]
      show "expiredFiles now ttl c2 \<subset> expiredFiles now ttl c" by blast
    qed
    ultimately show "returns (case r of (c', fs') \<Rightarrow> cleaningLoop now ttl ?rest c' fs')
        (\<lambda>(c', fs'). cleaned now ttl c fs c' fs' \<and> all_removable c' fs' \<and>
          (expiredFiles now ttl c \<noteq> {} \<longrightarrow> card (expiredFiles now ttl c') < card (expiredFiles now ttl c)))"
      unfolding r1 prod.case by (elim returns_mono) (auto intro: cleaned_trans [OF c1(1)])
  qed
qed

text \<open>So does the queue.\<close>

lemma pass_shrinks:
  assumes "cleaned now ttl c fs c' fs'" and "card (expiredFiles now ttl c') < card (expiredFiles now ttl c)"
  shows "card (set (elems (cachingList c'))) < card (set (elems (cachingList c)))"
proof (rule psubset_card_mono)
  have sub: "set (elems (cachingList c')) \<subseteq> set (elems (cachingList c))" and at: "file_at c' = file_at c"
    using assms(1) by (auto simp: cleaned_def dest: file_at_heap)
  have "expiredFiles now ttl c' = expiredFiles now ttl c" if "set (elems (cachingList c')) = set (elems (cachingList c))"
    by (simp add: expiredFiles_def that at)
  with assms(2) have "set (elems (cachingList c')) \<noteq> set (elems (cachingList c))" by auto
  with sub show "set (elems (cachingList c')) \<subset> set (elems (cachingList c))" by blast
qed simp

lemma expired_later: "now0 \<le> now \<Longrightarrow> expiredFiles now0 ttl c \<subseteq> expiredFiles now ttl c"
  by (auto simp: expiredFiles_def expired_def)

lemma expiredFiles_shrink:
  "cleaned now ttl c fs c' fs' \<Longrightarrow> expiredFiles now0 ttl c' \<subseteq> expiredFiles now0 ttl c"
  by (auto simp: expiredFiles_def cleaned_def dest: file_at_heap)

lemma cleanPass_settings:
  assumes "GetIntEnvironmentVariable env ''CACHE_CLEANING_FREQUENCY'' = Done freq"
    and "GetInt64EnvironmentVariable env ''TIME_TO_DELETION'' = Done ttl"
  shows "cleanPass env now s = deleteExpiredFiles now ttl (fst s) (snd s)"
  using assms by (simp add: cleanPass_def deleteExpiredFiles_def prod_eq_iff)

text \<open>What a list of passes that start no earlier than \<open>now0\<close> leaves.\<close>

definition cleared :: "int \<Rightarrow> int \<Rightarrow> int list \<Rightarrow> Cache \<Rightarrow> filesystem \<Rightarrow> Cache \<times> filesystem \<Rightarrow> bool" where
  "cleared now0 ttl rounds c fs = (\<lambda>(c', fs').
     cache_inv c' \<and> \<not> cacheMutex c' \<and> expiredFiles now0 ttl c' \<subseteq> expiredFiles now0 ttl c \<and>
     (card (set (elems (cachingList c))) \<le> length rounds \<longrightarrow> expiredFiles now0 ttl c' = {}) \<and>
     (\<forall>n f. cache_view c' n = Some f \<longrightarrow> cache_view c n = Some f) \<and>
     (\<forall>n f. cache_view c n = Some f \<longrightarrow> (\<forall>now\<in>set rounds. \<not> expired now ttl f) \<longrightarrow>
        cache_view c' n = Some f \<and> content fs' n = content fs n))"

lemma cleared_step:
  assumes inv: "cache_inv c" and cl: "cleaned now ttl c fs c1 fs1" and "now0 \<le> now"
    and prog: "expiredFiles now ttl c \<noteq> {} \<longrightarrow> card (expiredFiles now ttl c1) < card (expiredFiles now ttl c)"
    and rest: "cleared now0 ttl rounds c1 fs1 s"
  shows "cleared now0 ttl (now # rounds) c fs s"
proof -
  obtain c2 fs2 where s: "s = (c2, fs2)" by (cases s)
  have r: "cache_inv c2" "\<not> cacheMutex c2" "expiredFiles now0 ttl c2 \<subseteq> expiredFiles now0 ttl c1"
    "card (set (elems (cachingList c1))) \<le> length rounds \<longrightarrow> expiredFiles now0 ttl c2 = {}"
    "\<forall>n f. cache_view c2 n = Some f \<longrightarrow> cache_view c1 n = Some f"
    "\<forall>n f. cache_view c1 n = Some f \<longrightarrow> (\<forall>now\<in>set rounds. \<not> expired now ttl f) \<longrightarrow>
      cache_view c2 n = Some f \<and> content fs2 n = content fs1 n"
    using rest unfolding cleared_def s prod.case by blast+
  note sub = expiredFiles_shrink [OF cl, of now0] expired_later [OF assms(3), of ttl c]
  have "expiredFiles now0 ttl c2 = {}" if "card (set (elems (cachingList c))) \<le> length (now # rounds)"
  proof (cases "expiredFiles now ttl c = {}")
    case True
    with sub r(3) show ?thesis by blast
  next
    case False
    with prog pass_shrinks [OF cl] that r(4) show ?thesis by simp
  qed
  moreover have "\<forall>n f. cache_view c2 n = Some f \<longrightarrow> cache_view c n = Some f"
    using r(5) cleaned_view(1) [OF inv cl] by blast
  moreover have "cache_view c2 n = Some f \<and> content fs2 n = content fs n"
    if v: "cache_view c n = Some f" "\<forall>now\<in>set (now # rounds). \<not> expired now ttl f" for n f
  proof -
    have "\<not> expired now ttl f" and later: "\<forall>now\<in>set rounds. \<not> expired now ttl f" using v(2) by simp_all
    from cleaned_view(2) [OF inv cl v(1) this(1)] have 1: "cache_view c1 n = Some f" "content fs1 n = content fs n" by simp_all
    from r(6) 1(1) later have "cache_view c2 n = Some f \<and> content fs2 n = content fs1 n" by blast
    with 1(2) show ?thesis by simp
  qed
  moreover have "expiredFiles now0 ttl c2 \<subseteq> expiredFiles now0 ttl c" using r(3) sub(1) by (rule subset_trans)
  ultimately show ?thesis unfolding cleared_def s prod.case using r(1,2) by blast
qed

lemma passes_clear:
  assumes settings: "GetIntEnvironmentVariable env ''CACHE_CLEANING_FREQUENCY'' = Done freq"
      "GetInt64EnvironmentVariable env ''TIME_TO_DELETION'' = Done ttl"
    and "cache_inv c" and "\<not> cacheMutex c" and "all_removable c fs" and "\<forall>now\<in>set rounds. now0 \<le> now"
  shows "returns (cleanCachePeriodically env rounds (c, fs)) (cleared now0 ttl rounds c fs)"
  using assms(3-6)
proof (induction rounds arbitrary: c fs)
  case Nil
  then show ?case by (simp add: cleared_def expiredFiles_def)
next
  case (Cons now rounds)
  show ?case
    unfolding cleanCachePeriodically.simps cleanPass_settings [OF settings] fst_conv snd_conv
  proof (rule returns_and_then [OF pass_progress [OF Cons.prems(1-3), of now ttl]])
    fix r assume r: "case r of (c', fs') \<Rightarrow> cleaned now ttl c fs c' fs' \<and> all_removable c' fs' \<and>
      (expiredFiles now ttl c \<noteq> {} \<longrightarrow> card (expiredFiles now ttl c') < card (expiredFiles now ttl c))"
    obtain c1 fs1 where r1: "r = (c1, fs1)" by (cases r)
    with r have cl: "cleaned now ttl c fs c1 fs1" and rem: "all_removable c1 fs1"
      and prog: "expiredFiles now ttl c \<noteq> {} \<longrightarrow> card (expiredFiles now ttl c1) < card (expiredFiles now ttl c)" by auto
    have "cache_inv c1" "\<not> cacheMutex c1" using cl by (auto simp: cleaned_def)
    with Cons.IH [of c1 fs1] rem Cons.prems(4)
    have "returns (cleanCachePeriodically env rounds r) (cleared now0 ttl rounds c1 fs1)" by (simp add: r1)
    then show "returns (cleanCachePeriodically env rounds r) (cleared now0 ttl (now # rounds) c fs)"
      using cleared_step [OF Cons.prems(1) cl _ prog] Cons.prems(4) by (elim returns_mono) simp
  qed
qed

section \<open>Properties\<close>

text \<open>C17: although each pass jumps over expired files, as many passes as there are cached files remove
  every file that had expired before the first of them, when the directory lets its files be removed; a file
  that has expired at none of the passes stays with its content, and nothing new enters the cache.\<close>

theorem cleaning_clears_all:
  assumes settings: "GetIntEnvironmentVariable env ''CACHE_CLEANING_FREQUENCY'' = Done freq"
      "GetInt64EnvironmentVariable env ''TIME_TO_DELETION'' = Done ttl"
    and "cache_inv c" and "\<not> cacheMutex c" and "all_removable c fs"
    and "\<forall>now\<in>set rounds. now0 \<le> now" and "length (elems (cachingList c)) \<le> length rounds"
  shows "returns (cleanCachePeriodically env rounds (c, fs)) (\<lambda>(c', fs'). cache_inv c' \<and>
    (\<forall>n f. cache_view c' n = Some f \<longrightarrow> cache_view c n = Some f \<and> \<not> expired now0 ttl f) \<and>
    (\<forall>n f. cache_view c n = Some f \<and> (\<forall>now\<in>set rounds. \<not> expired now ttl f) \<longrightarrow>
       cache_view c' n = Some f \<and> content fs' n = content fs n))"
proof (rule returns_mono [OF passes_clear [OF assms(1-6)]])
  fix r assume r: "cleared now0 ttl rounds c fs r"
  obtain c' fs' where s: "r = (c', fs')" by (cases r)
  have "card (set (elems (cachingList c))) \<le> length rounds" using assms(7) card_length le_trans by blast
  with r have none: "expiredFiles now0 ttl c' = {}" and inv: "cache_inv c'" by (simp_all add: cleared_def s)
  have "\<not> expired now0 ttl f" if "cache_view c' n = Some f" for n f
    using that none cache_inv_lookup [OF inv, of n] by (auto simp: cache_view_def expiredFiles_def)
  with r show "case r of (c', fs') \<Rightarrow> cache_inv c' \<and>
    (\<forall>n f. cache_view c' n = Some f \<longrightarrow> cache_view c n = Some f \<and> \<not> expired now0 ttl f) \<and>
    (\<forall>n f. cache_view c n = Some f \<and> (\<forall>now\<in>set rounds. \<not> expired now ttl f) \<longrightarrow>
       cache_view c' n = Some f \<and> content fs' n = content fs n)"
    unfolding cleared_def s prod.case by blast
qed

definition cleaningSettings :: config where
  "cleaningSettings = fmupd ''CACHE_CLEANING_FREQUENCY'' ''60'' (fmupd ''TIME_TO_DELETION'' ''180'' fmempty)"

lemma cleaningSettings_values:
  "GetIntEnvironmentVariable cleaningSettings ''CACHE_CLEANING_FREQUENCY'' = Done 60"
  "GetInt64EnvironmentVariable cleaningSettings ''TIME_TO_DELETION'' = Done 180"
  by (simp_all add: cleaningSettings_def GetIntEnvironmentVariable_def GetInt64EnvironmentVariable_def GetEnvironmentVariable_def
      ParseInt_def parseNat_def digit_val_def wrap64_id)

theorem cleaning_clears_all_witness:
  "returns (cleanCachePeriodically cleaningSettings [300 * 10 ^ 9, 360 * 10 ^ 9]
      (cache_of [oldFile, freshFile], plain_disk [(''a'', Regular [1]), (''b'', Regular [2])]))
    (\<lambda>(c', fs'). cache_view c' ''a'' = None \<and> cache_view c' ''b'' = Some freshFile)"
proof -
  let ?c = "cache_of [oldFile, freshFile]" and ?fs = "plain_disk [(''a'', Regular [1]), (''b'', Regular [2])]"
  have inv: "cache_inv ?c" by (rule cache_inv_cache_of) (simp add: oldFile_def freshFile_def)
  have rem: "all_removable ?c ?fs"
    by (simp add: all_removable_def file_at_def oldFile_def freshFile_def removable_def plain_disk_def on_disk_def less_Suc_eq)
  have view: "cache_view ?c ''a'' = Some oldFile" "cache_view ?c ''b'' = Some freshFile"
    by (simp_all add: cache_view_cache_of oldFile_def freshFile_def)
  have ages: "expired (300 * 10 ^ 9) 180 oldFile" "\<not> expired (300 * 10 ^ 9) 180 freshFile" "\<not> expired (360 * 10 ^ 9) 180 freshFile"
    by (simp_all add: expired_def oldFile_def freshFile_def wrap64_def)
  obtain c' fs' where run: "cleanCachePeriodically cleaningSettings [300 * 10 ^ 9, 360 * 10 ^ 9] (?c, ?fs) = Done (c', fs')"
    and old: "\<forall>n f. cache_view c' n = Some f \<longrightarrow> cache_view ?c n = Some f \<and> \<not> expired (300 * 10 ^ 9) 180 f"
    and kept: "\<forall>n f. cache_view ?c n = Some f \<and> (\<forall>now\<in>set [300 * 10 ^ 9, 360 * 10 ^ 9]. \<not> expired now 180 f) \<longrightarrow>
      cache_view c' n = Some f \<and> content fs' n = content ?fs n"
    using cleaning_clears_all [OF cleaningSettings_values inv _ rem, of "[300 * 10 ^ 9, 360 * 10 ^ 9]" "300 * 10 ^ 9"]
    by (auto simp: returns_iff)
  have "\<forall>now\<in>set [300 * 10 ^ 9, 360 * 10 ^ 9]. \<not> expired now 180 freshFile" using ages by simp
  with kept view(2) have b: "cache_view c' ''b'' = Some freshFile" by blast
  have "cache_view c' ''a'' \<noteq> Some f" for f
  proof
    assume "cache_view c' ''a'' = Some f"
    with old have "cache_view ?c ''a'' = Some f" "\<not> expired (300 * 10 ^ 9) 180 f" by blast+
    with view(1) ages(1) show False by simp
  qed
  then have "cache_view c' ''a'' = None" by (cases "cache_view c' ''a''") auto
  with b show ?thesis unfolding run by simp
qed

end
