(* ===== verification/EdgeStart.thy ===== *)
theory EdgeStart
  imports Startup PeerLoops CacheLoops EdgeServer
begin

text \<open>
  The start of an edge: \<^verbatim>\<open>edge/main.go\<close>, \<^verbatim>\<open>ActAsPeer\<close>, \<^verbatim>\<open>registerServiceForEdge\<close> and
  \<^verbatim>\<open>setupGRPCForOtherEdges\<close> of \<^verbatim>\<open>peer/peer.go\<close>, \<^verbatim>\<open>StartCache\<close> of \<^verbatim>\<open>cache/cache.go\<close>, \<^verbatim>\<open>ActAsServer\<close> and
  \<^verbatim>\<open>setUpGRPCForClients\<close> of \<^verbatim>\<open>server/server.go\<close>. The edge serves its peers before it has recovered its
  cache: between \<^verbatim>\<open>ActAsPeer\<close> and \<^verbatim>\<open>ActAsServer\<close> its handlers can run on the empty cache.
\<close>

section \<open>The surroundings\<close>

text \<open>What the operating system answers: the interfaces at each of the three times they are asked for,
  the registration of the service and the three listeners.\<close>

record edgeHost =
  peerInterfaces :: "ipAddress list option"
  filesInterfaces :: "ipAddress list option"
  clientsInterfaces :: "ipAddress list option"
  registerPeer :: "string option"
  listenPeers :: "string \<Rightarrow> string + string"
  listenFiles :: "string \<Rightarrow> string + string"
  listenClients :: "string \<Rightarrow> string + string"

text \<open>What the network answers: the attempts to reach the registry, its answer with the neighbours or the
  text of the failure, and the neighbours.\<close>

record edgeNet =
  registryAttempts :: "bool list"
  registryAnswer :: callResult
  registryFailure :: string
  givenNeighbours :: "EdgePeer list"
  neighbourDial :: "string \<Rightarrow> bool"
  neighbourAnswer :: "EdgePeer \<Rightarrow> callResult"

section \<open>Entering the network\<close>

text \<open>The message and the error that go to \<^verbatim>\<open>ExitOnError\<close>, or the peer with its address.\<close>

definition registerServiceForEdge :: "edgeHost \<Rightarrow> string \<Rightarrow> (string \<times> (string + EdgePeer)) run" where
  "registerServiceForEdge host ipAddrStr =
     (case registerPeer host of
        Some err \<Rightarrow> continue (''[*ERROR*] -> Errore registrazione del servizio'', Inl err)
      | None \<Rightarrow>
          (case listenPeers host (ipAddrStr @ '':0'') of
             Inl err \<Rightarrow> continue (''[*ERROR*] -> Errore listen'', Inl err)
           | Inr addr \<Rightarrow> bind_run (launch (ServePeers addr)) (\<lambda>_. continue ('''', Inr (EdgePeer addr)))))"

definition setupGRPCForOtherEdges :: "config \<Rightarrow> edgeHost \<Rightarrow> PeerFileServer run" where
  "setupGRPCForOtherEdges env host =
     bind_run (ExitOnError ''[*GRPC_SETUP_ERROR*] -> impossibile ottenere l'indirizzo ip per l'edge peer''
       (ipOrError (filesInterfaces host))) (\<lambda>ipAddr.
     bind_run (addrOf (listenFiles host (ipAddr @ '':0''))) (\<lambda>serverEndpoint.
     bind_run (setting ''MAX_GRPC_MESSAGE_SIZE'' (GetIntEnvironmentVariable env ''MAX_GRPC_MESSAGE_SIZE'')) (\<lambda>_.
     bind_run (launch (ServeFiles serverEndpoint)) (\<lambda>_. continue \<lparr>IpAddr = serverEndpoint\<rparr>))))"

definition ActAsPeer :: "config \<Rightarrow> edgeHost \<Rightarrow> edgeNet \<Rightarrow> 'f Edge run" where
  "ActAsPeer env host net =
     bind_run (ExitOnError '''' (ipOrError (peerInterfaces host))) (\<lambda>ipAddr.
     bind_run (registerServiceForEdge host ipAddr) (\<lambda>(errorMessage, registered).
     bind_run (ExitOnError errorMessage registered) (\<lambda>self.
     bind_run (setupGRPCForOtherEdges env host) (\<lambda>fileServer.
     bind_run (setting ''REGISTRY_ADDR'' (GetEnvironmentVariable env ''REGISTRY_ADDR'')) (\<lambda>_.
     bind_run (setting ''SLEEP_TIME_TO_RECONNECT'' (GetIntEnvironmentVariable env ''SLEEP_TIME_TO_RECONNECT'')) (\<lambda>_.
     bind_run (lift_outcome (registerToRegistry (registryAttempts net) (registryAnswer net) adjacentsMap)) (\<lambda>(registryClientPtr, s).
     bind_run (setting ''MAX_WAITING_TIME_FOR_EDGE'' (GetInt64EnvironmentVariable env ''MAX_WAITING_TIME_FOR_EDGE'')) (\<lambda>_.
     bind_run (ExitOnError ''[*ERROR*] -> Impossibile registrare il servizio sul registry server''
       (case registryClientPtr of None \<Rightarrow> Inl (registryFailure net) | Some c \<Rightarrow> Inr c)) (\<lambda>c.
     bind_run (launch HeartbeatToRegistry) (\<lambda>_.
     bind_run (launch PingsToAdjacents) (\<lambda>_.
     bind_run (launch NotifyFilters) (\<lambda>_.
     continue \<lparr>SelfPeer = self, peerFileServer = fileServer, edgeCache = selfCache, requestMap = fmempty,
       adjacents = connectAndNotifyYourAdjacent (neighbourDial net) (neighbourAnswer net) (givenNeighbours net)
         (s\<lparr>registryClient := Some c\<rparr>)\<rparr>))))))))))))"

section \<open>Serving the clients\<close>

definition StartCache :: "config \<Rightarrow> int \<Rightarrow> filesystem \<Rightarrow> Cache \<Rightarrow> Cache run" where
  "StartCache env now fs c =
     bind_run (setting ''FILES_PATH'' (GetEnvironmentVariable env ''FILES_PATH'')) (\<lambda>_.
     bind_run (lift_outcome (ActivateCacheRecovery now fs c)) (\<lambda>c'.
     bind_run (launch CleanCache) (\<lambda>_. continue c')))"

definition setUpGRPCForClients :: "config \<Rightarrow> edgeHost \<Rightarrow> BalancerLink \<Rightarrow> BalancerLink run" where
  "setUpGRPCForClients env host l =
     bind_run (ExitOnError ''[*GRPC_SETUP_ERROR*] -> impossibile ottenere l'indirizzo ip per l'edge server''
       (ipOrError (clientsInterfaces host))) (\<lambda>ipAddr.
     bind_run (addrOf (listenClients host (ipAddr @ '':0''))) (\<lambda>addr.
     bind_run (setting ''MAX_GRPC_MESSAGE_SIZE'' (GetIntEnvironmentVariable env ''MAX_GRPC_MESSAGE_SIZE'')) (\<lambda>_.
     bind_run (launch (ServeClients addr)) (\<lambda>_. continue (l\<lparr>edgeServer := addr\<rparr>)))))"

definition initialLink :: BalancerLink where
  "initialLink = \<lparr>edgeServer = '''', workload = 0, balancerConnection = False\<rparr>"

text \<open>\<^verbatim>\<open>ActAsServer\<close> then waits for ever; the state is the one the launched goroutines and handlers share.\<close>

definition ActAsServer :: "config \<Rightarrow> edgeHost \<Rightarrow> int \<Rightarrow> filesystem \<Rightarrow> 'f Edge \<Rightarrow> ('f Edge \<times> BalancerLink) run" where
  "ActAsServer env host now fs e =
     bind_run (StartCache env now fs (edgeCache e)) (\<lambda>c.
     bind_run (setUpGRPCForClients env host initialLink) (\<lambda>l.
     bind_run (launch HeartbeatToBalancer) (\<lambda>_. continue (e\<lparr>edgeCache := c\<rparr>, l))))"

definition edgeMain :: "(string \<Rightarrow> string option) \<Rightarrow> string list \<Rightarrow> config \<Rightarrow> edgeHost \<Rightarrow> edgeNet \<Rightarrow> int \<Rightarrow> filesystem \<Rightarrow>
    (config \<times> 'f Edge \<times> BalancerLink) run" where
  "edgeMain files ks env host net now fs =
     bind_run (setting ''conf.properties'' (SetupEnvVariables files ks ''conf.properties'' env)) (\<lambda>env'.
     bind_run (ActAsPeer env' host net) (\<lambda>e.
     bind_run (ActAsServer env' host now fs e) (\<lambda>(e', l). continue (env', e', l))))"

section \<open>What the start achieves\<close>

lemma registerServiceForEdge_Inr [startup]:
  "registerServiceForEdge host ip = (tr, Inr r) \<longleftrightarrow>
     (case registerPeer host of
        Some err \<Rightarrow> tr = [] \<and> r = (''[*ERROR*] -> Errore registrazione del servizio'', Inl err)
      | None \<Rightarrow> (case listenPeers host (ip @ '':0'') of
          Inl err \<Rightarrow> tr = [] \<and> r = (''[*ERROR*] -> Errore listen'', Inl err)
        | Inr addr \<Rightarrow> tr = [Go (ServePeers addr)] \<and> r = ('''', Inr (EdgePeer addr))))"
  by (auto simp: registerServiceForEdge_def continue_def launch_def bind_run_def split: option.split sum.split)

lemma setupGRPCForOtherEdges_Inr [startup]:
  "setupGRPCForOtherEdges env host = (tr, Inr srv) \<longleftrightarrow>
     (\<exists>ip addr size. GetMyIPAddr (filesInterfaces host) = Some ip \<and> listenFiles host (ip @ '':0'') = Inr addr \<and>
       GetIntEnvironmentVariable env ''MAX_GRPC_MESSAGE_SIZE'' = Done size \<and>
       tr = [Go (ServeFiles addr)] \<and> srv = \<lparr>IpAddr = addr\<rparr>)"
  by (auto simp: setupGRPCForOtherEdges_def startup ipOrError_def split: option.splits)

lemma setUpGRPCForClients_Inr [startup]:
  "setUpGRPCForClients env host l = (tr, Inr l') \<longleftrightarrow>
     (\<exists>ip addr size. GetMyIPAddr (clientsInterfaces host) = Some ip \<and> listenClients host (ip @ '':0'') = Inr addr \<and>
       GetIntEnvironmentVariable env ''MAX_GRPC_MESSAGE_SIZE'' = Done size \<and>
       tr = [Go (ServeClients addr)] \<and> l' = l\<lparr>edgeServer := addr\<rparr>)"
  by (auto simp: setUpGRPCForClients_def startup ipOrError_def split: option.splits)

lemma StartCache_Inr [startup]:
  "StartCache env now fs c = (tr, Inr c') \<longleftrightarrow>
     (\<exists>path. GetEnvironmentVariable env ''FILES_PATH'' = Done path) \<and> ActivateCacheRecovery now fs c = Done c' \<and> tr = [Go CleanCache]"
  by (auto simp: StartCache_def startup)

lemma ActAsServer_Inr:
  "ActAsServer env host now fs e = (tr, Inr r) \<longleftrightarrow>
     (\<exists>path c ip addr size. GetEnvironmentVariable env ''FILES_PATH'' = Done path \<and>
       ActivateCacheRecovery now fs (edgeCache e) = Done c \<and>
       GetMyIPAddr (clientsInterfaces host) = Some ip \<and> listenClients host (ip @ '':0'') = Inr addr \<and>
       GetIntEnvironmentVariable env ''MAX_GRPC_MESSAGE_SIZE'' = Done size \<and>
       tr = [Go CleanCache, Go (ServeClients addr), Go HeartbeatToBalancer] \<and>
       r = (e\<lparr>edgeCache := c\<rparr>, initialLink\<lparr>edgeServer := addr\<rparr>))"
  by (auto simp: ActAsServer_def startup)

lemma ActAsPeer_Inr:
  assumes "ActAsPeer env host net = (tr, Inr e)"
  obtains self files c s where
    "tr = [Go (ServePeers self), Go (ServeFiles files), Go HeartbeatToRegistry, Go PingsToAdjacents, Go NotifyFilters]"
    and "SelfPeer e = EdgePeer self" and "peerFileServer e = \<lparr>IpAddr = files\<rparr>"
    and "edgeCache e = selfCache" and "requestMap e = fmempty"
    and "enterNetwork (registryAttempts net) (registryAnswer net) (neighbourDial net) (neighbourAnswer net)
      (givenNeighbours net) adjacentsMap = Done (adjacents e)"
proof -
  from assms obtain self files c s where
    "tr = [Go (ServePeers self), Go (ServeFiles files), Go HeartbeatToRegistry, Go PingsToAdjacents, Go NotifyFilters]"
    "registerToRegistry (registryAttempts net) (registryAnswer net) adjacentsMap = Done (Some c, s)"
    "e = \<lparr>SelfPeer = EdgePeer self, peerFileServer = \<lparr>IpAddr = files\<rparr>, edgeCache = selfCache, requestMap = fmempty,
       adjacents = connectAndNotifyYourAdjacent (neighbourDial net) (neighbourAnswer net) (givenNeighbours net)
         (s\<lparr>registryClient := Some c\<rparr>)\<rparr>"
    by (auto simp: ActAsPeer_def startup split: option.splits sum.splits)
  then show thesis by (intro that [of self files]) (simp_all add: enterNetwork_def)
qed

lemma connectAndNotify_registry [simp]:
  "registryClient (connectAndNotifyYourAdjacent dial answer adjs s) = registryClient s"
  by (induction dial answer adjs s rule: connectAndNotifyYourAdjacent.induct)
     (auto simp: connectAndAddNeighbour_def ConnectToNode_def closeClient_def split: prod.splits option.splits if_splits)

lemma net_ok_adjacentsMap: "net_ok adjacentsMap"
  by (simp add: net_ok_def usedBy_def adjacentsMap_def split: option.split)

lemma enterNetwork_registered:
  "enterNetwork attempts answer dial adjAnswer adj s = Done s' \<Longrightarrow> registryClient s' \<noteq> None"
  by (auto simp: enterNetwork_def and_then_Done_iff split: option.splits)

section \<open>Properties\<close>

text \<open>C26: an edge that starts has launched its eight goroutines in this order; the addresses it announces
  to its peers, to the edges that download from it and to the load balancer are those it serves at; it is
  registered, its connections belong to one user each, and its cache holds exactly the files of its directory.\<close>

theorem edge_starts:
  assumes run: "edgeMain files ks env host net now fs = (tr, Inr (env', e, l))"
    and disk: "distinct (map fst (entries fs))" "\<not> readDirFault fs"
  shows "tr = [Go (ServePeers (PeerAddr (SelfPeer e))), Go (ServeFiles (IpAddr (peerFileServer e))),
      Go HeartbeatToRegistry, Go PingsToAdjacents, Go NotifyFilters, Go CleanCache,
      Go (ServeClients (edgeServer l)), Go HeartbeatToBalancer] \<and>
    cache_inv (edgeCache e) \<and> net_ok (adjacents e) \<and> registryClient (adjacents e) \<noteq> None \<and>
    (\<forall>n. cache_view (edgeCache e) n = map_option (\<lambda>b. newFile now n (int (length b))) (content fs n))"
proof -
  from run obtain e0 tr1 tr2 where peer: "ActAsPeer env' host net = (tr1, Inr e0)"
    and server: "ActAsServer env' host now fs e0 = (tr2, Inr (e, l))" and tr: "tr = tr1 @ tr2"
    by (auto simp: edgeMain_def startup)
  from ActAsPeer_Inr [OF peer] obtain self files where
    p: "tr1 = [Go (ServePeers self), Go (ServeFiles files), Go HeartbeatToRegistry, Go PingsToAdjacents, Go NotifyFilters]"
      "SelfPeer e0 = EdgePeer self" "peerFileServer e0 = \<lparr>IpAddr = files\<rparr>" "edgeCache e0 = selfCache"
    and enter: "enterNetwork (registryAttempts net) (registryAnswer net) (neighbourDial net) (neighbourAnswer net)
      (givenNeighbours net) adjacentsMap = Done (adjacents e0)" by blast
  from server obtain c addr where c: "ActivateCacheRecovery now fs selfCache = Done c"
    and s: "tr2 = [Go CleanCache, Go (ServeClients addr), Go HeartbeatToBalancer]"
      "e = e0\<lparr>edgeCache := c\<rparr>" "l = initialLink\<lparr>edgeServer := addr\<rparr>"
    by (auto simp: ActAsServer_Inr p)
  from ActivateCacheRecovery_rebuilds [OF disk, of now] c
  have "cache_inv c \<and> (\<forall>n. cache_view c n = map_option (\<lambda>b. newFile now n (int (length b))) (content fs n))" by simp
  with enterNetwork_ok [OF net_ok_adjacentsMap enter] enterNetwork_registered [OF enter] p s tr show ?thesis by simp
qed

definition edgeSettings :: config where
  "edgeSettings = fmupd ''FILES_PATH'' ''/files/'' (fmupd ''MAX_GRPC_MESSAGE_SIZE'' ''7'' (fmupd ''REGISTRY_ADDR'' ''registry:1234''
     (fmupd ''SLEEP_TIME_TO_RECONNECT'' ''5'' (fmupd ''MAX_WAITING_TIME_FOR_EDGE'' ''9'' fmempty))))"

lemma edgeSettings_values [simp]:
  "GetEnvironmentVariable edgeSettings ''FILES_PATH'' = Done ''/files/''"
  "GetIntEnvironmentVariable edgeSettings ''MAX_GRPC_MESSAGE_SIZE'' = Done 7"
  "GetEnvironmentVariable edgeSettings ''REGISTRY_ADDR'' = Done ''registry:1234''"
  "GetIntEnvironmentVariable edgeSettings ''SLEEP_TIME_TO_RECONNECT'' = Done 5"
  "GetInt64EnvironmentVariable edgeSettings ''MAX_WAITING_TIME_FOR_EDGE'' = Done 9"
  by (simp_all add: edgeSettings_def GetIntEnvironmentVariable_def GetInt64EnvironmentVariable_def GetEnvironmentVariable_def
      ParseInt_def parseNat_def digit_val_def wrap64_id)

definition edgeInterfaces :: "ipAddress list option" where
  "edgeInterfaces = Some [\<lparr>isIPNet = True, isLoopback = False, isIPv4 = True, ipText = ''10.0.0.3''\<rparr>]"

lemma edgeInterfaces_ip [simp]: "GetMyIPAddr edgeInterfaces = Some ''10.0.0.3''"
  by (simp add: edgeInterfaces_def GetMyIPAddr_def)

definition edgeDemoHost :: edgeHost where
  "edgeDemoHost = \<lparr>peerInterfaces = edgeInterfaces, filesInterfaces = edgeInterfaces, clientsInterfaces = edgeInterfaces,
     registerPeer = None, listenPeers = (\<lambda>_. Inr ''10.0.0.3:1''), listenFiles = (\<lambda>_. Inr ''10.0.0.3:2''),
     listenClients = (\<lambda>_. Inr ''10.0.0.3:3'')\<rparr>"

definition edgeDemoNet :: edgeNet where
  "edgeDemoNet = \<lparr>registryAttempts = [False, True], registryAnswer = Replied, registryFailure = [],
     givenNeighbours = [EdgePeer ''10.0.0.4:1''], neighbourDial = (\<lambda>_. True), neighbourAnswer = (\<lambda>_. Replied)\<rparr>"

lemma ActAsPeer_demo:
  "\<exists>tr e. ActAsPeer edgeSettings edgeDemoHost edgeDemoNet = (tr, Inr (e :: 'f Edge)) \<and> edgeCache e = selfCache"
  by (simp add: ActAsPeer_def setting_def lift_outcome_def edgeDemoHost_def edgeDemoNet_def registerServiceForEdge_def
      setupGRPCForOtherEdges_def ExitOnError_def ipOrError_def addrOf_def continue_def launch_def registerToRegistry_def
      ConnectToNode_def rpcCall_def isOpen_def adjacentsMap_def)

lemma ActAsServer_demo:
  "ActivateCacheRecovery now fs (edgeCache e) = Done c \<Longrightarrow>
     \<exists>tr e' l. ActAsServer edgeSettings edgeDemoHost now fs e = (tr, Inr (e', l))"
  by (simp add: ActAsServer_Inr edgeDemoHost_def)

theorem edge_starts_witness:
  "\<exists>tr env e l. edgeMain (\<lambda>_. Some []) [] edgeSettings edgeDemoHost edgeDemoNet 9 (plain_disk [(''f'', Regular [1, 2])]) =
      (tr, Inr (env, e :: unit Edge, l)) \<and> length tr = 8 \<and> cache_view (edgeCache e) ''f'' = Some (newFile 9 ''f'' 2)"
proof -
  let ?fs = "plain_disk [(''f'', Regular [1, 2])]"
  have disk: "distinct (map fst (entries ?fs))" "\<not> readDirFault ?fs" by (simp_all add: plain_disk_def)
  obtain c where c: "ActivateCacheRecovery 9 ?fs selfCache = Done c"
    using ActivateCacheRecovery_rebuilds [OF disk, of 9] by (auto simp: returns_iff)
  obtain tr1 and e1 :: "unit Edge" where 1: "ActAsPeer edgeSettings edgeDemoHost edgeDemoNet = (tr1, Inr e1)" "edgeCache e1 = selfCache"
    using ActAsPeer_demo by blast
  with ActAsServer_demo [of 9 ?fs e1 c] c obtain tr2 e2 l where
    2: "ActAsServer edgeSettings edgeDemoHost 9 ?fs e1 = (tr2, Inr (e2, l))" by auto
  have "SetupEnvVariables (\<lambda>_. Some []) [] ''conf.properties'' edgeSettings = Done edgeSettings"
    by (simp add: SetupEnvVariables_def ReadConfigFile_def)
  with 1 2 have run: "edgeMain (\<lambda>_. Some []) [] edgeSettings edgeDemoHost edgeDemoNet 9 ?fs = (tr1 @ tr2, Inr (edgeSettings, e2, l))"
    by (simp add: edgeMain_def setting_def continue_def)
  from edge_starts [OF run disk] run show ?thesis by (force simp: content_def plain_disk_def)
qed

text \<open>An edge answers its peers before it has recovered its cache. A deletion that is announced in
  between removes nothing: the recovery then brings the deleted file back, and the edge offers it again.\<close>

theorem startup_deletion_lost:
  assumes "edgeCache e = selfCache" and disk: "distinct (map fst (entries fs))" "\<not> readDirFault fs"
    and "content fs (FileName msg) = Some b"
    and del: "DeleteFile test now ks msg e fs = Done (calls, e1, fs1)"
    and start: "ActAsServer env host now' fs1 e1 = (tr, Inr (e2, l))"
  shows "content fs1 (FileName msg) = Some b \<and>
    cache_view (edgeCache e2) (FileName msg) = Some (newFile now' (FileName msg) (int (length b))) \<and>
    returns (IsFileInCache (FileName msg) (edgeCache e2)) fst"
proof -
  have "IsFileInCache (FileName msg) selfCache = Done (False, selfCache)"
    by (simp add: IsFileInCache_def selfCache_def)
  with del assms(1) have [simp]: "fs1 = fs" "edgeCache e1 = selfCache"
    by (auto simp: DeleteFile_def notifyFileDeletion_def and_then_Done_iff)
  from start obtain c where c: "ActivateCacheRecovery now' fs selfCache = Done c" "edgeCache e2 = c"
    by (auto simp: ActAsServer_Inr)
  from ActivateCacheRecovery_rebuilds [OF disk, of now'] c assms(4)
  have inv: "cache_inv c" "\<not> cacheMutex c"
    and view: "cache_view c (FileName msg) = Some (newFile now' (FileName msg) (int (length b)))" by simp_all
  from view obtain p where "fmlookup (cachingMap c) (FileName msg) = Some p" by (auto simp: cache_view_def)
  with inv have "returns (IsFileInCache (FileName msg) c) fst" by (simp add: IsFileInCache_def incrementPopularity_def)
  with view c assms(4) show ?thesis by simp
qed

definition deletionOfF :: FileDeleteMessage where
  "deletionOfF = \<lparr>FileName = ''f'', RequestId = ''r'', ForwarderPeer = EdgePeer ''10.0.0.4:1''\<rparr>"

theorem startup_deletion_lost_witness:
  "\<exists>tr e1 fs1 e2 l calls. let fs = plain_disk [(''f'', Regular [1, 2])];
      e = \<lparr>SelfPeer = EdgePeer ''10.0.0.3:1'', peerFileServer = \<lparr>IpAddr = ''10.0.0.3:2''\<rparr>, edgeCache = selfCache,
        requestMap = fmempty, adjacents = adjacentsMap\<rparr>
    in DeleteFile (\<lambda>f n. True) 5 [] deletionOfF (e :: unit Edge) fs = Done (calls, e1, fs1) \<and>
      ActAsServer edgeSettings edgeDemoHost 9 fs1 e1 = (tr, Inr (e2, l)) \<and>
      cache_view (edgeCache e2) ''f'' = Some (newFile 9 ''f'' 2)"
proof -
  let ?fs = "plain_disk [(''f'', Regular [1, 2])]"
  let ?e = "\<lparr>SelfPeer = EdgePeer ''10.0.0.3:1'', peerFileServer = \<lparr>IpAddr = ''10.0.0.3:2''\<rparr>, edgeCache = selfCache,
    requestMap = fmempty, adjacents = adjacentsMap\<rparr> :: unit Edge"
  have disk: "distinct (map fst (entries ?fs))" "\<not> readDirFault ?fs" "content ?fs (FileName deletionOfF) = Some [1, 2]"
    by (simp_all add: plain_disk_def content_def deletionOfF_def)
  obtain c where c: "ActivateCacheRecovery 9 ?fs selfCache = Done c"
    using ActivateCacheRecovery_rebuilds [OF disk(1,2), of 9] by (auto simp: returns_iff)
  obtain e1 where del: "DeleteFile (\<lambda>f n. True) 5 [] deletionOfF ?e ?fs = Done ([], e1, ?fs)" "edgeCache e1 = selfCache"
    by (simp add: DeleteFile_def IsFileInCache_def selfCache_def notifyFileDeletion_def)
  with ActAsServer_demo [of 9 ?fs e1 c] c obtain tr e2 l where
    start: "ActAsServer edgeSettings edgeDemoHost 9 ?fs e1 = (tr, Inr (e2, l))" by auto
  have "edgeCache ?e = selfCache" by simp
  from startup_deletion_lost [OF this disk del(1) start] del(1) start show ?thesis
    by (auto simp: Let_def deletionOfF_def)
qed

text \<open>When an edge cannot listen for its peers, it logs why and exits; when it cannot listen for the
  downloads of other edges or for its clients, the address of the missing listener is asked for before the
  error is looked at: a nil pointer, and the prepared message is never logged.\<close>

theorem listen_failures:
  assumes "GetMyIPAddr (peerInterfaces host) = Some ip1" and "GetMyIPAddr (filesInterfaces host) = Some ip2"
    and "GetMyIPAddr (clientsInterfaces host) = Some ip3" and "registerPeer host = None"
  shows "(listenPeers host (ip1 @ '':0'') = Inl err \<longrightarrow>
      ActAsPeer env host net = ([LogLine ''[*ERROR*] -> Errore listen'', LogLine err], Inl (Exit err))) \<and>
    (listenPeers host (ip1 @ '':0'') = Inr addr \<and> listenFiles host (ip2 @ '':0'') = Inl err \<longrightarrow>
      ActAsPeer env host net = ([Go (ServePeers addr)], Inl NilPointer)) \<and>
    (listenClients host (ip3 @ '':0'') = Inl err \<longrightarrow> setUpGRPCForClients env host l = ([], Inl NilPointer))"
  using assms by (auto simp: ActAsPeer_def setUpGRPCForClients_def setupGRPCForOtherEdges_def registerServiceForEdge_def
      ExitOnError_def ipOrError_def addrOf_def continue_def launch_def)

theorem listen_failures_witness:
  "setUpGRPCForClients edgeSettings (edgeDemoHost\<lparr>listenClients := (\<lambda>_. Inl ''address in use'')\<rparr>) initialLink = ([], Inl NilPointer) \<and>
   ActAsPeer edgeSettings (edgeDemoHost\<lparr>listenPeers := (\<lambda>_. Inl ''address in use'')\<rparr>) edgeDemoNet =
     ([LogLine ''[*ERROR*] -> Errore listen'', LogLine ''address in use''], (Inl (Exit ''address in use'') :: stop + unit Edge))"
  using listen_failures [of "edgeDemoHost\<lparr>listenClients := (\<lambda>_. Inl ''address in use'')\<rparr>" "''10.0.0.3''" "''10.0.0.3''" "''10.0.0.3''"
      "''address in use''" edgeSettings edgeDemoNet "''''" initialLink]
    listen_failures [of "edgeDemoHost\<lparr>listenPeers := (\<lambda>_. Inl ''address in use'')\<rparr>" "''10.0.0.3''" "''10.0.0.3''" "''10.0.0.3''"
      "''address in use''" edgeSettings edgeDemoNet "''''" initialLink]
  by (simp add: edgeDemoHost_def)

end
