(* ===== verification/Joining.thy ===== *)
theory Joining
  imports PeerNet Registry
begin

text \<open>
  A peer enters the network: the registry's \<^verbatim>\<open>PeerEnter\<close> (\<^verbatim>\<open>registry/services/registry_services.go\<close>) picks its
  neighbours, the peer dials each of them (\<^verbatim>\<open>connectAndNotifyYourAdjacent\<close>, \<^verbatim>\<open>edge/peer/peer.go\<close>) and each of
  them dials back in its handler \<^verbatim>\<open>AddNeighbour\<close> (\<^verbatim>\<open>edge/peer/peer_services.go\<close>). \<open>net\<close> holds what every
  peer knows of its neighbours.
\<close>

text \<open>The answer of a neighbour comes from its handler; it may come too late.\<close>

definition callbackAnswer :: "(EdgePeer \<Rightarrow> string \<Rightarrow> bool) \<Rightarrow> (EdgePeer \<Rightarrow> bool) \<Rightarrow> EdgePeer \<Rightarrow>
    (EdgePeer \<Rightarrow> 'f AdjacentPeers) \<Rightarrow> EdgePeer \<Rightarrow> callResult" where
  "callbackAnswer dial late p net q =
     (if late q then Expired else if fst (AddNeighbour (dial q) p (net q)) then Replied else Failed)"

definition joinNetwork :: "(EdgePeer \<Rightarrow> string \<Rightarrow> bool) \<Rightarrow> (EdgePeer \<Rightarrow> bool) \<Rightarrow> EdgePeer \<Rightarrow> EdgePeer list \<Rightarrow>
    (EdgePeer \<Rightarrow> 'f AdjacentPeers) \<Rightarrow> EdgePeer \<Rightarrow> 'f AdjacentPeers" where
  "joinNetwork dial late p adjs net q =
     (if q = p then connectAndNotifyYourAdjacent (dial p) (callbackAnswer dial late p net) adjs (net p)
      else if q \<in> set adjs \<and> dial p (PeerAddr q) then snd (AddNeighbour (dial q) p (net q))
      else net q)"

text \<open>A link that can be used: a connection in the map whose client is open.\<close>

definition linkedTo :: "'f AdjacentPeers \<Rightarrow> EdgePeer \<Rightarrow> bool" where
  "linkedTo s q \<longleftrightarrow> (\<exists>c. fmlookup (peerConns s) q = Some c \<and> isOpen s (peerConnection c))"

lemma AddNeighbour_ok [simp]: "fst (AddNeighbour dial p s) \<longleftrightarrow> dial (PeerAddr p)"
  by (simp add: AddNeighbour_def connectAndAddNeighbour_def ConnectToNode_def)

lemma AddNeighbour_links: "dial (PeerAddr p) \<Longrightarrow> linkedTo (snd (AddNeighbour dial p s)) p"
  by (simp add: AddNeighbour_def connectAndAddNeighbour_def ConnectToNode_def linkedTo_def isOpen_def)

lemma AddNeighbour_refused: "\<not> dial (PeerAddr p) \<Longrightarrow> snd (AddNeighbour dial p s) = s"
  by (simp add: AddNeighbour_def connectAndAddNeighbour_def ConnectToNode_def)

lemma join_self:
  assumes "distinct adjs" and "net_inv (net p)" and "q \<in> set adjs" and "dial p (PeerAddr q)"
  shows "linkedTo (joinNetwork dial late p adjs net p) q \<longleftrightarrow> dial q (PeerAddr p) \<and> \<not> late q"
proof -
  let ?s = "connectAndNotifyYourAdjacent (dial p) (callbackAnswer dial late p net) adjs (net p)"
  from connectAndNotify_result [OF assms(1,2), of "dial p" "callbackAnswer dial late p net"] assms(3,4)
  obtain c where "fmlookup (peerConns ?s) q = Some c" "isOpen ?s (peerConnection c) \<longleftrightarrow> callbackAnswer dial late p net q = Replied"
    by blast
  then show ?thesis by (simp add: linkedTo_def joinNetwork_def callbackAnswer_def)
qed

section \<open>Properties\<close>

text \<open>C28: a peer that enters ends up with a link to each neighbour the registry gave it that it can dial,
  usable exactly if the neighbour can dial back and its reply was in time, while the neighbour has its link
  even if its reply was late; nobody else is touched. When all can dial each other in time, the peer is
  linked both ways to at least one live peer, if there is one.\<close>

theorem entering_peer_linked:
  assumes enter: "PeerEnter registryDial drawn ks now p r = (Some ns, r')"
    and live: "set ks = fmdom' (fmupd p now (heartbeats r))"
    and adjs: "set adjs = fset ns" "distinct adjs"
    and net: "net_inv (net p)" "\<And>q. \<not> linkedTo (net q) p"
  shows "(\<forall>q\<in>fset ns. dial p (PeerAddr q) \<longrightarrow>
      (linkedTo (joinNetwork dial late p adjs net p) q \<longleftrightarrow> dial q (PeerAddr p) \<and> \<not> late q) \<and>
      (linkedTo (joinNetwork dial late p adjs net q) p \<longleftrightarrow> dial q (PeerAddr p))) \<and>
    (\<forall>q. q \<noteq> p \<and> (q \<notin> fset ns \<or> \<not> dial p (PeerAddr q)) \<longrightarrow> joinNetwork dial late p adjs net q = net q) \<and>
    ((\<forall>q\<in>fset ns. dial p (PeerAddr q) \<and> dial q (PeerAddr p) \<and> \<not> late q) \<and> fmdom' (heartbeats r) - {p} \<noteq> {} \<longrightarrow>
      (\<exists>q\<in>fmdom' (heartbeats r) - {p}. linkedTo (joinNetwork dial late p adjs net p) q \<and>
        linkedTo (joinNetwork dial late p adjs net q) p))"
proof -
  have "registryDial p" using enter by (auto simp: PeerEnter_def connectToNode_def split: if_splits)
  with PeerEnter_neighbours [OF live, of registryDial drawn] enter
  have ns: "p |\<notin>| ns" "fset ns \<subseteq> fmdom' (heartbeats r)" "fmdom' (heartbeats r) - {p} \<noteq> {} \<Longrightarrow> ns \<noteq> {||}" by auto
  have there: "linkedTo (joinNetwork dial late p adjs net p) q \<longleftrightarrow> dial q (PeerAddr p) \<and> \<not> late q"
    if "q \<in> fset ns" "dial p (PeerAddr q)" for q
    using that adjs(1) by (intro join_self [where net = net and p = p]) (simp_all add: adjs(2) net(1))
  have return: "linkedTo (joinNetwork dial late p adjs net q) p \<longleftrightarrow> dial q (PeerAddr p)"
    if "q \<in> fset ns" "dial p (PeerAddr q)" for q
  proof -
    have "joinNetwork dial late p adjs net q = snd (AddNeighbour (dial q) p (net q))"
      using that adjs(1) ns(1) by (auto simp: joinNetwork_def)
    with net(2) [of q] show ?thesis
      using AddNeighbour_links [of "dial q" p "net q"] AddNeighbour_refused [of "dial q" p "net q"]
      by (cases "dial q (PeerAddr p)") simp_all
  qed
  have both: "\<exists>q\<in>fmdom' (heartbeats r) - {p}. linkedTo (joinNetwork dial late p adjs net p) q \<and> linkedTo (joinNetwork dial late p adjs net q) p"
    if "\<forall>q\<in>fset ns. dial p (PeerAddr q) \<and> dial q (PeerAddr p) \<and> \<not> late q" "fmdom' (heartbeats r) - {p} \<noteq> {}"
  proof -
    from ns(3) [OF that(2)] obtain q where q: "q \<in> fset ns" by auto
    with ns(1,2) have "q \<in> fmdom' (heartbeats r) - {p}" by auto
    with there [OF q] return [OF q] that(1) q show ?thesis by blast
  qed
  have other: "joinNetwork dial late p adjs net q = net q" if "q \<noteq> p" "q \<notin> fset ns \<or> \<not> dial p (PeerAddr q)" for q
    using that adjs(1) by (auto simp: joinNetwork_def)
  from there return both other show ?thesis by blast
qed

theorem entering_peer_linked_witness:
  "\<exists>ns r'. PeerEnter (\<lambda>_. True) (\<lambda>_. False) [pC, pA, pB] 5 pC demoRegistry = (Some ns, r') \<and>
     (\<exists>q\<in>{pA, pB}. linkedTo (joinNetwork (\<lambda>_ _. True) (\<lambda>_. False) pC [pA] (\<lambda>_. adjacentsMap :: unit AdjacentPeers) pC) q \<and>
        linkedTo (joinNetwork (\<lambda>_ _. True) (\<lambda>_. False) pC [pA] (\<lambda>_. adjacentsMap :: unit AdjacentPeers) q) pC)"
proof -
  have dom: "fmdom' (heartbeats demoRegistry) = {pA, pB, pC}" by (auto simp: demoRegistry_def fmdom'_alt_def)
  then have live: "set [pC, pA, pB] = fmdom' (fmupd pC 5 (heartbeats demoRegistry))" by auto
  obtain r' where enter: "PeerEnter (\<lambda>_. True) (\<lambda>_. False) [pC, pA, pB] 5 pC demoRegistry = (Some {|pA|}, r')"
    by (simp add: PeerEnter_def connectToNode_def findNeighboursForPeer_def pA_def pB_def pC_def)
  have start: "net_inv (adjacentsMap :: unit AdjacentPeers)" "\<not> linkedTo (adjacentsMap :: unit AdjacentPeers) pC"
    by (rule net_inv_init) (simp add: linkedTo_def adjacentsMap_def)
  have "fmdom' (heartbeats demoRegistry) - {pC} \<noteq> {}" "fmdom' (heartbeats demoRegistry) - {pC} \<subseteq> {pA, pB}"
    unfolding dom by (auto simp: pA_def pC_def)
  then show ?thesis
    using entering_peer_linked [where net = "\<lambda>_. adjacentsMap :: unit AdjacentPeers" and dial = "\<lambda>_ _. True" and late = "\<lambda>_. False"
      and adjs = "[pA]", OF enter live _ _ start] enter by auto
qed

end
