(* ===== verification/InsertRace.thy ===== *)
theory InsertRace
  imports FileStore
begin

text \<open>
  Two uploads of one new file that meet in \<^verbatim>\<open>InsertFileInCache\<close> (\<^verbatim>\<open>edge/cache/cache.go\<close>). The method looks
  the name up before it takes \<^verbatim>\<open>fileInsertionMutex\<close>, so both can find it absent; then their critical sections
  run one after the other, and the second finds the entry of the first.
\<close>

section \<open>The critical section\<close>

definition insertCritical ::
  "((ptr \<Rightarrow> ptr \<Rightarrow> bool) \<Rightarrow> ptr list \<Rightarrow> ptr list) \<Rightarrow> (filesystem \<Rightarrow> (int \<times> int) option) \<Rightarrow> int \<Rightarrow> int \<Rightarrow>
   bool \<Rightarrow> Message list \<Rightarrow> string \<Rightarrow> int \<Rightarrow> Cache \<Rightarrow> filesystem \<Rightarrow>
   (goError option list \<times> Cache \<times> filesystem) outcome" where
  "insertCritical sorter statfs now ttl closes msgs name sz c fs =
     (if fileInsertionMutex c then Blocked
      else and_then (freeSpaceForInsert sorter statfs now ttl sz (c\<lparr>fileInsertionMutex := True\<rparr>) fs)
        (\<lambda>(err, c1, fs1).
          if err \<noteq> None then Done ([], c1\<lparr>fileInsertionMutex := False\<rparr>, fs1)
          else and_then (writeChunksInCache name closes msgs fs1) (\<lambda>(err, rets, fs2).
            if err \<noteq> None then Done (rets, c1\<lparr>fileInsertionMutex := False\<rparr>, fs2)
            else and_then (insertFileInQueue now name sz 1 c1) (\<lambda>c2.
              Done (rets, c2\<lparr>fileInsertionMutex := False\<rparr>, fs2)))))"

lemma InsertFileInCache_split:
  "InsertFileInCache sorter statfs now ttl closes msgs name sz c fs =
     (if fmlookup (cachingMap c) name \<noteq> None then Done ([], c, fs)
      else insertCritical sorter statfs now ttl closes msgs name sz c fs)"
  by (simp add: InsertFileInCache_def insertCritical_def)

text \<open>Both goroutines have looked at \<open>c\<close>; then the first section runs, and the second after it.\<close>

definition insertBoth where
  "insertBoth sorter statfs ttl name first second c fs =
     (if fmlookup (cachingMap c) name \<noteq> None then Done (c, fs)
      else case first of (now1, msgs1, sz1) \<Rightarrow> (case second of (now2, msgs2, sz2) \<Rightarrow>
        and_then (insertCritical sorter statfs now1 ttl True msgs1 name sz1 c fs) (\<lambda>(rets1, c1, fs1).
        and_then (insertCritical sorter statfs now2 ttl True msgs2 name sz2 c1 fs1) (\<lambda>(rets2, c2, fs2).
          Done (c2, fs2)))))"

section \<open>The directory\<close>

text \<open>What the uploads rely on: room, and system calls on \<open>name\<close> that succeed.\<close>

definition writable :: "filesystem \<Rightarrow> string \<Rightarrow> bool" where
  "writable fs name \<longleftrightarrow> \<not> createFault fs name \<and> map_of (entries fs) name \<noteq> Some Directory \<and>
     \<not> lockFault fs name \<and> \<not> removeFault fs name \<and> (\<forall>k. \<not> writeFault fs name k)"

lemma writable_same: "same_faults fs fs' \<Longrightarrow> writable fs name \<Longrightarrow> writable fs' name"
  by (auto simp: same_faults_def writable_def)

lemma insertFileInQueue_result:
  assumes "cache_inv c" and "\<not> cacheMutex c"
  shows "returns (insertFileInQueue now name sz pop c) (\<lambda>c'. cache_inv c' \<and> \<not> cacheMutex c' \<and>
    cache_view c' = (cache_view c)(name \<mapsto>
      (case cache_view c name of None \<Rightarrow> newFile now name sz | Some f \<Rightarrow> f\<lparr>popularity := wrap64 (popularity f + 1)\<rparr>)))"
proof (cases "fmlookup (cachingMap c) name")
  case None
  then have "cache_view c name = None" by (simp add: cache_view_def)
  then show ?thesis by (intro returns_mono [OF insertFileInQueue_new [OF assms None]]) simp
next
  case (Some p)
  then have "cache_view c name = Some (file_at c p)" by (simp add: cache_view_def)
  with Some assms cache_inv_lookup [OF assms(1) Some] show ?thesis
    by (simp add: insertFileInQueue_old cache_inv_bump cache_view_bump)
qed

lemma insertCritical_result:
  assumes inv: "cache_inv c" and unl: "\<not> cacheMutex c" "\<not> fileInsertionMutex c"
    and msgs: "msgs \<noteq> []" and room: "\<And>fs'. sz \<le> retrieveFreeMemorySize (statfs fs')" and os: "writable fs name"
    and fresh: "\<And>f. cache_view c name = Some f \<Longrightarrow> \<not> expired now ttl f"
  shows "returns (insertCritical insertionSort statfs now ttl True msgs name sz c fs)
    (\<lambda>(rets, c', fs'). cache_inv c' \<and> \<not> cacheMutex c' \<and> \<not> fileInsertionMutex c' \<and> writable fs' name \<and>
      (if first_error msgs = None
       then cache_view c' name = Some (case cache_view c name of
           None \<Rightarrow> newFile now name sz | Some f \<Rightarrow> f\<lparr>popularity := wrap64 (popularity f + 1)\<rparr>) \<and>
         content fs' name = Some (concat (map Body msgs))
       else cache_view c' name = cache_view c name \<and> content fs' name = None))"
proof -
  let ?c = "c\<lparr>fileInsertionMutex := True\<rparr>"
  from deleteExpiredFiles_cleaned [of ?c now ttl fs] inv unl
  obtain c1 fs1 where del: "deleteExpiredFiles now ttl ?c fs = Done (c1, fs1)" and cl: "cleaned now ttl ?c fs c1 fs1"
    by (auto simp: returns_iff)
  have free: "freeSpaceForInsert insertionSort statfs now ttl sz ?c fs = Done (None, c1, fs1)"
    using del room [of fs1] by (simp add: freeSpaceForInsert_def Let_def)
  have os1: "writable fs1 name" using deleteExpiredFiles_faults [OF del] os by (rule writable_same)
  have c1: "cache_inv c1" "\<not> cacheMutex c1" using cl by (simp_all add: cleaned_def)
  have inv': "cache_inv ?c" using inv by simp
  have view: "cache_view c1 name = cache_view c name"
    using cleaned_view [OF inv' cl, of name] fresh by (cases "cache_view c1 name"; cases "cache_view c name") auto
  from os1 have ok: "os_create name fs1 \<noteq> None" "\<not> lockFault fs1 name" "\<not> removeFault fs1 name" "\<And>k. \<not> writeFault fs1 name k"
    by (auto simp: writable_def os_create_def)
  obtain fs2 where wr: "writeChunksInCache name True msgs fs1 = Done (first_error msgs, [first_error msgs], fs2)"
    and ct: "content fs2 = (content fs1)(name := (if first_error msgs = None then Some (concat (map Body msgs)) else None))"
    using writeChunksInCache_closed [OF msgs ok] by blast
  have os2: "writable fs2 name" using writeChunksInCache_faults [OF wr] os1 by (rule writable_same)
  obtain c2 where ins: "insertFileInQueue now name sz 1 c1 = Done c2" and c2: "cache_inv c2" "\<not> cacheMutex c2"
      "cache_view c2 = (cache_view c1)(name \<mapsto> (case cache_view c1 name of
        None \<Rightarrow> newFile now name sz | Some f \<Rightarrow> f\<lparr>popularity := wrap64 (popularity f + 1)\<rparr>))"
    using insertFileInQueue_result [OF c1, of now name sz 1] by (auto simp: returns_iff)
  show ?thesis
    using unl free wr ins c1 c2 ct os2 view by (cases "first_error msgs") (simp_all add: insertCritical_def)
qed

section \<open>Properties\<close>

text \<open>C23: of two uploads of one new file that meet, the second writes its content under the entry of the
  first: the size in the cache stays the first one's. When the second upload fails, it removes the file
  that the first one had stored, and the cache keeps an entry without a file.\<close>

theorem insert_race:
  assumes "cache_inv c" and "\<not> cacheMutex c" and "\<not> fileInsertionMutex c" and "cache_view c name = None"
    and "\<And>fs'. max sz1 sz2 \<le> retrieveFreeMemorySize (statfs fs')" and "writable fs name"
    and "msgs1 \<noteq> []" and "first_error msgs1 = None" and "msgs2 \<noteq> []"
    and "\<not> expired now2 ttl (newFile now1 name sz1)"
  shows "returns (insertBoth insertionSort statfs ttl name (now1, msgs1, sz1) (now2, msgs2, sz2) c fs) (\<lambda>(c', fs').
    if first_error msgs2 = None
    then cache_view c' name = Some ((newFile now1 name sz1)\<lparr>popularity := 2\<rparr>) \<and> content fs' name = Some (concat (map Body msgs2))
    else cache_view c' name = Some (newFile now1 name sz1) \<and> content fs' name = None)"
proof -
  have absent: "fmlookup (cachingMap c) name = None" using assms(4) by (simp add: cache_view_def)
  have room: "sz1 \<le> retrieveFreeMemorySize (statfs fs')" "sz2 \<le> retrieveFreeMemorySize (statfs fs')" for fs'
    using assms(5) [of fs'] by simp_all
  from insertCritical_result [where statfs = statfs and now = now1 and ttl = ttl, OF assms(1-3,7) room(1) assms(6)] assms(4,8)
  obtain rets1 c1 fs1 where run1: "insertCritical insertionSort statfs now1 ttl True msgs1 name sz1 c fs = Done (rets1, c1, fs1)"
    and c1: "cache_inv c1" "\<not> cacheMutex c1" "\<not> fileInsertionMutex c1" and os1: "writable fs1 name"
    and view1: "cache_view c1 name = Some (newFile now1 name sz1)"
    by (auto simp: returns_iff)
  have "\<not> expired now2 ttl f" if "cache_view c1 name = Some f" for f using that view1 assms(10) by simp
  from insertCritical_result [where statfs = statfs, OF c1 assms(9) room(2) os1 this]
  obtain rets2 c2 fs2 where run2: "insertCritical insertionSort statfs now2 ttl True msgs2 name sz2 c1 fs1 = Done (rets2, c2, fs2)"
    and "if first_error msgs2 = None
       then cache_view c2 name = Some ((newFile now1 name sz1)\<lparr>popularity := wrap64 (popularity (newFile now1 name sz1) + 1)\<rparr>) \<and>
         content fs2 name = Some (concat (map Body msgs2))
       else cache_view c2 name = cache_view c1 name \<and> content fs2 name = None"
    by (auto simp: returns_iff view1)
  with run1 absent view1 show ?thesis by (simp add: insertBoth_def newFile_def wrap64_def split: if_splits)
qed

theorem insert_race_witness:
  "returns (insertBoth insertionSort (\<lambda>_. Some (10, 4096)) 180 ''x'' (0, [dataMessage [1, 2]], 2) (1, [errMessage (External ''eof'')], 2)
      selfCache (plain_disk []))
    (\<lambda>(c', fs'). cache_view c' ''x'' = Some (newFile 0 ''x'' 2) \<and> content fs' ''x'' = None)"
proof -
  have "max 2 2 \<le> retrieveFreeMemorySize (Some (10, 4096))" by (simp add: retrieveFreeMemorySize_def wrap64_def)
  then show ?thesis
    using insert_race [of selfCache "''x''" 2 2 "\<lambda>_. Some (10, 4096)" "plain_disk []" "[dataMessage [1, 2]]"
      "[errMessage (External ''eof'')]" 1 180 0] cache_inv_self
    by (simp add: selfCache_def plain_disk_def cache_view_def writable_def  expired_def newFile_def wrap64_def)
qed

end
