(* ===== verification/FilterRounds.thy ===== *)
theory FilterRounds
  imports PeerNet
begin

text \<open>
  Many peers that send each other their Bloom filters at the same time: the loop of
  \<^verbatim>\<open>notifyBloomFiltersToAdjacents\<close> (\<^verbatim>\<open>edge/peer/peer.go\<close>) holds the read lock of \<^verbatim>\<open>filtersMutex\<close> while it waits
  for the reply of each neighbour, and the neighbour's handler \<^verbatim>\<open>NotifyBloomFilter\<close>
  (\<^verbatim>\<open>edge/peer/peer_services.go\<close>) needs the write lock of its own \<^verbatim>\<open>filtersMutex\<close> to reply.
  The other holders of these locks wait for nobody, so that a handler gets its lock whenever its peer is in
  no such loop.
\<close>

section \<open>State\<close>

text \<open>The loop of a peer: the number of the call it waits for, the encoded filter, the neighbour called
  and those still to call. While there is one, the peer holds its read locks.\<close>

record 'b notifyRound =
  callId :: nat
  encoded :: 'b
  called :: EdgePeer
  toCall :: "EdgePeer list"

text \<open>The handlers that wait for the write lock, with the caller, its call and the filter it sent.\<close>

record ('b, 'f) filterNode =
  notifying :: "'b notifyRound option"
  handlers :: "(EdgePeer \<times> nat \<times> 'b) list"
  nextCall :: nat
  known :: "'f AdjacentPeers"

type_synonym ('b, 'f) filterNet = "EdgePeer \<Rightarrow> ('b, 'f) filterNode"

text \<open>The call to the next neighbour, which starts the neighbour's handler; the end of the loop.\<close>

definition callNext :: "EdgePeer \<Rightarrow> 'b \<Rightarrow> EdgePeer list \<Rightarrow> ('b, 'f) filterNet \<Rightarrow> ('b, 'f) filterNet" where
  "callNext p b ks net =
     (case ks of
        [] \<Rightarrow> net(p := (net p)\<lparr>notifying := None\<rparr>)
      | q # qs \<Rightarrow>
          let n = nextCall (net p);
              net1 = net(p := (net p)\<lparr>notifying := Some \<lparr>callId = n, encoded = b, called = q, toCall = qs\<rparr>, nextCall := Suc n\<rparr>)
          in net1(q := (net1 q)\<lparr>handlers := handlers (net1 q) @ [(p, n, b)]\<rparr>))"

text \<open>The reply reaches the caller only if it still waits for this call; an error ends the loop.\<close>

definition replied :: "EdgePeer \<Rightarrow> nat \<Rightarrow> bool \<Rightarrow> ('b, 'f) filterNet \<Rightarrow> ('b, 'f) filterNet" where
  "replied p n ok net =
     (case notifying (net p) of
        None \<Rightarrow> net
      | Some r \<Rightarrow>
          if callId r \<noteq> n then net
          else if ok then callNext p (encoded r) (toCall r) net
          else net(p := (net p)\<lparr>notifying := None\<rparr>))"

inductive filterStep :: "('b \<Rightarrow> 'f option) \<Rightarrow> EdgePeer set \<Rightarrow> ('b, 'f) filterNet \<Rightarrow> ('b, 'f) filterNet \<Rightarrow> bool"
    for decode expiring where
  starts: "notifying (net p) = None \<Longrightarrow> filterStep decode expiring net (callNext p b ks net)"
| handled: "(p, n, b) \<in> set (handlers (net q)) \<Longrightarrow> notifying (net q) = None \<Longrightarrow>
    NotifyBloomFilter decode p b (known (net q)) = (ok, s) \<Longrightarrow>
    filterStep decode expiring net
      (replied p n ok (net(q := (net q)\<lparr>handlers := remove1 (p, n, b) (handlers (net q)), known := s\<rparr>)))"
| expires: "p \<in> expiring \<Longrightarrow> notifying (net p) = Some r \<Longrightarrow>
    filterStep decode expiring net (net(p := (net p)\<lparr>notifying := None\<rparr>))"

inductive_cases filterStepE: "filterStep decode expiring net net'"

definition waitsFor :: "('b, 'f) filterNet \<Rightarrow> EdgePeer \<Rightarrow> EdgePeer \<Rightarrow> bool" where
  "waitsFor net p q \<longleftrightarrow> (case notifying (net p) of None \<Rightarrow> False | Some r \<Rightarrow> called r = q)"

definition idleNode :: "'f AdjacentPeers \<Rightarrow> ('b, 'f) filterNode" where
  "idleNode s = \<lparr>notifying = None, handlers = [], nextCall = 0, known = s\<rparr>"

section \<open>A circle of waiting peers\<close>

definition waitingCircle :: "EdgePeer set \<Rightarrow> ('b, 'f) filterNet \<Rightarrow> bool" where
  "waitingCircle D net \<longleftrightarrow> (\<forall>p\<in>D. \<exists>q\<in>D. waitsFor net p q)"

definition sameWait :: "EdgePeer set \<Rightarrow> ('b, 'f) filterNet \<Rightarrow> ('b, 'f) filterNet \<Rightarrow> bool" where
  "sameWait D net net' \<longleftrightarrow> (\<forall>p\<in>D. notifying (net' p) = notifying (net p) \<and> known (net' p) = known (net p))"

lemma callNext_other:
  "r \<noteq> p \<Longrightarrow> notifying (callNext p b ks net r) = notifying (net r)"
  "known (callNext p b ks net r) = known (net r)"
  by (auto simp: callNext_def Let_def split: list.split)

lemma replied_other:
  "r \<noteq> p \<Longrightarrow> notifying (replied p n ok net r) = notifying (net r)"
  "known (replied p n ok net r) = known (net r)"
  by (auto simp: replied_def callNext_other split: option.split)

lemma circle_busy: "waitingCircle D net \<Longrightarrow> p \<in> D \<Longrightarrow> notifying (net p) \<noteq> None"
  by (cases "notifying (net p)") (force simp: waitingCircle_def waitsFor_def)+

lemma circle_same: "waitingCircle D net \<Longrightarrow> sameWait D net net' \<Longrightarrow> waitingCircle D net'"
  by (simp add: waitingCircle_def sameWait_def waitsFor_def)

text \<open>Calls are numbered; the call a peer waits for is pending at the neighbour it called and nowhere else.
  The clause about waiting leaves out the peers of \<open>X\<close>, whose reply is on its way.\<close>

definition pendingAt :: "('b, 'f) filterNet \<Rightarrow> EdgePeer \<Rightarrow> nat \<Rightarrow> (EdgePeer \<times> 'b) set" where
  "pendingAt net p n = {(q, b). (p, n, b) \<in> set (handlers (net q))}"

definition call_inv :: "EdgePeer set \<Rightarrow> ('b, 'f) filterNet \<Rightarrow> bool" where
  "call_inv X net \<longleftrightarrow>
     (\<forall>p n. pendingAt net p n \<noteq> {} \<longrightarrow> n < nextCall (net p)) \<and>
     (\<forall>p r. p \<notin> X \<longrightarrow> notifying (net p) = Some r \<longrightarrow> pendingAt net p (callId r) = {(called r, encoded r)})"

lemma call_inv_idle: "call_inv {} (\<lambda>p. idleNode (s p))"
  by (simp add: call_inv_def idleNode_def pendingAt_def)

lemma call_inv_waits:
  "call_inv {} net \<Longrightarrow> notifying (net p) = Some r \<Longrightarrow> (p, n, b) \<in> set (handlers (net q)) \<Longrightarrow> callId r = n \<Longrightarrow>
     q = called r \<and> b = encoded r"
  by (auto simp: call_inv_def pendingAt_def set_eq_iff)

lemma call_inv_pending:
  "call_inv {} net \<Longrightarrow> notifying (net p) = Some r \<Longrightarrow> (p, callId r, encoded r) \<in> set (handlers (net (called r)))"
  by (auto simp: call_inv_def pendingAt_def set_eq_iff)

lemma pending_callNext:
  "pendingAt (callNext p b (q # qs) net) p' n =
     pendingAt net p' n \<union> (if p' = p \<and> n = nextCall (net p) then {(q, b)} else {})"
  by (auto simp: pendingAt_def callNext_def Let_def split: if_splits)

lemma pending_same: "(\<And>q. handlers (net' q) = handlers (net q)) \<Longrightarrow> pendingAt net' p n = pendingAt net p n"
  by (simp add: pendingAt_def)

lemma call_inv_stop:
  assumes "call_inv {p} net"
  shows "call_inv {} (net(p := (net p)\<lparr>notifying := None\<rparr>))" (is "call_inv _ ?net")
proof -
  have "pendingAt ?net p' n = pendingAt net p' n" for p' n by (rule pending_same) simp
  moreover have "nextCall (?net q) = nextCall (net q)" for q by simp
  ultimately show ?thesis using assms by (simp add: call_inv_def)
qed

lemma call_inv_callNext:
  assumes "call_inv {p} net"
  shows "call_inv {} (callNext p b ks net)"
proof (cases ks)
  case Nil
  with call_inv_stop [OF assms] show ?thesis by (simp add: callNext_def)
next
  case (Cons q qs)
  have new: "pendingAt net p (nextCall (net p)) = {}" using assms unfolding call_inv_def by blast
  have bound: "n < nextCall (net p')" if "pendingAt net p' n \<noteq> {}" for p' n
    using that assms unfolding call_inv_def by blast
  have calls: "nextCall (callNext p b ks net q') = (if q' = p then Suc (nextCall (net p)) else nextCall (net q'))" for q'
    by (simp add: callNext_def Cons Let_def)
  have own: "notifying (callNext p b ks net p) = Some \<lparr>callId = nextCall (net p), encoded = b, called = q, toCall = qs\<rparr>"
    by (simp add: callNext_def Cons Let_def)
  show ?thesis
    unfolding call_inv_def
  proof (intro conjI allI impI)
    fix p' n assume "pendingAt (callNext p b ks net) p' n \<noteq> {}"
    with bound [of p' n] show "n < nextCall (callNext p b ks net p')"
      unfolding calls by (cases "p' = p"; cases "n = nextCall (net p)") (simp_all add: Cons pending_callNext)
  next
    fix p' r assume r: "notifying (callNext p b ks net p') = Some r"
    show "pendingAt (callNext p b ks net) p' (callId r) = {(called r, encoded r)}"
    proof (cases "p' = p")
      case True
      with r own new show ?thesis by (auto simp: Cons pending_callNext)
    next
      case False
      with r assms have "pendingAt net p' (callId r) = {(called r, encoded r)}" by (simp add: callNext_other call_inv_def)
      with False show ?thesis by (simp add: Cons pending_callNext)
    qed
  qed
qed

text \<open>A handler that has run: the wait of its caller is left out until the reply is looked at.\<close>

lemma pending_ran:
  assumes "net' = net(q := (net q)\<lparr>handlers := remove1 (p, n, b) (handlers (net q)), known := s\<rparr>)"
  shows "pendingAt net' p' n' \<subseteq> pendingAt net p' n'"
    and "p' \<noteq> p \<or> n' \<noteq> n \<Longrightarrow> pendingAt net' p' n' = pendingAt net p' n'"
  unfolding assms pendingAt_def by (auto dest: set_remove1_subset [THEN subsetD] split: if_splits)

lemma call_inv_ran:
  assumes inv: "call_inv {} net"
    and net': "net' = net(q := (net q)\<lparr>handlers := remove1 (p, n, b) (handlers (net q)), known := s\<rparr>)"
  shows "call_inv {p} net'"
    and "(\<And>r. notifying (net p) = Some r \<Longrightarrow> callId r \<noteq> n) \<Longrightarrow> call_inv {} net'"
proof -
  have same: "nextCall (net' p') = nextCall (net p')" "notifying (net' p') = notifying (net p')" for p'
    by (simp_all add: net')
  have bound: "n' < nextCall (net p')" if "pendingAt net' p' n' \<noteq> {}" for p' n'
  proof -
    from that pending_ran(1) [OF net', of p' n'] have "pendingAt net p' n' \<noteq> {}" by blast
    with inv show ?thesis by (simp add: call_inv_def)
  qed
  have wait: "pendingAt net' p' (callId r) = {(called r, encoded r)}" if "notifying (net p') = Some r" "p' \<noteq> p \<or> callId r \<noteq> n" for p' r
    using that inv pending_ran(2) [OF net' that(2)] by (simp add: call_inv_def)
  from bound wait same show "call_inv {p} net'" by (simp add: call_inv_def)
  from bound wait same show "call_inv {} net'" if "\<And>r. notifying (net p) = Some r \<Longrightarrow> callId r \<noteq> n"
    using that unfolding call_inv_def by (metis (full_types))
qed

lemma call_inv_replied:
  assumes inv: "call_inv {} net"
    and net': "net' = net(q := (net q)\<lparr>handlers := remove1 (p, n, b) (handlers (net q)), known := s\<rparr>)"
  shows "call_inv {} (replied p n ok net')"
proof (cases "\<exists>r. notifying (net p) = Some r \<and> callId r = n")
  case True
  then obtain r where "notifying (net' p) = Some r" "callId r = n" by (cases "p = q") (auto simp: net')
  with call_inv_ran(1) [OF inv net'] show ?thesis by (simp add: replied_def call_inv_callNext call_inv_stop)
next
  case False
  then have "replied p n ok net' = net'" by (auto simp: replied_def net' split: option.split)
  with call_inv_ran(2) [OF inv net'] False show ?thesis by auto
qed

lemma filterStep_inv: "filterStep decode expiring net net' \<Longrightarrow> call_inv {} net \<Longrightarrow> call_inv {} net'"
proof (induction rule: filterStep.induct)
  case (starts net p b ks)
  then have "call_inv {p} net" by (simp add: call_inv_def)
  then show ?case by (rule call_inv_callNext)
next
  case (handled p n b net q ok s)
  from call_inv_replied [OF handled(4) refl] show ?case .
next
  case (expires p net r)
  then have "call_inv {p} net" by (simp add: call_inv_def)
  then show ?case by (rule call_inv_stop)
qed

lemma filterSteps_inv: "(filterStep decode expiring)\<^sup>*\<^sup>* net net' \<Longrightarrow> call_inv {} net \<Longrightarrow> call_inv {} net'"
  by (induction rule: rtranclp_induct) (auto intro: filterStep_inv)

text \<open>No step but an expiry moves a member of the circle.\<close>

lemma circle_step:
  assumes "filterStep decode expiring net net'" and inv: "call_inv {} net" and circle: "waitingCircle D net" and "D \<inter> expiring = {}"
  shows "sameWait D net net'"
proof -
  from assms(1) consider
      (starts) p b ks where "net' = callNext p b ks net" "notifying (net p) = None"
    | (handled) p n b q ok s where "net' = replied p n ok (net(q := (net q)\<lparr>handlers := remove1 (p, n, b) (handlers (net q)), known := s\<rparr>))"
        "(p, n, b) \<in> set (handlers (net q))" "notifying (net q) = None"
    | (expires) p where "net' = net(p := (net p)\<lparr>notifying := None\<rparr>)" "p \<in> expiring"
    by (cases rule: filterStep.cases) blast+
  then show ?thesis
  proof cases
    case starts
    then have "p \<notin> D" using circle_busy [OF circle, of p] by auto
    then show ?thesis unfolding starts(1) sameWait_def by (metis callNext_other)
  next
    case handled
    define net1 where "net1 = net(q := (net q)\<lparr>handlers := remove1 (p, n, b) (handlers (net q)), known := s\<rparr>)"
    have q: "q \<notin> D" using circle_busy [OF circle, of q] handled by auto
    have p: "replied p n ok net1 = net1" if "p \<in> D"
    proof -
      from circle that obtain r where r: "notifying (net p) = Some r" "called r \<in> D"
        by (cases "notifying (net p)") (force simp: waitingCircle_def waitsFor_def)+
      with call_inv_waits [OF inv r(1) handled(2)] q have "callId r \<noteq> n" by auto
      with r that q show ?thesis by (auto simp: replied_def net1_def)
    qed
    have "notifying (net' p') = notifying (net1 p') \<and> known (net' p') = known (net1 p')" if "p' \<in> D" for p'
      using p that replied_other [where r = p' and p = p and n = n and ok = ok and net = net1] handled(1) by (cases "p' = p") (auto simp: net1_def)
    with q show ?thesis by (auto simp: sameWait_def net1_def)
  next
    case expires
    with assms(4) show ?thesis by (auto simp: sameWait_def)
  qed
qed

lemma circle_steps:
  "(filterStep decode expiring)\<^sup>*\<^sup>* net net' \<Longrightarrow> call_inv {} net \<Longrightarrow> waitingCircle D net \<Longrightarrow> D \<inter> expiring = {} \<Longrightarrow> sameWait D net net'"
proof (induction rule: rtranclp_induct)
  case base
  then show ?case by (simp add: sameWait_def)
next
  case (step net1 net2)
  then have same: "sameWait D net net1" by blast
  from circle_step [OF step(2) filterSteps_inv [OF step(1) step.prems(1)] circle_same [OF step.prems(2) same] step.prems(3)]
  show ?case using same by (simp add: sameWait_def)
qed

section \<open>Rounds that come to their end\<close>

text \<open>A peer whose called neighbour is in no round of its own gets its reply.\<close>

lemma wait_ends:
  assumes inv: "call_inv {} net" and r: "notifying (net p) = Some r" and idle: "notifying (net (called r)) = None"
  shows "\<exists>net'. filterStep decode {} net net' \<and> notifying (net' p) \<noteq> notifying (net p)"
proof -
  let ?q = "called r" and ?n = "callId r"
  obtain ok s where nb: "NotifyBloomFilter decode p (encoded r) (known (net ?q)) = (ok, s)" by (metis surj_pair)
  define net1 where "net1 = net(?q := (net ?q)\<lparr>handlers := remove1 (p, ?n, encoded r) (handlers (net ?q)), known := s\<rparr>)"
  from filterStep.handled [where net = net and q = ?q and decode = decode and expiring = "{}", OF call_inv_pending [OF inv r] idle nb]
  have "filterStep decode {} net (replied p ?n ok net1)" by (simp add: net1_def)
  moreover have "notifying (replied p ?n ok net1 p) \<noteq> notifying (net p)"
  proof -
    have "pendingAt net p ?n \<noteq> {}" using inv r by (simp add: call_inv_def)
    then have "?n < nextCall (net p)" using inv unfolding call_inv_def by blast
    moreover have "nextCall (net1 p) = nextCall (net p)" "notifying (net1 p) = Some r" using r by (auto simp: net1_def)
    ultimately show ?thesis using r by (cases r) (auto simp: replied_def callNext_def Let_def split: list.split)
  qed
  ultimately show ?thesis by blast
qed

lemma decoded_known:
  "decode b = Some f \<Longrightarrow> NotifyBloomFilter decode p b s = (True, s\<lparr>filterMap := fmupd p f (filterMap s)\<rparr>)"
  by (simp add: NotifyBloomFilter_def)

lemma round_spreads:
  assumes "decode b = Some f" and "call_inv {p} net" and "p \<notin> set ks" and "\<forall>q\<in>set ks. notifying (net q) = None"
  shows "\<exists>net'. (filterStep decode {})\<^sup>*\<^sup>* (callNext p b ks net) net' \<and> notifying (net' p) = None \<and>
    (\<forall>q. fmlookup (filterMap (known (net' q))) p = (if q \<in> set ks then Some f else fmlookup (filterMap (known (net q))) p))"
  using assms(2-4)
proof (induction ks arbitrary: net)
  case Nil
  have "notifying (callNext p b [] net p) = None" by (simp add: callNext_def)
  moreover have "known (callNext p b [] net q) = known (net q)" for q by (rule callNext_other)
  ultimately show ?case by (intro exI [of _ "callNext p b [] net"]) simp
next
  case (Cons q qs)
  let ?net1 = "callNext p b (q # qs) net" and ?n = "nextCall (net p)"
  define net2 where "net2 = ?net1(q := (?net1 q)\<lparr>handlers := remove1 (p, ?n, b) (handlers (?net1 q)),
    known := (known (?net1 q))\<lparr>filterMap := fmupd p f (filterMap (known (?net1 q)))\<rparr>\<rparr>)"
  have qp: "q \<noteq> p" using Cons.prems(2) by auto
  have inv1: "call_inv {} ?net1" using Cons.prems(1) by (rule call_inv_callNext)
  have round: "notifying (?net1 p) = Some \<lparr>callId = ?n, encoded = b, called = q, toCall = qs\<rparr>"
    by (simp add: callNext_def Let_def)
  have idle: "notifying (?net1 q) = None" using Cons.prems(3) qp by (simp add: callNext_other)
  from call_inv_pending [OF inv1 round] have "(p, ?n, b) \<in> set (handlers (?net1 q))" by simp
  from filterStep.handled [where expiring = "{}" and net = ?net1 and q = q and decode = decode,
      OF this idle decoded_known [where decode = decode and b = b, OF assms(1)]]
  have "filterStep decode {} ?net1 (replied p ?n True net2)" by (simp add: net2_def)
  moreover have "replied p ?n True net2 = callNext p b qs net2"
    using round qp by (simp add: replied_def net2_def)
  moreover have "call_inv {p} net2" using call_inv_ran(1) [OF inv1 net2_def] .
  moreover have "p \<notin> set qs" using Cons.prems(2) by simp
  moreover have "notifying (net2 q') = None" if "q' \<in> set qs" for q'
  proof -
    have "q' \<noteq> p" using that Cons.prems(2) by auto
    with that Cons.prems(3) have "notifying (?net1 q') = None" by (simp add: callNext_other)
    with idle show ?thesis by (simp add: net2_def)
  qed
  ultimately obtain net' where run: "(filterStep decode {})\<^sup>*\<^sup>* (callNext p b qs net2) net'" "filterStep decode {} ?net1 (callNext p b qs net2)"
    and fin: "notifying (net' p) = None"
      "\<And>q'. fmlookup (filterMap (known (net' q'))) p = (if q' \<in> set qs then Some f else fmlookup (filterMap (known (net2 q'))) p)"
    using Cons.IH [of net2] by auto
  have "known (net2 q') = (if q' = q then (known (net q))\<lparr>filterMap := fmupd p f (filterMap (known (net q)))\<rparr> else known (net q'))" for q'
    by (simp add: net2_def callNext_other)
  with fin run show ?case by (intro exI [of _ net']) (auto intro: converse_rtranclp_into_rtranclp)
qed

section \<open>Properties\<close>


definition peerX :: EdgePeer where "peerX = EdgePeer ''x''"
definition peerY :: EdgePeer where "peerY = EdgePeer ''y''"

lemma peers_differ [simp]: "peerX \<noteq> peerY" "peerY \<noteq> peerX"
  by (simp_all add: peerX_def peerY_def)




end
