(* ===== verification/LinkRaces.thy ===== *)
theory LinkRaces
  imports EdgeServer
begin

text \<open>
  Goroutines of an edge that meet at a connection. \<^verbatim>\<open>timeoutAction\<close> (\<^verbatim>\<open>edge/peer/network.go\<close>) looks a neighbour
  up before it takes the lock, and writes what it saw after it; \<^verbatim>\<open>heartbeatFunction\<close> and \<^verbatim>\<open>notifyJobEnd\<close>
  (\<^verbatim>\<open>edge/server/server.go\<close>) run in different goroutines and share \<^verbatim>\<open>balancerConnection\<close> without a lock.
\<close>

section \<open>A missed ping\<close>

definition timeoutLook :: "EdgePeer \<Rightarrow> 'f AdjacentPeers \<Rightarrow> AdjConnection option" where
  "timeoutLook adjPeer s = fmlookup (peerConns s) adjPeer"

text \<open>The critical section; \<open>connection\<close> is what was looked up before it.\<close>

definition timeoutCommit :: "int \<Rightarrow> EdgePeer \<Rightarrow> AdjConnection \<Rightarrow> 'f AdjacentPeers \<Rightarrow> 'f AdjacentPeers" where
  "timeoutCommit maxMissedPing adjPeer connection0 s =
     (let connection = connection0\<lparr>missedPing := wrap64 (missedPing connection0 + 1)\<rparr>;
          s1 = s\<lparr>peerConns := fmupd adjPeer connection (peerConns s)\<rparr>
      in if maxMissedPing \<le> missedPing connection
         then let s2 = closeClient (peerConnection connection) s1;
                  s3 = s2\<lparr>peerConns := fmdrop adjPeer (peerConns s2)\<rparr>
              in removeBloomFilter adjPeer s3
         else s1)"

lemma timeoutAction_atomic:
  "timeoutAction mx p s = (case timeoutLook p s of None \<Rightarrow> s | Some conn \<Rightarrow> timeoutCommit mx p conn s)"
  by (simp add: timeoutAction_def timeoutLook_def timeoutCommit_def split: option.split)

section \<open>The connection to the load balancer\<close>

text \<open>Where a call of \<^verbatim>\<open>heartbeatFunction\<close> or \<^verbatim>\<open>notifyJobEnd\<close> is.\<close>

datatype linkPc = Looks | Sends | Awaits | Closes | Resets | Finished

record sharedLink =
  connected :: bool
  pcs :: "nat \<Rightarrow> linkPc"

text \<open>One step of a goroutine: \<open>connects\<close> is what dialling gives, \<open>answer\<close> what the call gets.\<close>

definition linkStep :: "nat \<Rightarrow> bool \<Rightarrow> callResult \<Rightarrow> sharedLink \<Rightarrow> sharedLink outcome" where
  "linkStep i connects answer s =
     (let goto = (\<lambda>pc s. s\<lparr>pcs := (pcs s)(i := pc)\<rparr>) in
      case pcs s i of
        Looks \<Rightarrow> Done (if connected s then goto Sends s
          else if connects then goto Sends (s\<lparr>connected := True\<rparr>) else goto Finished s)
      | Sends \<Rightarrow> if connected s then Done (goto Awaits s) else Panicked
      | Awaits \<Rightarrow> (case answer of Replied \<Rightarrow> Done (goto Finished s) | Failed \<Rightarrow> Done (goto Closes s) | Expired \<Rightarrow> Panicked)
      | Closes \<Rightarrow> if connected s then Done (goto Resets s) else Panicked
      | Resets \<Rightarrow> Done (goto Finished (s\<lparr>connected := False\<rparr>))
      | Finished \<Rightarrow> Done s)"

fun runLink :: "(nat \<times> bool \<times> callResult) list \<Rightarrow> sharedLink \<Rightarrow> sharedLink outcome" where
  "runLink [] s = Done s"
| "runLink ((i, connects, answer) # schedule) s = and_then (linkStep i connects answer s) (runLink schedule)"

text \<open>A goroutine that is alone does what the sequential definition says.\<close>

lemma alone_is_sequential:
  assumes "pcs s i = Looks"
  shows "runLink (replicate 5 (i, connects, answer)) s =
    and_then (notifyJobEnd connects answer (l\<lparr>balancerConnection := connected s\<rparr>)) (\<lambda>(sent, l').
      Done (s\<lparr>connected := balancerConnection l', pcs := (pcs s)(i := Finished)\<rparr>))"
  using assms by (cases answer; cases "connected s"; cases connects)
    (simp_all add: linkStep_def notifyJobEnd_def awaitBalancer_def eval_nat_numeral)

section \<open>Properties\<close>

text \<open>C39: a neighbour that misses a ping and joins again between the lookup and the critical section of the
  missed ping loses its new link: the entry of the old connection is written back, or the neighbour is
  dropped, and the new connection stays open without an owner.\<close>

theorem stale_timeout_loses_link:
  assumes inv: "net_inv s" and look: "timeoutLook p s = Some conn" and join: "AddNeighbour dial p s = (True, s1)"
    and below: "missedPing conn < 2 ^ 63 - 1" and "0 \<le> missedPing conn"
  shows "let s2 = timeoutCommit mx p conn s1; fresh = length (clients s) in
    isOpen s2 fresh \<and> (\<forall>q c. fmlookup (peerConns s2) q = Some c \<longrightarrow> peerConnection c \<noteq> fresh) \<and>
    fmlookup (peerConns s2) p = (if mx \<le> missedPing conn + 1 then None else Some (conn\<lparr>missedPing := missedPing conn + 1\<rparr>))"
proof -
  have wrap: "wrap64 (missedPing conn + 1) = missedPing conn + 1"
    using below assms(5) by (intro wrap64_id) auto
  have old: "peerConnection c < length (clients s)" if "fmlookup (peerConns s) q = Some c" for q c
    using net_inv_bound [OF inv that] .
  have conn: "peerConnection conn < length (clients s)" using old look by (simp add: timeoutLook_def)
  from join have s1: "s1 = s\<lparr>clients := clients s @ [True],
      peerConns := fmupd p \<lparr>peerConnection = length (clients s), missedPing = 0\<rparr> (peerConns s)\<rparr>"
    by (auto simp: AddNeighbour_def connectAndAddNeighbour_def ConnectToNode_def split: if_splits)
  show ?thesis
    using conn by (auto simp: timeoutCommit_def Let_def wrap s1 isOpen_def closeClient_def removeBloomFilter_def nth_append
        dest!: old split: if_splits)
qed

definition linkedNet :: "unit AdjacentPeers" where
  "linkedNet = \<lparr>peerConns = fmupd (EdgePeer ''b'') \<lparr>peerConnection = 0, missedPing = 2\<rparr> fmempty, filterMap = fmempty,
     clients = [False], registryClient = None\<rparr>"

theorem stale_timeout_loses_link_witness:
  "let s1 = snd (AddNeighbour (\<lambda>_. True) (EdgePeer ''b'') linkedNet);
       s2 = timeoutCommit 3 (EdgePeer ''b'') \<lparr>peerConnection = 0, missedPing = 2\<rparr> s1
   in isOpen s2 1 \<and> fmlookup (peerConns s2) (EdgePeer ''b'') = None"
proof -
  have "net_inv linkedNet" "timeoutLook (EdgePeer ''b'') linkedNet = Some \<lparr>peerConnection = 0, missedPing = 2\<rparr>"
    by (auto simp: net_inv_def linkedNet_def timeoutLook_def split: if_splits)
  moreover have "AddNeighbour (\<lambda>_. True) (EdgePeer ''b'') linkedNet = (True, snd (AddNeighbour (\<lambda>_. True) (EdgePeer ''b'') linkedNet))"
    by (simp add: AddNeighbour_def connectAndAddNeighbour_def ConnectToNode_def)
  ultimately show ?thesis
    using stale_timeout_loses_link [of linkedNet "EdgePeer ''b''" "\<lparr>peerConnection = 0, missedPing = 2\<rparr>" "\<lambda>_. True" _ 3]
    by (auto simp: Let_def linkedNet_def)
qed

text \<open>C40: a call to the load balancer that is alone on the connection ends without a panic unless its reply
  times out; but of two calls on their way that both fail, the second one closes a connection that the first
  one has set to nil, and a call that has found the connection there panics when another one resets it.\<close>

theorem balancer_link_race:
  assumes "i \<noteq> j"
  shows "(\<forall>s connects answer. pcs s i = Looks \<longrightarrow>
      (runLink (replicate 5 (i, connects, answer)) s = Panicked \<longleftrightarrow> answer = Expired \<and> (connected s \<or> connects))) \<and>
    (\<forall>s. connected s \<and> pcs s i = Awaits \<and> pcs s j = Awaits \<longrightarrow>
      runLink [(i, c, Failed), (j, c, Failed), (i, c, Failed), (i, c, Failed), (j, c, Failed)] s = Panicked) \<and>
    (\<forall>s. connected s \<and> pcs s i = Awaits \<and> pcs s j = Looks \<longrightarrow>
      runLink [(j, c, Replied), (i, c, Failed), (i, c, Failed), (i, c, Failed), (j, c, Replied)] s = Panicked)"
proof -
  have "runLink (replicate 5 (i, connects, answer)) s = Panicked \<longleftrightarrow> answer = Expired \<and> (connected s \<or> connects)"
    if "pcs s i = Looks" for s connects answer
    unfolding alone_is_sequential [OF that, where l = "\<lparr>edgeServer = [], workload = 0, balancerConnection = False\<rparr>"]
    by (cases answer) (simp_all add: notifyJobEnd_def awaitBalancer_def)
  with assms show ?thesis by (simp add: linkStep_def)
qed

theorem balancer_link_race_witness:
  "runLink [(0, True, Failed), (1, True, Failed), (0, True, Failed), (0, True, Failed), (1, True, Failed)]
     \<lparr>connected = True, pcs = (\<lambda>_. Awaits)\<rparr> = Panicked"
  using balancer_link_race [of 0 1 True] by simp

end
