(* ===== verification/Spec2Isabelle.thy ===== *)
theory Spec2Isabelle
  imports BalancerStart RegistryStart S3Streams Redirection EdgeJobs CacheRun NetRun EdgeStart Joining InsertRace FilterRounds LinkRaces
begin

text \<open>
  A distributed file store: a load balancer sends clients to edge servers, edges cache the files of an
  S3 bucket and search each other's caches before they ask S3, and a registry keeps the network of the
  edges connected. The three Go programs are \<^verbatim>\<open>load_balancer\<close>, \<^verbatim>\<open>edge\<close> and \<^verbatim>\<open>registry\<close>; the model
  follows their functions by name.

  \<^bold>\<open>How the code is modelled.\<close> \<open>GoPrelude\<close>: running code has an \<open>outcome\<close>, \<open>Done\<close> with a value, \<open>Panicked\<close>
  or \<open>Blocked\<close> (waiting for ever), and \<open>and_then\<close> composes outcomes. An \<^verbatim>\<open>int\<close> is an integer with
  \<open>wrap64\<close> where it can overflow; a Go map is a finite map, and a \<^verbatim>\<open>range\<close> loop over it takes the order of
  the keys as an argument, constrained by \<open>enumerates\<close>; a slice has a backing array. Errors are values.
  Pointers that alias are addresses into an explicit heap. Mutexes are flags, so that locking twice is
  \<open>Blocked\<close>. \<open>Channels\<close> models \<^verbatim>\<open>redirection_channel.go\<close> and Go's channels, \<open>Strconv\<close>, \<open>Json\<close> and \<open>Float64\<close> the parts
  of the standard library whose results matter. What is not in the repository (S3, gRPC, net/rpc, the
  file system's failures, the clock, random numbers, Bloom filters) is an argument of the definitions.

  \<^bold>\<open>The parts, and where they are.\<close>
  \<^item> The cache of an edge, \<^verbatim>\<open>edge/cache/cache.go\<close>: \<open>FileCache\<close> (queue, map, directory; look-up, insertion in
    the queue, removal, cleaning, recovery) and \<open>CacheEviction\<close> (eviction and the insertion of a file that
    arrives on a channel). The locale \<open>popularity_sort\<close> is the contract of the sort that eviction calls.
    \<open>cache_inv\<close> ties the queue to the map; every operation keeps it. \<open>FileStore\<close> states the cache's promise
    to its clients as the locale \<open>file_store\<close> (a map from names to contents) and interprets it on the cache;
    \<open>CacheRun\<close> has the reachable states, under any faults, \<open>CacheLoops\<close> the goroutine that cleans again and again,
    \<open>InsertRace\<close> two insertions of one file that meet.
  \<^item> The data plane: \<open>S3Streams\<close> (\<^verbatim>\<open>edge/s3_boundary\<close>) adapts channels to the S3 client; \<open>Redirection\<close>
    (\<^verbatim>\<open>stream_redirection.go\<close>, parts of \<^verbatim>\<open>server_services.go\<close> and \<^verbatim>\<open>peer_services.go\<close>) copies a stream to its
    destination and to the cache. Concurrency is a list of events, or the step relation \<open>readerStep\<close> with
    reachable states and an invariant by rule induction where a buffer is shared.
  \<^item> The edges among themselves: \<open>PeerNet\<close> (\<^verbatim>\<open>network.go\<close>, \<^verbatim>\<open>peer_utils.go\<close>: connections, pings, filters,
    registration) and \<open>Lookup\<close> (\<^verbatim>\<open>peer.go\<close>, \<^verbatim>\<open>peer_services.go\<close>, \<^verbatim>\<open>file_request_cache.go\<close>,
    the floods of searches and deletions as the step relations \<open>lookupRun\<close> and
    \<open>deleteRun\<close> over the whole network), \<open>LookupAnswers\<close> (\<^verbatim>\<open>lookup_server.go\<close>: the way an answer takes back)
    and \<open>NetRun\<close> (the reachable states of a neighbourhood). \<open>PeerLoops\<close> has the goroutines that ping, report and send
    filters, \<open>FilterRounds\<close> the rounds of many peers at once (\<open>filterStep\<close>), \<open>LinkRaces\<close> goroutines that meet at a connection.
  \<^item> The edge for its clients: \<open>EdgeServer\<close> (\<^verbatim>\<open>server_services.go\<close>, \<^verbatim>\<open>server.go\<close>, \<^verbatim>\<open>server_utils.go\<close>,
    \<^verbatim>\<open>custom_errors.go\<close>) composes the cache, the data plane and the lookup into \<open>Upload\<close>, \<open>Download\<close> and
    \<open>Delete\<close>; \<open>EdgeJobs\<close> proves what these jobs achieve. The locale \<open>timed_report\<close> is shared by the three
    loops that report to another server and wait with a timeout.
  \<^item> The load balancer: \<open>Balancer\<close> (\<^verbatim>\<open>load_balancer/services\<close>, \<^verbatim>\<open>login\<close>). \<open>balancerRun\<close> are its reachable states,
    \<open>getEdgeStep\<close> the interleavings of the handler that reads the sequence number outside its lock. \<open>BalancerService\<close>
    adds the settings the handlers read, sequences of requests and the types of the state.
  \<^item> The registry: \<open>RegistryGraph\<close> (\<^verbatim>\<open>graph.go\<close>) and \<open>Registry\<close> (\<^verbatim>\<open>network_monitor.go\<close>,
    \<^verbatim>\<open>registry_services.go\<close>). \<open>Liveness\<close> holds \<open>heartbeat_monitor\<close>, the contract of a sweep over silent nodes,
    interpreted on the balancer and on the registry, \<open>RegistryRun\<close> the registry's reachable states. \<open>Peers\<close> orders the peers by address.
    \<open>Joining\<close> composes the registry's answer to a new peer with the calls between the peer and its neighbours.
  \<^item> The settings: \<open>Config\<close> (\<^verbatim>\<open>edge/utils/utils.go\<close>), \<open>ConfigCopies\<close> (the copies in \<^verbatim>\<open>load_balancer/utils\<close> and
    \<^verbatim>\<open>registry/utils\<close>, and the random identifiers) and \<open>ParseFloat\<close>.
  \<^item> The start: \<open>Startup\<close> has runs that log, launch goroutines and stop (\<open>bind_run\<close> composes them, \<open>startup\<close> collects
    the rules that evaluate them); \<open>EdgeStart\<close>, \<open>BalancerStart\<close> (with the Redis client) and \<open>RegistryStart\<close> follow the
    three \<^verbatim>\<open>main\<close> functions.

  \<^bold>\<open>What is shown.\<close> The cache refines a map; uploads are stored in S3 and in the cache; downloads deliver
  whole copies, from the cache, from S3 and from another edge (this theory composes both edges);
  deletions have their effect; the balancer picks a least loaded server and its invariant holds in every
  reachable state; a monitor round links the components of the network; searches ask the right
  neighbours and die out; errors and settings survive their round trips, and the copies of the configuration code are
  equivalent; the balancer's state keeps its types; programs that start serve where they say; a peer that enters
  is linked to the network; silent neighbours and servers are dropped in time, and repeated cleaning removes what has
  expired. Other theorems state
  where the code does not do what it is meant to: eviction deadlocks on its own mutex, a failed transfer
  between edges panics, the flood of a deletion grows, a cached file can be sent corrupted, a late answer
  takes an edge down, the heartbeats make the balancer forget the load, peers that notify each other block each
  other, and insertions, missed pings and calls to the balancer race.

  \<^bold>\<open>Bounds.\<close> There is no fuel: loops are structural, or have a measure (the unvisited peers of a search in
  the graph, the rest of a file or a text, the neighbours not asked yet). Loops that run for ever in the code
  (heartbeats, sweeps, pings, cleaning, retries, the reading select loops) take the list of the rounds or events they meet, and a run that
  consumes its list without ending is \<open>Blocked\<close>.

  \<^bold>\<open>Not modelled.\<close> gRPC, net/rpc, the S3 and Redis libraries, listeners and random sources are arguments; what is relied
  on is a named hypothesis (\<open>redisLaws\<close>, \<open>uniformBelow\<close>, \<open>visitsAll\<close>). Opening an S3 session and the terminal escapes of \<^verbatim>\<open>PrintEvent\<close>
  only call libraries, and protoc generated the protocol code. \<open>ParseFloat\<close> leaves hexadecimal and underscored
  texts to an argument. The Python client and the test programs are not Go. Interleaved are: the reading of the
  sequence number, the buffer of the local reader, insertions in the cache, rounds of filters, missed pings, and
  the connection to the balancer; the other unguarded accesses are taken as atomic. Sleeping is not modelled: a
  loop with a period is a list of rounds.
\<close>

section \<open>The texts of errors\<close>

lemma copies_error_text: "balancerNewCustomError (ErrorCodes_value code) msg = NewCustomError code msg"
  by (simp add: balancerNewCustomError_def balancerBuildJsonMessage_def NewCustomError_def buildJsonMessage_def)

section \<open>Heartbeats and the load of a server\<close>

text \<open>How a heartbeat of \<^verbatim>\<open>edge/server/server.go\<close> arrives at \<^verbatim>\<open>load_balancer/services/balancing_services.go\<close>.\<close>

definition arrives :: "LoadReport \<Rightarrow> HeartbeatMessage" where
  "arrives m = \<lparr>hbServer = EdgeServer (reporter m), CurrentLoad = reportedLoad m\<rparr>"

definition balancerGets :: "(int \<times> LoadReport) list \<Rightarrow> BalancingServiceServer \<Rightarrow> BalancingServiceServer" where
  "balancerGets hbs s = fold (\<lambda>(now, m). Balancer.Heartbeat (1 / 2) now (arrives m)) hbs s"

lemma idle_heartbeat:
  assumes "fmlookup (edgeServerMap s) srv = Some load" and "fmlookup (BalancingServiceServer.heartbeats s) srv \<noteq> None"
    and "0 \<le> load" and "load \<le> 2 ^ 53"
  shows "fmlookup (edgeServerMap (Balancer.Heartbeat (1 / 2) now \<lparr>hbServer = srv, CurrentLoad = 0\<rparr> s)) srv = Some (load div 2)"
    and "fmlookup (BalancingServiceServer.heartbeats (Balancer.Heartbeat (1 / 2) now \<lparr>hbServer = srv, CurrentLoad = 0\<rparr> s)) srv \<noteq> None"
  using assms weightedLoad_half [of load 0] by (auto simp: Balancer.Heartbeat_def Let_def)

lemma idle_heartbeats:
  assumes "list_all (\<lambda>(now, m). m = \<lparr>reporter = addr, reportedLoad = 0\<rparr>) hbs"
    and "fmlookup (edgeServerMap s) (EdgeServer addr) = Some load" and "fmlookup (BalancingServiceServer.heartbeats s) (EdgeServer addr) \<noteq> None"
    and "0 \<le> load" and "load \<le> 2 ^ 53"
  shows "fmlookup (edgeServerMap (balancerGets hbs s)) (EdgeServer addr) = Some (load div 2 ^ length hbs)"
  using assms
proof (induction hbs arbitrary: s load)
  case Nil
  then show ?case by (simp add: balancerGets_def)
next
  case (Cons x hbs)
  obtain now m where x: "x = (now, m)" by (cases x)
  then have m: "m = \<lparr>reporter = addr, reportedLoad = 0\<rparr>" using Cons.prems(1) by simp
  let ?s = "Balancer.Heartbeat (1 / 2) now \<lparr>hbServer = EdgeServer addr, CurrentLoad = 0\<rparr> s"
  note one = idle_heartbeat [OF Cons.prems(2-5), of now]
  have "fmlookup (edgeServerMap (balancerGets hbs ?s)) (EdgeServer addr) = Some (load div 2 div 2 ^ length hbs)"
    using Cons.prems one by (intro Cons.IH) auto
  moreover have "balancerGets (x # hbs) s = balancerGets hbs ?s"
    by (simp add: balancerGets_def x m arrives_def)
  moreover have "load div 2 div 2 ^ length hbs = load div 2 ^ length (x # hbs)"
    using Cons.prems(4) by (simp add: zdiv_zmult2_eq)
  ultimately show ?case by simp
qed

text \<open>C15: the load balancer forgets the load of a server: the heartbeats report a global that stays zero,
  whatever jobs run, so that each of them halves the load the balancer has counted.\<close>

theorem balancer_forgets_load:
  assumes run: "heartbeatToBalancer rounds l = Done (msgs, l')" and "workload l = 0"
    and "length ticks = length msgs"
    and "fmlookup (edgeServerMap s) (EdgeServer (edgeServer l)) = Some load"
    and "fmlookup (BalancingServiceServer.heartbeats s) (EdgeServer (edgeServer l)) \<noteq> None" and "0 \<le> load" and "load \<le> 2 ^ 53"
  shows "fmlookup (edgeServerMap (balancerGets (zip ticks msgs) s)) (EdgeServer (edgeServer l)) =
    Some (load div 2 ^ length rounds)"
proof -
  note msgs = heartbeatToBalancer_load [OF run]
  have "list_all (\<lambda>(now, m). m = \<lparr>reporter = edgeServer l, reportedLoad = 0\<rparr>) (zip ticks msgs)"
    using msgs assms(2) by (auto simp: list_all_iff dest: set_zip_rightD)
  from idle_heartbeats [OF this assms(4-7)] show ?thesis using msgs assms(3) by simp
qed

theorem balancer_forgets_load_witness:
  "\<exists>msgs l'. heartbeatToBalancer [([True], Replied), ([], Replied)] \<lparr>edgeServer = ''a'', workload = 0, balancerConnection = False\<rparr> = Done (msgs, l') \<and>
     fmlookup (edgeServerMap (balancerGets (zip [1, 2] msgs)
       \<lparr>edgeServerMap = fmupd (EdgeServer ''a'') 9 fmempty, heartbeatCheckTime = 0,
         heartbeats = fmupd (EdgeServer ''a'') 0 fmempty, sequenceNumber = 0\<rparr>)) (EdgeServer ''a'') = Some 2"
proof -
  let ?l = "\<lparr>edgeServer = ''a'', workload = 0, balancerConnection = False\<rparr>"
  obtain msgs l' where run: "heartbeatToBalancer [([True], Replied), ([], Replied)] ?l = Done (msgs, l')" and "length msgs = 2"
    by (auto simp: heartbeatFunction_def awaitBalancer_def Let_def)
  with balancer_forgets_load [OF run, of "[1, 2]" "\<lparr>edgeServerMap = fmupd (EdgeServer ''a'') 9 fmempty, heartbeatCheckTime = 0,
         heartbeats = fmupd (EdgeServer ''a'') 0 fmempty, sequenceNumber = 0\<rparr>" 9] show ?thesis by auto
qed

section \<open>A file on its way through two edges\<close>

text \<open>C5: from edge to edge to client: an edge that has the file serves its bytes in chunks; the edge the
  client asked redirects them and ends up with the same bytes in its own cache, and the client has
  the file.\<close>

theorem edge_to_edge_download:
  assumes owner: "storeView (cA, fsA) name = Some bs" and "bs \<noteq> []" and "0 < chunkSize"
    and serve: "DownloadFromEdge (\<lambda>_. False) chunkSize (content fsA name) = Done (None, chunks)"
    and store: "storeInv (envNow env) (envTTL env) (edgeCache e, fs)" and miss: "fmlookup (cachingMap (edgeCache e)) name = None"
    and fits: "IsFileCacheable (envMaxCachable env) (FileSize answer)" "storeFits (envStatfs env) (FileSize answer)"
    and srv: "setupServer setup = Some srv"
    and look: "lookupFileInNetwork test env setup srv name requestId e = Done (calls, e1)"
    and events: "callbackEvents setup = EdgeAnswered answer tr # evs" and sends: "transferSends tr = (\<lambda>_. None)"
    and wire: "transferDialErr tr = None" "transferCallErr tr = None" "transferCloseErr tr = None"
    and run: "rcvAndRedirectChunks (transferEvents tr) (transferReturned tr) (NewRedirectionChannel (envDownloadChannelSize env))
      (NewRedirectionChannel (envDownloadChannelSize env)) True = Done (None, st)"
    and stays: "list_all cacheStays (transferEvents tr)" and received: "received st = map Chunk chunks"
  shows "\<exists>r. doDownload test env svc localSends localTaken setup t name requestId e fs = Done r \<and> reply r = None \<and>
    concat (map Chunk (sentChunks r)) = bs \<and>
    returns (cacheAfter r) (\<lambda>s. storeView s = (storeView (edgeCache e, fs))(name \<mapsto> bs))"
proof -
  have stored: "content fsA name = Some bs" using owner by (simp add: storeView_def split: if_splits)
  obtain sent where "sendChunks (\<lambda>_. False) (nat chunkSize) 0 bs = (None, sent)" "concat (map Chunk sent) = bs"
    using sendChunks_all [of "\<lambda>_. False" "nat chunkSize" 0 bs] assms(3) by auto
  then have chunks: "concat (map Chunk chunks) = bs" using serve stored assms(3) by (simp add: DownloadFromEdge_def)
  have clean: "grpcError st = None" "mainChannelError st = None" using rcv_main(4) [OF run] by simp_all
  have main: "mainSent st = map dataMessage (received st)" using rcv_main(3) [OF run clean(1)] .
  have cache: "cacheSent st = map dataMessage (received st)" using rcv_outcome(1) [OF run stays clean] .
  obtain sent' where red: "redirectStreamToClient (\<lambda>_. None) True (map dataMessage (received st)) = Done (None, sent', [])"
    and sent': "map Chunk sent' = received st"
    using redirectLoop_data [of "map dataMessage (received st)" 0] by (auto simp: redirectStreamToClient_def)
  let ?bg = "insertGoroutine env True name (FileSize answer) True (cacheSent st) (Done (edgeCache e, fs))"
  have "sendFromOtherEdge env answer name tr (Done (edgeCache e, fs)) = Done (None, sent', ?bg)"
    using run wire fits(1) sends red main rcv_main(1,2) [OF run]
    by (simp add: sendFromOtherEdge_def downloadFromOtherEdge_def)
  then have dl: "doDownload test env svc localSends localTaken setup t name requestId e fs =
      Done \<lparr>reply = None, sentChunks = sent', issuedCalls = calls, edgeAfter = e1, cacheAfter = ?bg\<rparr>"
    using srv look events by (simp add: doDownload_def IsFileInCache_miss [OF miss] Let_def)
  have "storeView (edgeCache e, fs) name = None" using storeView_None [OF store] miss by simp
  then have ready: "uploadReady env name (FileSize answer) (edgeCache e, fs)"
    using store fits by (simp add: uploadReady_def)
  have bytes: "concat (received st) = bs" using received chunks by simp
  then have "map dataMessage (received st) \<noteq> []" using assms(2) by auto
  then have "returns ?bg (\<lambda>s. storeView s = (storeView (edgeCache e, fs))(name \<mapsto> bs))"
    unfolding cache by (rule returns_mono [OF insertGoroutine_put [OF ready]]) (simp add: bytes)
  with dl sent' received chunks show ?thesis by simp
qed

theorem edge_to_edge_download_witness:
  "\<exists>r. doDownload boolTest demoEnv demoService (\<lambda>_. None) [] (demoSetup None) demoS3 ''x'' ''r1'' (starEdge True) (plain_disk []) = Done r \<and>
     concat (map Chunk (sentChunks r)) = [1, 2] \<and> returns (cacheAfter r) (\<lambda>s. storeView s ''x'' = Some [1, 2])"
proof -
  let ?fA = "\<lparr>fileName = ''x'', fileSize = 2, timestamp = 0, popularity = 1\<rparr>"
  have owner: "storeView (cache_of [?fA], plain_disk [(''x'', Regular [1, 2])]) ''x'' = Some [1, 2]"
    by (simp add: storeView_def cache_view_cache_of content_def plain_disk_def)
  have serve: "DownloadFromEdge (\<lambda>_. False) 1 (content (plain_disk [(''x'', Regular [1, 2])]) ''x'') =
      Done (None, [\<lparr>Chunk = [1], SeqNum = 0\<rparr>, \<lparr>Chunk = [2], SeqNum = 1\<rparr>])"
    by (simp add: DownloadFromEdge_def content_def plain_disk_def sendChunks.simps)
  have store: "storeInv (envNow demoEnv) (envTTL demoEnv) (edgeCache (starEdge True), plain_disk [])"
    using storeInv_empty [of 60 7] by (simp add: starEdge_def)
  have miss: "fmlookup (cachingMap (edgeCache (starEdge True))) ''x'' = None" by (simp add: starEdge_def selfCache_def)
  have fits: "IsFileCacheable (envMaxCachable demoEnv) (FileSize demoAnswer)" "storeFits (envStatfs demoEnv) (FileSize demoAnswer)"
    using demo_ready by (simp_all add: uploadReady_def demoAnswer_def)
  note srv = demo_server [of None]
  obtain calls m where "NeighboursFileLookup boolTest 2 (EdgePeer ''s'') starOrders 7 ''x'' 2 ''r1'' ''s'' ''cb'' (starNet True) fmempty = Done (m, calls)"
    using demo_lookup by blast
  then have look: "lookupFileInNetwork boolTest demoEnv (demoSetup None) demoServer ''x'' ''r1'' (starEdge True) =
      Done (calls, (starEdge True)\<lparr>requestMap := m\<rparr>)"
    by (simp add: lookupFileInNetwork_def demoSetup_def demoServer_def) (simp add: starEdge_def)
  have events: "callbackEvents (demoSetup None) = EdgeAnswered demoAnswer (demoTransfer None) # [TimerFired]" by (simp add: demoSetup_def)
  have wire: "transferSends (demoTransfer None) = (\<lambda>_. None)" "transferDialErr (demoTransfer None) = None"
    "transferCallErr (demoTransfer None) = None" "transferCloseErr (demoTransfer None) = None"
    and stays: "list_all cacheStays (transferEvents (demoTransfer None))"
    using demo_stays by (simp_all add: demoTransfer_def)
  obtain st where run: "rcvAndRedirectChunks (transferEvents (demoTransfer None)) (transferReturned (demoTransfer None))
      (NewRedirectionChannel (envDownloadChannelSize demoEnv)) (NewRedirectionChannel (envDownloadChannelSize demoEnv)) True = Done (None, st)"
    and "received st = map Chunk [\<lparr>Chunk = [1], SeqNum = 0\<rparr>, \<lparr>Chunk = [2], SeqNum = 1\<rparr>]"
    using demo_run [of None] by (auto simp: demoTransfer_def)
  from edge_to_edge_download [OF owner _ _ serve store miss fits srv look events wire run stays this(2),
      where svc = demoService and localSends = "\<lambda>_. None" and localTaken = "[]" and t = demoS3]
  obtain r where r: "doDownload boolTest demoEnv demoService (\<lambda>_. None) [] (demoSetup None) demoS3 ''x'' ''r1'' (starEdge True) (plain_disk []) = Done r"
    and sent: "concat (map Chunk (sentChunks r)) = [1, 2]"
    and after: "returns (cacheAfter r) (\<lambda>s. storeView s = (storeView (edgeCache (starEdge True), plain_disk []))(''x'' \<mapsto> [1, 2]))"
    by auto
  have "returns (cacheAfter r) (\<lambda>s. storeView s ''x'' = Some [1, 2])" by (rule returns_mono [OF after]) simp
  with r sent show ?thesis by blast
qed

text \<open>C4: a client that downloads a cached file which fits in the read buffer gets it, whatever the
  interleaving of the reading goroutine and the client loop.\<close>

theorem cached_download_serves:
  assumes store: "storeInv now ttl (edgeCache e, fs)" and cached: "storeView (edgeCache e, fs) name = Some bs" and "bs \<noteq> []"
    and reach: "readerReach cap chunkSize bs s" and "length bs \<le> chunkSize"
    and ended: "fileRest s = []" "pendingSend s = None" "clientQueue s = []"
  shows "\<exists>r. doDownload test env svc (\<lambda>_. None) (clientGot s) search t name requestId e fs = Done r \<and> reply r = None \<and>
    map Chunk (sentChunks r) = [bs]"
proof -
  have "storeView (edgeCache e, fs) name \<noteq> None" using cached by simp
  then obtain p where p: "fmlookup (cachingMap (edgeCache e)) name = Some p"
    using storeView_None [OF store, of name] by auto
  have hit: "IsFileInCache name (edgeCache e) = Done (True, bump_popularity p (edgeCache e))"
    using store p by (intro IsFileInCache_hit) (simp_all add: storeInv_def)
  have stored: "content fs name = Some bs" using cached by (simp add: storeView_def split: if_splits)
  have got: "clientGot s = [bs]"
    using single_inv_reach [OF reach assms(5,3)] assms(3) ended by (auto simp: single_inv_def)
  obtain sent where "redirectStreamToClient (\<lambda>_. None) True (map dataMessage [bs]) = Done (None, sent, [])" "map Chunk sent = [bs]"
    using redirectLoop_data [of "map dataMessage [bs]" 0] by (auto simp: redirectStreamToClient_def)
  then show ?thesis by (simp add: doDownload_def hit sendFromLocalCache_def stored got Let_def)
qed

theorem cached_download_serves_witness:
  "\<exists>(s :: localReader) r. doDownload boolTest demoEnv demoService (\<lambda>_. None) (clientGot s) (demoSetup None) demoS3 ''b'' ''r1''
     ((starEdge True)\<lparr>edgeCache := cache_of [freshFile]\<rparr>) (plain_disk [(''b'', Regular [7, 8, 9])]) = Done r \<and>
     map Chunk (sentChunks r) = [[7, 8, 9]]"
proof -
  let ?e = "(starEdge True)\<lparr>edgeCache := cache_of [freshFile]\<rparr>"
  let ?fs = "plain_disk [(''b'', Regular [7, 8, 9])]"
  let ?s0 = "openReader 4 [7, 8, 9]"
  let ?s1 = "?s0\<lparr>readBuffer := [7, 8, 9, 0], fileRest := [], pendingSend := Some 3\<rparr>"
  let ?s2 = "?s1\<lparr>pendingSend := None, clientQueue := [3]\<rparr>"
  let ?s3 = "?s2\<lparr>clientQueue := [], clientGot := [[7, 8, 9]]\<rparr>"
  have steps: "readerStep 5 4 ?s0 ?s1" "readerStep 5 4 ?s1 ?s2" "readerStep 5 4 ?s2 ?s3"
    using fileRead [of ?s0 3 4 5] chanSend [of ?s1 3 5 4] clientTake [of ?s2 3 "[]" 5 4]
    by (simp_all add: openReader_def numeral_eq_Suc)
  have reach: "readerReach 5 4 [7, 8, 9] ?s3"
    using readerReach.step [OF readerReach.step [OF readerReach.step [OF readerReach.start steps(1)] steps(2)] steps(3)] .
  have view: "cache_view (cache_of [freshFile]) n = (if n = ''b'' then Some freshFile else None)" for n
    by (simp add: cache_view_cache_of freshFile_def)
  have "cache_inv (cache_of [freshFile])" by (rule cache_inv_cache_of) simp
  then have store: "storeInv (200 * 10 ^ 9) 60 (edgeCache ?e, ?fs)"
    by (simp add: storeInv_def view) (simp add: cache_of_def plain_disk_def faultless_def freshFile_def expired_def wrap64_id content_def)
  have cached: "storeView (edgeCache ?e, ?fs) ''b'' = Some [7, 8, 9]"
    by (simp add: storeView_def cache_view_cache_of freshFile_def content_def plain_disk_def)
  have sizes: "[7, 8, 9 :: 8 word] \<noteq> []" "length [7, 8, 9 :: 8 word] \<le> 4" and ended: "fileRest ?s3 = []" "pendingSend ?s3 = None" "clientQueue ?s3 = []"
    by simp_all
  obtain r where "doDownload boolTest demoEnv demoService (\<lambda>_. None) (clientGot ?s3) (demoSetup None) demoS3 ''b'' ''r1'' ?e ?fs = Done r"
      "map Chunk (sentChunks r) = [[7, 8, 9]]"
    using cached_download_serves [OF store cached sizes(1) reach sizes(2) ended,
      where test = boolTest and env = demoEnv and svc = demoService and search = "demoSetup None" and t = demoS3 and requestId = "''r1''"]
    by (elim exE conjE) (rule that)
  then show ?thesis by (intro exI conjI)
qed

end
